(* ===== verification/Prelude.thy ===== *)
theory Prelude
  imports
    "HOL-Library.Word"
    "HOL-Library.AList"
    "HOL-Library.List_Lexorder"
    "HOL-Library.Product_Lexorder"
begin

text \<open>
  Shared vocabulary of the development: Python exceptions as values, the result type and its
  sequencing operators, byte strings, fixed-width big-endian integers as \<open>struct.pack\<close> and
  \<open>int.to_bytes\<close> write them, hexadecimal text, and Python dictionaries as association lists
  in insertion order. Lemmas that several components use live here.
\<close>

named_theorems byte_simps
  \<open>lengths and values of big-endian encodings\<close>

named_theorems dict_simps
  \<open>lookups in dictionaries built by insertion, update and filtering\<close>

section \<open>Exceptions and results\<close>

text \<open>
  A Python exception the modelled code can raise. The message of a \<open>ValueError\<close> or
  \<open>RuntimeError\<close> is kept where the code tells several errors apart by it.
\<close>

datatype py_error =
    StructError | OverflowError | AssertionError | IndexError | KeyError | TypeError | AttributeError
  | ZeroDivisionError
  | ValueError string | RuntimeError string | OSError string | SystemExit string
  | TarError string | CalledProcessError string

type_synonym 'a result = "py_error + 'a"

fun bindE :: "'e + 'a \<Rightarrow> ('a \<Rightarrow> 'e + 'b) \<Rightarrow> 'e + 'b" where
  "bindE (Inl e) f = Inl e"
| "bindE (Inr x) f = f x"

text \<open>A comprehension whose element expression can raise: the first exception ends it.\<close>

fun mapE :: "('elem \<Rightarrow> 'err + 'val) \<Rightarrow> 'elem list \<Rightarrow> 'err + 'val list" where
  mapE_Nil: "mapE step [] = Inr []"
| mapE_Cons: "mapE step (e # es) = bindE (step e) (\<lambda>v. bindE (mapE step es) (\<lambda>vs. Inr (v # vs)))"

text \<open>A Python \<open>assert\<close>, or any guard that raises \<open>e\<close> when its condition is false.\<close>

definition guardE :: "'e \<Rightarrow> bool \<Rightarrow> 'e + unit" where
  "guardE e b = (if b then Inr () else Inl e)"

lemma bindE_Inr_iff: "bindE first next = Inr out \<longleftrightarrow> (\<exists>mid. first = Inr mid \<and> next mid = Inr out)"
  by (cases first) auto

lemma bindE_assoc: "bindE (bindE first snd_step) thd_step = bindE first (\<lambda>v. bindE (snd_step v) thd_step)"
  by (cases first) auto

lemma bindE_cong [fundef_cong]:
  "first = first' \<Longrightarrow> (\<And>mid. first' = Inr mid \<Longrightarrow> next mid = next' mid) \<Longrightarrow> bindE first next = bindE first' next'"
  by (cases first') auto

lemma guardE_Inr_iff [simp]: "guardE e b = Inr u \<longleftrightarrow> b"
  by (simp add: guardE_def)

lemma guardE_True [simp]: "guardE e True = Inr ()"
  by (simp add: guardE_def)

lemma mapE_Inr_iff: "mapE f xs = Inr ys \<longleftrightarrow> list_all2 (\<lambda>x y. f x = Inr y) xs ys"
  by (induction xs arbitrary: ys) (auto simp: bindE_Inr_iff list_all2_Cons1)

lemma mapE_total:
  "(\<And>x. x \<in> set xs \<Longrightarrow> f x = Inr (g x)) \<Longrightarrow> mapE f xs = Inr (map g xs)"
  by (induction xs) auto

lemma mapE_mem: "mapE f xs = Inr ys \<Longrightarrow> x \<in> set xs \<Longrightarrow> \<exists>y \<in> set ys. f x = Inr y"
  by (induction xs arbitrary: ys) (auto simp: bindE_Inr_iff)

lemma mapE_length: "mapE f xs = Inr ys \<Longrightarrow> length ys = length xs"
  by (simp add: mapE_Inr_iff list_all2_lengthD)

lemma mapE_map: "mapE f (map g xs) = mapE (f \<circ> g) xs"
  by (induction xs) simp_all

lemma mapE_Inl: "mapE f xs = Inl e \<Longrightarrow> \<exists>x \<in> set xs. f x = Inl e"
proof (induction xs)
  case Nil
  then show ?case by simp
next
  case (Cons x xs)
  then show ?case by (cases "f x"; cases "mapE f xs") auto
qed

section \<open>Byte strings\<close>

type_synonym byte = "8 word"
type_synonym bytes = "byte list"

text \<open>A bytes literal that holds ASCII text; \<open>\0\<close> is written as an explicit zero byte.\<close>

definition ascii :: "string \<Rightarrow> bytes" where
  "ascii s = map of_char s"

text \<open>The \<open>k\<close> low-order bytes of \<open>n\<close>, most significant first.\<close>

fun be :: "nat \<Rightarrow> nat \<Rightarrow> bytes" where
  "be 0 n = []"
| "be (Suc k) n = be k (n div 256) @ [of_nat (n mod 256)]"

text \<open>\<open>int.from_bytes(data, "big")\<close>\<close>

definition be_val :: "bytes \<Rightarrow> nat" where
  "be_val bs = foldl (\<lambda>a b. a * 256 + unat b) 0 bs"

lemma length_be [simp, byte_simps]: "length (be k n) = k"
  by (induction k arbitrary: n) auto

text \<open>Unfolding at a numeral width, for evaluation.\<close>

lemma be_numeral_width: "be (numeral k) n = be (pred_numeral k) (n div 256) @ [of_nat (n mod 256)]"
  by (simp only: numeral_eq_Suc [of k] be.simps)

lemma be_one: "be 1 n = [of_nat (n mod 256)]"
  unfolding One_nat_def be.simps by simp

lemmas be_numeral = be_numeral_width be_one

lemma be_val_Nil [simp]: "be_val [] = 0"
  by (simp add: be_val_def)

lemma be_val_snoc [simp]: "be_val (bs @ [b]) = be_val bs * 256 + unat b"
  by (simp add: be_val_def)

lemma unat_byte_bound [simp]: "unat (b :: byte) < 256"
  using unsigned_less [of b] by simp

lemma unat_of_nat_byte: "unat (of_nat (n mod 256) :: byte) = n mod 256"
  by (simp add: unat_of_nat)

lemma be_val_be [byte_simps]: "be_val (be k n) = n mod 256 ^ k"
proof (induction k arbitrary: n)
  case 0
  show ?case by simp
next
  case (Suc k)
  have "be_val (be (Suc k) n) = (n div 256) mod 256 ^ k * 256 + n mod 256"
    by (simp add: Suc.IH unat_of_nat_byte del: of_nat_mod)
  also have "\<dots> = n mod 256 ^ Suc k"
    by (simp add: mod_mult2_eq)
  finally show ?case .
qed

lemma be_inj: "m < 256 ^ k \<Longrightarrow> n < 256 ^ k \<Longrightarrow> be k m = be k n \<Longrightarrow> m = n"
  by (metis be_val_be mod_less)

lemma be_eq_iff [simp, byte_simps]: "m < 256 ^ k \<Longrightarrow> n < 256 ^ k \<Longrightarrow> be k m = be k n \<longleftrightarrow> m = n"
  using be_inj by blast

lemma be_val_bound: "be_val bs < 256 ^ length bs"
proof (induction bs rule: rev_induct)
  case Nil
  show ?case by simp
next
  case (snoc b bs)
  have "unat b < 256"
    by (rule unat_byte_bound)
  moreover have "(be_val bs + 1) * 256 \<le> 256 ^ length bs * 256"
    using snoc by (intro mult_right_mono) auto
  ultimately show ?case by (simp del: unat_byte_bound)
qed

text \<open>Every byte string of length \<open>k\<close> is the encoding of its value.\<close>

lemma be_of_be_val: "be (length bs) (be_val bs) = bs"
proof (induction bs rule: rev_induct)
  case Nil
  show ?case by simp
next
  case (snoc b bs)
  have b: "unat b < 256"
    by (rule unat_byte_bound)
  then have "(be_val bs * 256 + unat b) div 256 = be_val bs"
    and "(be_val bs * 256 + unat b) mod 256 = unat b"
    by simp_all
  with snoc show ?case
    by (simp del: of_nat_mod)
qed

lemma less_append_same: "length xs = length ys \<Longrightarrow>
    (xs @ us < ys @ vs) = (xs < ys \<or> xs = ys \<and> us < (vs :: 'a::linorder list))"
  by (induction xs ys rule: list_induct2) auto

lemma be_mono_strict: "m < n \<Longrightarrow> n < 256 ^ k \<Longrightarrow> be k m < be k n"
proof (induction k arbitrary: m n)
  case 0
  then show ?case by simp
next
  case (Suc k)
  have n: "n div 256 < 256 ^ k"
    using Suc.prems(2) by (simp add: less_mult_imp_div_less mult.commute)
  show ?case
  proof (cases "m div 256 = n div 256")
    case True
    then have "m mod 256 < n mod 256"
      using Suc.prems(1) by (metis div_mult_mod_eq nat_add_left_cancel_less)
    then have "(of_nat (m mod 256) :: byte) < of_nat (n mod 256)"
      by (simp add: word_less_nat_alt unat_of_nat_byte del: of_nat_mod)
    with True show ?thesis
      by (simp add: less_append_same del: of_nat_mod)
  next
    case False
    then have "m div 256 < n div 256"
      using Suc.prems(1) by (meson div_le_mono le_neq_implies_less less_imp_le_nat)
    then have "be k (m div 256) < be k (n div 256)"
      using n by (rule Suc.IH)
    then show ?thesis
      by (simp add: less_append_same)
  qed
qed

text \<open>The lexicographic order of fixed-width encodings is the order of the numbers.\<close>

lemma be_less_iff:
  assumes "m < 256 ^ k" and "n < 256 ^ k"
  shows "be k m < be k n \<longleftrightarrow> m < n"
  using assms be_mono_strict be_inj by (metis less_asym less_irrefl linorder_neqE)

section \<open>Hexadecimal text\<close>

definition hex_digit :: "nat \<Rightarrow> char" where
  "hex_digit n = ''0123456789abcdef'' ! n"

text \<open>\<open>bytes.hex()\<close>: two lowercase digits per byte.\<close>

definition hex :: "bytes \<Rightarrow> string" where
  "hex bs = concat (map (\<lambda>b. [hex_digit (unat b div 16), hex_digit (unat b mod 16)]) bs)"

text \<open>One digit as \<open>bytes.fromhex\<close> accepts it.\<close>

definition hex_value :: "char \<Rightarrow> nat option" where
  "hex_value c = (let n = of_char c :: nat in
     if 48 \<le> n \<and> n \<le> 57 then Some (n - 48)
     else if 97 \<le> n \<and> n \<le> 102 then Some (n - 87)
     else if 65 \<le> n \<and> n \<le> 70 then Some (n - 55)
     else None)"

text \<open>
  \<open>bytes.fromhex\<close>: pairs of digits; ASCII whitespace between pairs is skipped; anything else
  raises \<open>ValueError\<close>.
\<close>

definition is_space :: "char \<Rightarrow> bool" where
  "is_space c = (of_char c \<in> {9, 10, 11, 12, 13, 32 :: nat})"

fun fromhex :: "string \<Rightarrow> bytes result" where
  "fromhex [] = Inr []"
| "fromhex [c] = (if is_space c then Inr [] else Inl (ValueError ''non-hexadecimal number''))"
| "fromhex (c # d # cs) =
     (if is_space c then fromhex (d # cs)
      else case (hex_value c, hex_value d) of
        (Some h, Some l) \<Rightarrow> bindE (fromhex cs) (\<lambda>bs. Inr (of_nat (16 * h + l) # bs))
      | _ \<Rightarrow> Inl (ValueError ''non-hexadecimal number''))"

lemma hex_digit_value_all:
  "\<forall>n \<in> set [0..<16]. \<not> is_space (hex_digit n) \<and> hex_value (hex_digit n) = Some n"
  by (simp add: hex_digit_def hex_value_def is_space_def upt_rec)

lemma hex_digit_value:
  "n < 16 \<Longrightarrow> hex_value (hex_digit n) = Some n"
  "n < 16 \<Longrightarrow> \<not> is_space (hex_digit n)"
  using hex_digit_value_all by auto

lemma fromhex_hex [simp]: "fromhex (hex bs) = Inr bs"
proof (induction bs)
  case Nil
  show ?case by (simp add: hex_def)
next
  case (Cons b bs)
  have b: "unat b < 256"
    by (rule unat_byte_bound)
  then have "unat b div 16 < 16" and "unat b mod 16 < 16"
    by (simp_all add: div_less_iff_less_mult)
  moreover have "16 * (unat b div 16) + unat b mod 16 = unat b"
    by simp
  ultimately show ?case
    using Cons by (simp add: hex_def hex_digit_value del: of_nat_add of_nat_mult)
qed

lemma hex_inj [simp]: "hex a = hex b \<longleftrightarrow> a = b"
  by (metis fromhex_hex sum.inject(2))

text \<open>\<open>str(n)\<close> of an integer.\<close>

fun dec_nat :: "nat \<Rightarrow> string" where
  "dec_nat n = (if n < 10 then [hex_digit n] else dec_nat (n div 10) @ [hex_digit (n mod 10)])"

declare dec_nat.simps [simp del]

definition dec :: "int \<Rightarrow> string" where
  "dec n = (if n < 0 then ''-'' @ dec_nat (nat (- n)) else dec_nat (nat n))"

section \<open>Dictionaries\<close>

text \<open>
  A Python dictionary is the association list of its items in insertion order: an assignment
  to a present key replaces its value in place, to an absent key appends. This is
  \<^const>\<open>AList.update\<close>. The invariant of every dictionary is that its keys are distinct.
\<close>

type_synonym ('k, 'v) dict = "('k \<times> 'v) list"

definition dict_ok :: "('k, 'v) dict \<Rightarrow> bool" where
  "dict_ok d = distinct (map fst d)"

text \<open>\<open>d.update(e)\<close>\<close>

definition dict_update :: "('k, 'v) dict \<Rightarrow> ('k, 'v) dict \<Rightarrow> ('k, 'v) dict" where
  "dict_update d e = fold (\<lambda>(k, v). AList.update k v) e d"

text \<open>\<open>d.setdefault(k, v)\<close>\<close>

definition dict_setdefault :: "'k \<Rightarrow> 'v \<Rightarrow> ('k, 'v) dict \<Rightarrow> ('k, 'v) dict" where
  "dict_setdefault k v d = (if map_of d k = None then d @ [(k, v)] else d)"

text \<open>\<open>d[k]\<close>\<close>

definition dict_index :: "('k, 'v) dict \<Rightarrow> 'k \<Rightarrow> 'v result" where
  "dict_index d k = (case map_of d k of None \<Rightarrow> Inl KeyError | Some v \<Rightarrow> Inr v)"

lemma dict_index_Inr_iff [dict_simps]: "dict_index d k = Inr v \<longleftrightarrow> map_of d k = Some v"
  by (simp add: dict_index_def split: option.split)

text \<open>
  \<open>d == e\<close>: the same number of items, and every item of \<open>d\<close> is in \<open>e\<close>. Insertion order
  does not count.
\<close>

definition dict_eq :: "('k, 'v) dict \<Rightarrow> ('k, 'v) dict \<Rightarrow> bool" where
  "dict_eq d e \<longleftrightarrow> length d = length e \<and> (\<forall>(k, v) \<in> set d. map_of e k = Some v)"

text \<open>\<open>sorted(d.items())\<close>: the keys are distinct, so the values are never compared.\<close>

definition sorted_items :: "('k::linorder, 'v) dict \<Rightarrow> ('k \<times> 'v) list" where
  "sorted_items d = sort_key fst d"

lemma dict_ok_Nil [simp, intro]: "dict_ok []"
  by (simp add: dict_ok_def)

lemma dict_ok_update1 [simp, intro]: "dict_ok d \<Longrightarrow> dict_ok (AList.update k v d)"
  by (simp add: dict_ok_def distinct_update)

lemma dict_ok_update [simp, intro]: "dict_ok d \<Longrightarrow> dict_ok (dict_update d e)"
  unfolding dict_update_def by (induction e arbitrary: d) auto

lemma dict_ok_filter [simp, intro]: "dict_ok d \<Longrightarrow> dict_ok (filter P d)"
  by (simp add: dict_ok_def distinct_map_filter)

lemma dict_ok_map_of_eq: "dict_ok d \<Longrightarrow> (k, v) \<in> set d \<longleftrightarrow> map_of d k = Some v"
  by (auto simp: dict_ok_def map_of_eq_Some_iff)

lemma update_new_key [dict_simps]: "k \<notin> fst ` set d \<Longrightarrow> AList.update k v d = d @ [(k, v)]"
  by (induction d) auto

lemma set_dict_update: "set (dict_update d e) \<subseteq> set d \<union> set e"
proof (induction e arbitrary: d)
  case Nil
  show ?case by (simp add: dict_update_def)
next
  case (Cons x e)
  obtain k v where x: "x = (k, v)" by (cases x)
  have "set (dict_update d (x # e)) \<subseteq> set (AList.update k v d) \<union> set e"
    using Cons [of "AList.update k v d"] by (simp add: dict_update_def x)
  moreover have "set (AList.update k v d) \<subseteq> insert (k, v) (set d)"
    by (induction d) auto
  ultimately show ?case by (auto simp: x)
qed

lemma map_of_dict_update [dict_simps]:
  "dict_ok e \<Longrightarrow> map_of (dict_update d e) k = (case map_of e k of None \<Rightarrow> map_of d k | Some v \<Rightarrow> Some v)"
proof (induction e arbitrary: d)
  case Nil
  show ?case by (simp add: dict_update_def)
next
  case (Cons x e)
  obtain k' v where x: "x = (k', v)" by (cases x)
  have e: "dict_ok e" and new: "map_of e k' = None"
    using Cons.prems x by (auto simp: dict_ok_def map_of_eq_None_iff)
  have "map_of (dict_update d (x # e)) k = map_of (dict_update (AList.update k' v d) e) k"
    by (simp add: dict_update_def x)
  also have "\<dots> = (case map_of e k of None \<Rightarrow> map_of (AList.update k' v d) k | Some v \<Rightarrow> Some v)"
    using e by (rule Cons.IH)
  finally show ?case
    using new x by (auto simp: update_conv split: option.split)
qed

lemma map_of_filter_value [dict_simps]:
  "dict_ok d \<Longrightarrow> map_of (filter (\<lambda>(k, v). P k v) d) k =
     (case map_of d k of None \<Rightarrow> None | Some v \<Rightarrow> if P k v then Some v else None)"
  by (induction d)
     (auto simp: dict_ok_def map_of_eq_None_iff split: option.splits dest: map_of_SomeD
        intro: rev_image_eqI)

lemma dict_ok_setdefault [simp, intro]: "dict_ok d \<Longrightarrow> dict_ok (dict_setdefault k v d)"
  by (auto simp: dict_setdefault_def dict_ok_def map_of_eq_None_iff)

lemma map_of_setdefault [dict_simps]:
  "map_of (dict_setdefault k v d) k' =
     (case map_of d k' of None \<Rightarrow> if k' = k then Some v else None | Some w \<Rightarrow> Some w)"
  by (auto simp: dict_setdefault_def map_add_def split: option.split)

lemma dict_ok_length: "dict_ok d \<Longrightarrow> length d = card (dom (map_of d))"
  by (metis dict_ok_def distinct_card dom_map_of_conv_image_fst length_map set_map)

lemma dict_eq_map_of:
  assumes d: "dict_ok d" and e: "dict_ok e"
  shows "dict_eq d e \<longleftrightarrow> map_of d = map_of e"
proof
  assume eq: "dict_eq d e"
  then have sub: "map_of d \<subseteq>\<^sub>m map_of e"
    by (fastforce simp: dict_eq_def map_le_def dest: map_of_SomeD)
  then have "dom (map_of d) \<subseteq> dom (map_of e)"
    by (rule map_le_implies_dom_le)
  moreover have "card (dom (map_of d)) = card (dom (map_of e))"
    using eq by (simp add: dict_eq_def dict_ok_length d e)
  ultimately have "dom (map_of d) = dom (map_of e)"
    by (simp add: card_subset_eq finite_dom_map_of)
  with sub show "map_of d = map_of e"
    by (metis map_le_antisym map_le_def)
next
  assume eq: "map_of d = map_of e"
  then have "length d = length e"
    by (simp add: dict_ok_length d e)
  with eq show "dict_eq d e"
    using d by (auto simp: dict_eq_def dict_ok_map_of_eq)
qed

lemma sorted_items_set [simp]: "set (sorted_items d) = set d"
  by (simp add: sorted_items_def)

lemma sorted_items_length [simp]: "length (sorted_items d) = length d"
  by (simp add: sorted_items_def)

lemma sorted_items_keys:
  "dict_ok d \<Longrightarrow> sorted_wrt (<) (map fst (sorted_items d))"
  by (simp add: sorted_items_def dict_ok_def strict_sorted_iff distinct_map)

text \<open>
  What is computed from the sorted items does not depend on the order in which the dictionary
  was filled.
\<close>

lemma sorted_items_eq:
  assumes "dict_ok a" and "dict_ok b" and "map_of a = map_of b"
  shows "sorted_items a = sorted_items b"
proof -
  have s: "set a = set b"
    using assms by (auto simp: dict_ok_map_of_eq)
  have "inj_on fst (set a \<union> set b)"
    using assms s by (simp add: dict_ok_def distinct_map)
  with s show ?thesis
    using assms by (intro map_sorted_distinct_set_unique [where f = fst])
      (auto simp: sorted_items_def dict_ok_def distinct_map)
qed

lemma map_of_sorted_items [simp]: "dict_ok d \<Longrightarrow> map_of (sorted_items d) = map_of d"
  by (subst map_of_inject_set) (simp_all add: sorted_items_def dict_ok_def distinct_map)

section \<open>Prefix codes\<close>

text \<open>Pieces that cannot be each other's proper prefix are found again in a concatenation.\<close>

lemma concat_map_prefix:
  assumes "\<And>i r s. i \<in> set is \<Longrightarrow> f i @ r = g i @ s \<Longrightarrow> f i = g i"
    and "concat (map f is) @ r = concat (map g is) @ s"
  shows "(\<forall>i \<in> set is. f i = g i) \<and> r = s"
  using assms
proof (induction "is")
  case Nil
  then show ?case by simp
next
  case (Cons i "is")
  have "f i @ concat (map f is) @ r = g i @ concat (map g is) @ s"
    using Cons.prems(2) by simp
  then have "f i = g i"
    by (intro Cons.prems(1)) simp_all
  then have "concat (map f is) @ r = concat (map g is) @ s"
    using Cons.prems(2) by simp
  then have "(\<forall>i \<in> set is. f i = g i) \<and> r = s"
    using Cons.prems(1) by (intro Cons.IH) simp_all
  with \<open>f i = g i\<close> show ?case by simp
qed

text \<open>
  The interface of a self-delimiting reader: what a writer appends, the reader takes off the
  front, in the reader's own view of it, and hands the rest back. Every client that frames
  several values one after the other relies on these laws only: a concatenation of frames
  determines the values.
\<close>

locale prefix_code =
  fixes enc :: "'a \<Rightarrow> bytes"
    and valid :: "'a \<Rightarrow> bool"
    and view :: "'a \<Rightarrow> 'b"
    and dec :: "bytes \<Rightarrow> 'e + ('b \<times> bytes)"
  assumes dec_enc: "valid x \<Longrightarrow> dec (enc x @ rest) = Inr (view x, rest)"
    and view_inj: "valid x \<Longrightarrow> valid y \<Longrightarrow> view x = view y \<Longrightarrow> x = y"
begin

lemma enc_inj:
  assumes "valid x" and "valid y" and "enc x @ r = enc y @ s"
  shows "x = y \<and> r = s"
proof -
  have "Inr (view x, r) = dec (enc x @ r)"
    using assms(1) by (simp add: dec_enc)
  also have "\<dots> = Inr (view y, s)"
    using assms(2) by (simp add: assms(3) dec_enc)
  finally show ?thesis
    using assms(1,2) view_inj by simp
qed

lemma concat_inj:
  assumes "length xs = length ys"
    and "\<forall>x \<in> set xs. valid x" and "\<forall>y \<in> set ys. valid y"
    and "concat (map enc xs) @ r = concat (map enc ys) @ s"
  shows "xs = ys \<and> r = s"
  using assms
proof (induction xs ys rule: list_induct2)
  case Nil
  then show ?case by simp
next
  case (Cons x xs y ys)
  then have "x = y \<and> concat (map enc xs) @ r = concat (map enc ys) @ s"
    by (intro enc_inj) simp_all
  with Cons show ?case by simp
qed

end

end
