(* ===== verification/Levels.thy ===== *)
theory Levels
  imports Prelude
begin

text \<open>
  The levels of a bucket list, for any kind of bucket: the record of a level, the geometry of the
  factor-four schedule, the search order of a read, and the shape the schedule keeps
  (\<open>topology\<close>). The locale \<open>buckets\<close> is the contract between the schedule and the buckets it
  moves: what a lookup returns after a merge. Under it one spill pass is shown to keep the
  visible records and the shape; a component that runs the schedule on its own buckets
  interprets the locale.
\<close>

section \<open>Levels and geometry\<close>

record 'b level =
  curr :: 'b
  snap :: 'b
  pending :: "'b option"

definition half :: "nat \<Rightarrow> nat" where
  "half i = 2 * 4 ^ i"

text \<open>Level \<open>i\<close> of \<open>d\<close> hands its current bucket down at advance \<open>n\<close>.\<close>

definition spills :: "nat \<Rightarrow> nat \<Rightarrow> nat \<Rightarrow> bool" where
  "spills d n i \<longleftrightarrow> i \<noteq> d - 1 \<and> n mod half i = 0"

text \<open>Level \<open>i\<close> receives a snapshot at advance \<open>n\<close>.\<close>

definition receives :: "nat \<Rightarrow> nat \<Rightarrow> bool" where
  "receives n i \<longleftrightarrow> 0 < i \<and> n mod half (i - 1) = 0"

text \<open>
  The merge that level \<open>i\<close> started last, counted back from advance \<open>n\<close>, leaves out the current
  bucket, because that bucket itself spills before the merge is used.
\<close>

definition merges_with_empty :: "nat \<Rightarrow> nat \<Rightarrow> nat \<Rightarrow> bool" where
  "merges_with_empty d n i \<longleftrightarrow> i \<noteq> 0 \<and> i \<noteq> d - 1 \<and> n div half (i - 1) mod 4 = 3"

lemma half_pos [simp]: "0 < half i"
  by (simp add: half_def)

lemma half_neq_0 [simp]: "half i \<noteq> 0"
  by (simp add: half_def)

lemma half_Suc: "half (Suc i) = 4 * half i"
  by (simp add: half_def)

lemma half_mono: "i \<le> j \<Longrightarrow> half i \<le> half j"
  by (simp add: half_def power_increasing)

lemma spills_receives: "spills d n i \<Longrightarrow> 0 < i \<Longrightarrow> receives n i"
  by (cases i) (auto simp: spills_def receives_def half_Suc mod_eq_0_iff_dvd dest: dvd_mult_right)

lemma spills_iff_receives: "i < d \<Longrightarrow> 0 < i \<Longrightarrow> spills d n (i - 1) \<longleftrightarrow> receives n i"
  by (auto simp: spills_def receives_def)

text \<open>
  The lookahead of a running merge at \<open>n\<close> says whether the level spills at the next
  incoming boundary \<open>Suc n\<close>.
\<close>

lemma div_half_step:
  "receives (Suc n) i \<Longrightarrow> Suc n div half (i - 1) = Suc (n div half (i - 1))"
  "0 < i \<Longrightarrow> \<not> receives (Suc n) i \<Longrightarrow> Suc n div half (i - 1) = n div half (i - 1)"
  by (simp_all add: receives_def div_Suc)

lemma merges_with_empty_spills:
  assumes r: "receives (Suc n) i"
  shows "merges_with_empty d n i \<longleftrightarrow> spills d (Suc n) i"
proof -
  from r obtain j where i: "i = Suc j" by (cases i) (auto simp: receives_def)
  from r obtain q where q: "Suc n = half j * q"
    by (auto simp: receives_def i elim: dvdE)
  have "n div half j = q - 1"
    using div_half_step(1) [OF r] i q by simp
  moreover have "q \<noteq> 0"
    using q by (cases q) auto
  moreover have "q \<noteq> 0 \<Longrightarrow> (q - 1) mod 4 = 3 \<longleftrightarrow> q mod 4 = 0"
    by (cases q) (auto simp: mod_Suc)
  ultimately have "n div half j mod 4 = 3 \<longleftrightarrow> q mod 4 = 0"
    by simp
  moreover have "half i = half j * 4"
    by (simp add: i half_Suc)
  then have "Suc n mod half i = 0 \<longleftrightarrow> q mod 4 = 0"
    unfolding q by (simp only: mod_mult_mult1) simp
  ultimately show ?thesis
    by (simp add: merges_with_empty_def spills_def i)
qed

text \<open>
  The same lookahead written with the next incoming boundary, as an implementation that may let
  its integers grow writes it.
\<close>

lemma lookahead_merges_with_empty:
  assumes "receives n i"
  shows "merges_with_empty d n i \<longleftrightarrow> i \<noteq> d - 1 \<and> (n + half (i - 1)) mod half i = 0"
proof -
  from assms obtain j q where i: "i = Suc j" and n: "n = half j * q"
    by (cases i) (auto simp: receives_def elim: dvdE)
  have "(n + half j) mod half i = half j * ((q + 1) mod 4)"
    unfolding n i half_Suc by (metis mult.commute mult_mod_right mult_Suc_right add.commute Suc_eq_plus1)
  then have "(n + half j) mod half i = 0 \<longleftrightarrow> q mod 4 = 3"
    by (auto simp: mod_Suc)
  then show ?thesis
    by (simp add: merges_with_empty_def i n)
qed

section \<open>Reads\<close>

text \<open>
  A lookup in one bucket is \<open>None\<close> where the bucket has no row, \<open>Some None\<close> at a tombstone and
  \<open>Some (Some v)\<close> at a live value. \<open>over\<close> lets a younger bucket decide first.
\<close>

definition over :: "'v option option \<Rightarrow> 'v option option \<Rightarrow> 'v option option" where
  "over older newer = (case newer of None \<Rightarrow> older | Some v \<Rightarrow> Some v)"

definition prune :: "bool \<Rightarrow> 'v option option \<Rightarrow> 'v option option" where
  "prune terminal x = (if terminal \<and> x = Some None then None else x)"

definition live :: "'v option option \<Rightarrow> 'v option" where
  "live x = (case x of None \<Rightarrow> None | Some v \<Rightarrow> v)"

lemma over_None [simp]: "over x None = x" "over None x = x"
  by (auto simp: over_def split: option.split)

lemma over_Some [simp]: "over x (Some v) = Some v"
  by (simp add: over_def)

lemma over_assoc: "over (over x y) z = over x (over y z)"
  by (auto simp: over_def split: option.split)

lemma live_over: "live (over x y) = (case y of None \<Rightarrow> live x | Some v \<Rightarrow> v)"
  by (auto simp: over_def live_def split: option.split)

lemma live_prune [simp]: "live (prune t x) = live x"
  by (auto simp: prune_def live_def)

lemma live_simps [simp]: "live None = None" "live (Some v) = v"
  by (simp_all add: live_def)

lemma prune_False [simp]: "prune False x = x" "prune t None = None"
  by (simp_all add: prune_def)

lemma live_over_cong: "live x = live x' \<Longrightarrow> live (over x y) = live (over x' y)"
  by (simp add: live_over split: option.split)

fun found :: "('b \<Rightarrow> 'k \<Rightarrow> 'v option option) \<Rightarrow> 'b level list \<Rightarrow> 'k \<Rightarrow> 'v option option" where
  "found look [] k = None"
| "found look (l # ls) k = over (over (found look ls k) (look (snap l) k)) (look (curr l) k)"

lemma found_drop:
  "j < length lvs \<Longrightarrow> found look (drop j lvs) k =
     over (over (found look (drop (Suc j) lvs) k) (look (snap (lvs ! j)) k)) (look (curr (lvs ! j)) k)"
  by (simp add: Cons_nth_drop_Suc [symmetric])

section \<open>The shape of a scheduled list\<close>

text \<open>What level \<open>i\<close> is after the spill pass of advance \<open>n\<close>, from the levels before it.\<close>

definition spilled :: "('b \<Rightarrow> 'b \<Rightarrow> bool \<Rightarrow> 'b) \<Rightarrow> 'b \<Rightarrow> nat \<Rightarrow> nat \<Rightarrow> 'b level list \<Rightarrow> nat \<Rightarrow> 'b level" where
  "spilled mrg emp d n lvs i =
     (let l = lvs ! i;
          left = (if spills d n i then emp else curr l);
          c = (if receives n i then case pending l of None \<Rightarrow> left | Some p \<Rightarrow> p else left)
      in \<lparr>curr = c,
          snap = (if spills d n i then curr l else snap l),
          pending = (if receives n i
             then Some (mrg (if merges_with_empty d n i then emp else c) (curr (lvs ! (i - 1))) (i = d - 1))
             else pending l)\<rparr>)"

text \<open>The whole advance: the spill pass, then level zero takes the batch.\<close>

definition advanced :: "('b \<Rightarrow> 'b \<Rightarrow> bool \<Rightarrow> 'b) \<Rightarrow> 'b \<Rightarrow> nat \<Rightarrow> nat \<Rightarrow> 'b level list \<Rightarrow> 'b \<Rightarrow> 'b level list" where
  "advanced mrg emp d n lvs batch = (let new = map (spilled mrg emp d n lvs) [0..<d] in
     new[0 := (new ! 0)\<lparr>curr := mrg (curr (new ! 0)) batch (d = 1)\<rparr>])"

text \<open>
  The shape after advance \<open>n\<close>: nothing has reached a level before its time, and a pending
  output is present exactly from the first incoming spill on and is the merge of the level's
  current bucket (or the empty one) with the snapshot above.
\<close>

definition topology :: "('b \<Rightarrow> 'b \<Rightarrow> bool \<Rightarrow> 'b) \<Rightarrow> 'b \<Rightarrow> nat \<Rightarrow> nat \<Rightarrow> 'b level list \<Rightarrow> bool" where
  "topology mrg emp d n lvs \<longleftrightarrow> length lvs = d \<and> (\<forall>i < d.
     (n = 0 \<or> 0 < i \<and> n < 2 * half (i - 1) \<longrightarrow> curr (lvs ! i) = emp) \<and>
     (i = d - 1 \<or> n < half i \<longrightarrow> snap (lvs ! i) = emp) \<and>
     pending (lvs ! i) = (if 0 < i \<and> half (i - 1) \<le> n
       then Some (mrg (if merges_with_empty d n i then emp else curr (lvs ! i)) (snap (lvs ! (i - 1))) (i = d - 1))
       else None))"

lemma topologyD:
  assumes "topology mrg emp d n lvs" and "i < d"
  shows "n = 0 \<or> 0 < i \<and> n < 2 * half (i - 1) \<Longrightarrow> curr (lvs ! i) = emp"
    and "i = d - 1 \<or> n < half i \<Longrightarrow> snap (lvs ! i) = emp"
    and "pending (lvs ! i) = (if 0 < i \<and> half (i - 1) \<le> n
       then Some (mrg (if merges_with_empty d n i then emp else curr (lvs ! i)) (snap (lvs ! (i - 1))) (i = d - 1))
       else None)"
  using assms by (auto simp: topology_def)

lemma topology_genesis:
  "topology mrg emp d 0 (replicate d \<lparr>curr = emp, snap = emp, pending = None\<rparr>)"
  by (simp add: topology_def)

text \<open>The spill pass of advance \<open>Suc n\<close> keeps the shape; only level zero's batch is still out.\<close>

lemma receives_bound: "receives (Suc n) i \<Longrightarrow> half (i - 1) \<le> Suc n"
  by (auto simp: receives_def intro: dvd_imp_le)

lemma not_receives_bound: "0 < i \<Longrightarrow> \<not> receives (Suc n) i \<Longrightarrow> half (i - 1) \<le> Suc n \<longleftrightarrow> half (i - 1) \<le> n"
  by (auto simp: receives_def le_Suc_eq)

lemma spilled_simps:
  "snap (spilled mrg emp d n lvs i) = (if spills d n i then curr (lvs ! i) else snap (lvs ! i))"
  "\<not> receives n i \<Longrightarrow> \<not> spills d n i \<Longrightarrow> curr (spilled mrg emp d n lvs i) = curr (lvs ! i)"
  "\<not> receives n i \<Longrightarrow> pending (spilled mrg emp d n lvs i) = pending (lvs ! i)"
  "receives n i \<Longrightarrow> pending (spilled mrg emp d n lvs i) =
     Some (mrg (if merges_with_empty d n i then emp else curr (spilled mrg emp d n lvs i))
       (curr (lvs ! (i - 1))) (i = d - 1))"
  by (simp_all add: spilled_def Let_def)

lemma pending_after:
  assumes t: "topology mrg emp d n lvs" and i: "i < d" and r: "receives (Suc n) i"
  shows "curr (spilled mrg emp d (Suc n) lvs i) =
    (if half (i - 1) \<le> n
     then mrg (if spills d (Suc n) i then emp else curr (lvs ! i)) (snap (lvs ! (i - 1))) (i = d - 1)
     else emp)"
proof -
  have i0: "0 < i" using r by (simp add: receives_def)
  show ?thesis
  proof (cases "half (i - 1) \<le> n")
    case True
    then have "pending (lvs ! i) = Some (mrg (if spills d (Suc n) i then emp else curr (lvs ! i))
        (snap (lvs ! (i - 1))) (i = d - 1))"
      using topologyD(3) [OF t i] i0 by (simp add: merges_with_empty_spills [OF r])
    with True r show ?thesis
      by (simp add: spilled_def Let_def)
  next
    case False
    then have "pending (lvs ! i) = None" and "curr (lvs ! i) = emp"
      using topologyD [OF t i] i0 by simp_all
    with False r show ?thesis
      by (simp add: spilled_def Let_def)
  qed
qed

lemma topology_spilled:
  assumes t: "topology mrg emp d n lvs"
  defines "new \<equiv> map (spilled mrg emp d (Suc n) lvs) [0..<d]"
  shows "topology mrg emp d (Suc n) (new[0 := (new ! 0)\<lparr>curr := c\<rparr>])"
    (is "topology _ _ _ _ ?new")
proof -
  let ?sp = "spilled mrg emp d (Suc n) lvs"
  have len [simp]: "length new = d"
    by (simp add: new_def)
  have nth: "curr (?new ! i) = (if i = 0 then c else curr (?sp i))"
    "snap (?new ! i) = snap (?sp i)" "pending (?new ! i) = pending (?sp i)"
    "new ! i = ?sp i" if "i < d" for i
    using that by (cases i; simp add: new_def)+
  have no_spill: "\<not> spills d (Suc n) i" if "0 < i" "\<not> receives (Suc n) i" for i
    using that spills_receives by blast
  have curr0: "curr (?new ! i) = emp" if i: "i < d" "0 < i" "Suc n < 2 * half (i - 1)" for i
  proof (cases "receives (Suc n) i")
    case True
    then obtain q where q: "Suc n = half (i - 1) * q"
      by (auto simp: receives_def elim: dvdE)
    then have "q = 1"
      using i(3) by (cases q; cases "q - 1") auto
    then have "\<not> half (i - 1) \<le> n"
      using q by simp
    then show ?thesis
      using i by (simp add: nth pending_after [OF t i(1) True])
  next
    case False
    with i show ?thesis
      using topologyD(1) [OF t i(1)] by (simp add: nth spilled_simps no_spill)
  qed
  have snap0: "snap (?new ! i) = emp" if i: "i < d" "i = d - 1 \<or> Suc n < half i" for i
  proof -
    have "\<not> spills d (Suc n) i"
      using i(2) by (auto simp: spills_def dest: dvd_imp_le)
    then have "snap (?new ! i) = snap (lvs ! i)"
      unfolding nth(2) [OF i(1)] by (simp add: spilled_simps)
    then show ?thesis
      using topologyD(2) [OF t i(1)] i(2) by auto
  qed
  have pend: "pending (?new ! i) = (if 0 < i \<and> half (i - 1) \<le> Suc n
      then Some (mrg (if merges_with_empty d (Suc n) i then emp else curr (?new ! i))
        (snap (?new ! (i - 1))) (i = d - 1)) else None)" if i: "i < d" for i
  proof (cases "0 < i")
    case False
    then show ?thesis
      using i topologyD(3) [OF t i] by (simp add: nth spilled_simps receives_def)
  next
    case i0: True
    have above: "snap (?new ! (i - 1)) = (if receives (Suc n) i then curr (lvs ! (i - 1)) else snap (lvs ! (i - 1)))"
    proof -
      have "i - 1 < d" using i by simp
      show ?thesis
        unfolding nth(2) [OF \<open>i - 1 < d\<close>] spilled_simps spills_iff_receives [OF i i0] ..
    qed
    show ?thesis
    proof (cases "receives (Suc n) i")
      case True
      then show ?thesis
        using i i0 above receives_bound [OF True] by (simp add: nth spilled_simps)
    next
      case False
      moreover have "merges_with_empty d (Suc n) i = merges_with_empty d n i"
        using div_half_step(2) [OF i0 False] by (simp add: merges_with_empty_def)
      ultimately show ?thesis
        using i i0 above topologyD(3) [OF t i] not_receives_bound [OF i0 False]
        by (simp add: nth spilled_simps no_spill)
    qed
  qed
  show ?thesis
    unfolding topology_def
  proof (intro conjI allI impI)
    fix i assume i: "i < d"
    show "curr (?new ! i) = emp" if "Suc n = 0 \<or> 0 < i \<and> Suc n < 2 * half (i - 1)"
      using that i by (blast intro: curr0)
    show "snap (?new ! i) = emp" if "i = d - 1 \<or> Suc n < half i"
      using i that by (rule snap0)
    show "pending (?new ! i) = (if 0 < i \<and> half (i - 1) \<le> Suc n
      then Some (mrg (if merges_with_empty d (Suc n) i then emp else curr (?new ! i))
        (snap (?new ! (i - 1))) (i = d - 1)) else None)"
      using i by (rule pend)
  qed (simp add: new_def)
qed

lemma topology_advanced:
  "topology mrg emp d n lvs \<Longrightarrow> topology mrg emp d (Suc n) (advanced mrg emp d (Suc n) lvs batch)"
  unfolding advanced_def Let_def by (rule topology_spilled)

text \<open>
  The invariant of a list of \<open>d\<close> levels after advance \<open>n\<close>: the shape, well-formed buckets, and
  no tombstone in the terminal level's current bucket.
\<close>

definition levels_ok :: "('b \<Rightarrow> bool) \<Rightarrow> 'b level list \<Rightarrow> bool" where
  "levels_ok ok lvs \<longleftrightarrow> (\<forall>l \<in> set lvs. ok (curr l) \<and> ok (snap l) \<and> (\<forall>p. pending l = Some p \<longrightarrow> ok p))"

definition no_tombstone :: "('b \<Rightarrow> 'k \<Rightarrow> 'v option option) \<Rightarrow> 'b \<Rightarrow> bool" where
  "no_tombstone look b \<longleftrightarrow> (\<forall>k. look b k \<noteq> Some None)"

definition scheduled :: "('b \<Rightarrow> 'k \<Rightarrow> 'v option option) \<Rightarrow> 'b \<Rightarrow> ('b \<Rightarrow> 'b \<Rightarrow> bool \<Rightarrow> 'b)
    \<Rightarrow> ('b \<Rightarrow> bool) \<Rightarrow> nat \<Rightarrow> nat \<Rightarrow> 'b level list \<Rightarrow> bool" where
  "scheduled look emp mrg ok d n lvs \<longleftrightarrow>
     topology mrg emp d n lvs \<and> levels_ok ok lvs \<and> no_tombstone look (curr (lvs ! (d - 1)))"

lemma levels_ok_nth:
  assumes "levels_ok ok lvs" and "i < length lvs"
  shows "ok (curr (lvs ! i))" and "ok (snap (lvs ! i))" and "pending (lvs ! i) = Some p \<Longrightarrow> ok p"
  using assms by (auto simp: levels_ok_def)

section \<open>The contract between buckets and schedule\<close>

locale buckets =
  fixes look :: "'b \<Rightarrow> 'k \<Rightarrow> 'v option option"
    and emp :: 'b
    and mrg :: "'b \<Rightarrow> 'b \<Rightarrow> bool \<Rightarrow> 'b"
    and ok :: "'b \<Rightarrow> bool"
  assumes look_emp: "look emp k = None"
    and ok_emp: "ok emp"
    and ok_mrg: "ok a \<Longrightarrow> ok b \<Longrightarrow> ok (mrg a b t)"
    and look_mrg: "ok a \<Longrightarrow> ok b \<Longrightarrow> look (mrg a b t) k = prune t (over (look a k) (look b k))"
begin

lemma spilled_ok:
  assumes "levels_ok ok lvs" and "i < length lvs"
  shows "ok (curr (spilled mrg emp d n lvs i))" and "ok (snap (spilled mrg emp d n lvs i))"
    and "pending (spilled mrg emp d n lvs i) = Some p \<Longrightarrow> ok p"
  using levels_ok_nth [OF assms] levels_ok_nth(1) [OF assms(1), of "i - 1"] assms(2)
  by (auto simp: spilled_def Let_def ok_emp ok_mrg split: option.splits if_splits)

lemma look_curr_spilled:
  assumes t: "topology mrg emp d n lvs" and l: "levels_ok ok lvs" and i: "i < d"
    and r: "receives (Suc n) i"
  shows "look (curr (spilled mrg emp d (Suc n) lvs i)) k =
    prune (i = d - 1) (over (if spills d (Suc n) i then None else look (curr (lvs ! i)) k)
      (look (snap (lvs ! (i - 1))) k))"
proof -
  have len: "length lvs = d" using t by (simp add: topology_def)
  have ok: "ok (curr (lvs ! i))" "ok (snap (lvs ! (i - 1)))"
    using i len l by (auto intro: levels_ok_nth)
  show ?thesis
  proof (cases "half (i - 1) \<le> n")
    case True
    then show ?thesis
      using ok by (simp add: pending_after [OF t i r] look_mrg ok_emp look_emp)
  next
    case False
    then have "curr (lvs ! i) = emp" "snap (lvs ! (i - 1)) = emp"
      using topologyD(1) [OF t i] topologyD(2) [OF t, of "i - 1"] i r by (auto simp: receives_def)
    with False show ?thesis
      by (simp add: pending_after [OF t i r] look_emp)
  qed
qed

text \<open>The spill pass moves records but shows the same ones.\<close>

lemma live_spilled_from:
  assumes t: "topology mrg emp d n lvs" and l: "levels_ok ok lvs" and j: "j \<le> d"
  shows "live (found look (map (spilled mrg emp d (Suc n) lvs) [j..<d]) k) =
    live (if j < d \<and> receives (Suc n) j
      then over (found look (drop j lvs) k) (look (snap (lvs ! (j - 1))) k)
      else found look (drop j lvs) k)"
  using j
proof (induction rule: inc_induct)
  case base
  then show ?case
    using t by (simp add: topology_def)
next
  case (step j)
  let ?sp = "spilled mrg emp d (Suc n) lvs" and ?T = "\<lambda>j. found look (map (spilled mrg emp d (Suc n) lvs) [j..<d]) k"
  let ?C = "look (curr (lvs ! j)) k" and ?S = "look (snap (lvs ! j)) k"
  have len: "length lvs = d" using t by (simp add: topology_def)
  have F: "found look (drop j lvs) k = over (over (found look (drop (Suc j) lvs) k) ?S) ?C"
    using step.hyps len by (simp add: found_drop)
  have T: "?T j = over (over (?T (Suc j)) (look (snap (?sp j)) k)) (look (curr (?sp j)) k)"
    using step.hyps by (simp add: upt_conv_Cons)
  have below: "live (over (?T (Suc j)) (look (snap (?sp j)) k)) =
      live (if spills d (Suc n) j then found look (drop j lvs) k
        else over (found look (drop (Suc j) lvs) k) ?S)"
  proof (cases "spills d (Suc n) j")
    case True
    then have "Suc j < d" and "receives (Suc n) (Suc j)"
      using step.hyps by (auto simp: spills_def receives_def)
    then have "live (?T (Suc j)) = live (over (found look (drop (Suc j) lvs) k) ?S)"
      using step.IH by simp
    then have "live (over (?T (Suc j)) ?C) = live (over (over (found look (drop (Suc j) lvs) k) ?S) ?C)"
      by (rule live_over_cong)
    with True show ?thesis
      by (simp add: F spilled_simps)
  next
    case False
    then have "\<not> (Suc j < d \<and> receives (Suc n) (Suc j))"
      using step.hyps by (auto simp: spills_def receives_def)
    then have "live (?T (Suc j)) = live (found look (drop (Suc j) lvs) k)"
      using step.IH by auto
    then have "live (over (?T (Suc j)) ?S) = live (over (found look (drop (Suc j) lvs) k) ?S)"
      by (rule live_over_cong)
    with False show ?thesis
      by (simp add: spilled_simps)
  qed
  have T': "live (?T j) = live (over (if spills d (Suc n) j then found look (drop j lvs) k
        else over (found look (drop (Suc j) lvs) k) ?S) (look (curr (?sp j)) k))"
    unfolding T by (rule live_over_cong [OF below])
  show ?case
  proof (cases "receives (Suc n) j")
    case r: True
    note c = look_curr_spilled [OF t l step.hyps(2) r]
    show ?thesis
    proof (cases "j = d - 1")
      case True
      then have "snap (lvs ! j) = emp" and "\<not> spills d (Suc n) j" and "drop (Suc j) lvs = []"
        using topologyD(2) [OF t step.hyps(2)] step.hyps len by (auto simp: spills_def)
      then show ?thesis
        unfolding T' F c using r True step.hyps by (simp add: look_emp)
    next
      case False
      then show ?thesis
        using r step.hyps by (simp add: T' F c over_assoc)
    qed
  next
    case False
    then have "look (curr (?sp j)) k = (if spills d (Suc n) j then None else ?C)"
      by (simp add: spilled_def Let_def look_emp)
    with False show ?thesis
      by (simp add: T' F)
  qed
qed

lemma live_spilled:
  assumes "topology mrg emp d n lvs" and "levels_ok ok lvs"
  shows "live (found look (map (spilled mrg emp d (Suc n) lvs) [0..<d]) k) = live (found look lvs k)"
  using live_spilled_from [OF assms, of 0] by (simp add: receives_def)

text \<open>Then level zero takes the batch, and the batch decides for its own keys.\<close>

lemma live_advanced:
  assumes t: "topology mrg emp d n lvs" and l: "levels_ok ok lvs" and d: "0 < d" and b: "ok batch"
  shows "live (found look (advanced mrg emp d (Suc n) lvs batch) k) =
    (case look batch k of None \<Rightarrow> live (found look lvs k) | Some v \<Rightarrow> v)"
proof -
  define new where "new = map (spilled mrg emp d (Suc n) lvs) [0..<d]"
  obtain l0 ls where new: "new = l0 # ls"
    using d by (cases new) (auto simp: new_def)
  have ok: "ok (curr l0)"
    using spilled_ok(1) [OF l, of 0] d t new by (auto simp: new_def topology_def upt_conv_Cons)
  have "snap l0 = emp" "ls = []" if "d = 1"
    using topologyD(2) [OF t, of 0] that new
    by (auto simp: new_def spilled_simps spills_def)
  then have snap0: "look (snap l0) k = None" "ls = []" if "d = 1"
    using that by (simp_all add: look_emp)
  have "live (found look (advanced mrg emp d (Suc n) lvs batch) k)
      = live (over (found look new k) (look batch k))"
    using snap0 unfolding advanced_def Let_def new_def [symmetric]
    by (cases "d = 1") (simp_all add: new look_mrg [OF ok b] over_assoc)
  also have "\<dots> = (case look batch k of None \<Rightarrow> live (found look lvs k) | Some v \<Rightarrow> v)"
    using live_spilled [OF t l, of k] by (simp add: live_over new_def split: option.split)
  finally show ?thesis .
qed

lemma levels_ok_advanced:
  assumes t: "topology mrg emp d n lvs" and l: "levels_ok ok lvs" and d: "0 < d" and b: "ok batch"
  shows "levels_ok ok (advanced mrg emp d (Suc n) lvs batch)"
proof -
  have len: "length lvs = d" using t by (simp add: topology_def)
  have sp: "ok (curr (spilled mrg emp d (Suc n) lvs i))" "ok (snap (spilled mrg emp d (Suc n) lvs i))"
    "pending (spilled mrg emp d (Suc n) lvs i) = Some p \<Longrightarrow> ok p" if "i < d" for i p
    using spilled_ok [OF l, of i] that len by auto
  show ?thesis
    unfolding levels_ok_def
  proof
    fix x assume "x \<in> set (advanced mrg emp d (Suc n) lvs batch)"
    then consider i where "i < d" "x = spilled mrg emp d (Suc n) lvs i"
      | "x = (spilled mrg emp d (Suc n) lvs 0)\<lparr>curr := mrg (curr (spilled mrg emp d (Suc n) lvs 0)) batch (d = 1)\<rparr>"
      using d by (auto simp: advanced_def dest!: set_update_subset_insert [THEN subsetD])
    then show "ok (curr x) \<and> ok (snap x) \<and> (\<forall>p. pending x = Some p \<longrightarrow> ok p)"
      using sp d b by cases (auto intro: ok_mrg)
  qed
qed

lemma no_tombstone_advanced:
  assumes t: "topology mrg emp d n lvs" and l: "levels_ok ok lvs" and d: "0 < d" and b: "ok batch"
    and c: "no_tombstone look (curr (lvs ! (d - 1)))"
  shows "no_tombstone look (curr (advanced mrg emp d (Suc n) lvs batch ! (d - 1)))"
proof (cases "d = 1")
  case True
  then have "ok (curr (spilled mrg emp d (Suc n) lvs 0))"
    using spilled_ok(1) [OF l, of 0] t by (cases lvs) (auto simp: topology_def)
  with True b show ?thesis
    by (simp add: advanced_def no_tombstone_def look_mrg prune_def)
next
  case False
  let ?x = "spilled mrg emp d (Suc n) lvs (d - 1)"
  have x: "curr (advanced mrg emp d (Suc n) lvs batch ! (d - 1)) = curr ?x"
    using False d by (simp add: advanced_def)
  show ?thesis
  proof (cases "receives (Suc n) (d - 1)")
    case True
    have "look (curr ?x) k \<noteq> Some None" for k
      using look_curr_spilled [OF t l _ True, of k] d by (simp add: prune_def)
    then show ?thesis
      unfolding x no_tombstone_def by blast
  next
    case False
    then have "curr ?x = curr (lvs ! (d - 1))"
      by (simp add: spilled_simps spills_def)
    with c show ?thesis
      unfolding x by simp
  qed
qed

theorem scheduled_advanced:
  "scheduled look emp mrg ok d n lvs \<Longrightarrow> 0 < d \<Longrightarrow> ok batch
    \<Longrightarrow> scheduled look emp mrg ok d (Suc n) (advanced mrg emp d (Suc n) lvs batch)"
  unfolding scheduled_def
  by (blast intro: topology_advanced levels_ok_advanced no_tombstone_advanced)

lemma scheduled_genesis:
  "0 < d \<Longrightarrow> scheduled look emp mrg ok d 0 (replicate d \<lparr>curr = emp, snap = emp, pending = None\<rparr>)"
  by (simp add: scheduled_def topology_genesis levels_ok_def no_tombstone_def ok_emp look_emp)

lemma live_genesis:
  "live (found look (replicate d \<lparr>curr = emp, snap = emp, pending = None\<rparr>) k) = None"
proof -
  have "found look (replicate d \<lparr>curr = emp, snap = emp, pending = None\<rparr>) k = None"
    by (induction d) (simp_all add: look_emp)
  then show ?thesis by simp
qed

end

end
