(* ===== verification/Sha256.thy ===== *)
theory Sha256
  imports Prelude
begin

text \<open>
  \<open>hashlib.sha256\<close>, which every tool of the repository uses for its digests, as the
  executable function of FIPS 180-4: padding, message schedule, compression and the chaining
  of blocks, on \<open>32 word\<close>s. Nothing in the development assumes a property of the digest
  beyond its length: the binding theorems name the two byte strings a collision would consist of.
\<close>

unbundle bit_operations_syntax

type_synonym u32 = "32 word"

section \<open>Round functions\<close>

definition rotr :: "nat \<Rightarrow> u32 \<Rightarrow> u32" where
  "rotr n w = drop_bit n w OR push_bit (32 - n) w"

definition choice :: "u32 \<Rightarrow> u32 \<Rightarrow> u32 \<Rightarrow> u32" where
  "choice x y z = (x AND y) XOR (NOT x AND z)"

definition majority :: "u32 \<Rightarrow> u32 \<Rightarrow> u32 \<Rightarrow> u32" where
  "majority x y z = (x AND y) XOR (x AND z) XOR (y AND z)"

definition big_sigma0 :: "u32 \<Rightarrow> u32" where
  "big_sigma0 x = rotr 2 x XOR rotr 13 x XOR rotr 22 x"

definition big_sigma1 :: "u32 \<Rightarrow> u32" where
  "big_sigma1 x = rotr 6 x XOR rotr 11 x XOR rotr 25 x"

definition small_sigma0 :: "u32 \<Rightarrow> u32" where
  "small_sigma0 x = rotr 7 x XOR rotr 18 x XOR drop_bit 3 x"

definition small_sigma1 :: "u32 \<Rightarrow> u32" where
  "small_sigma1 x = rotr 17 x XOR rotr 19 x XOR drop_bit 10 x"

text \<open>The big-endian words of a byte string.\<close>

fun words_of :: "bytes \<Rightarrow> u32 list" where
  "words_of (a # b # c # d # bs) = of_nat (be_val [a, b, c, d]) # words_of bs"
| "words_of _ = []"

text \<open>The table of the standard, sixteen rows of four words.\<close>

definition round_constants :: "u32 list" where
  "round_constants = concat (map (\<lambda>row. words_of (be 16 row)) [
     0x428a2f9871374491b5c0fbcfe9b5dba5, 0x3956c25b59f111f1923f82a4ab1c5ed5,
     0xd807aa9812835b01243185be550c7dc3, 0x72be5d7480deb1fe9bdc06a7c19bf174,
     0xe49b69c1efbe47860fc19dc6240ca1cc, 0x2de92c6f4a7484aa5cb0a9dc76f988da,
     0x983e5152a831c66db00327c8bf597fc7, 0xc6e00bf3d5a7914706ca635114292967,
     0x27b70a852e1b21384d2c6dfc53380d13, 0x650a7354766a0abb81c2c92e92722c85,
     0xa2bfe8a1a81a664bc24b8b70c76c51a3, 0xd192e819d6990624f40e3585106aa070,
     0x19a4c1161e376c082748774c34b0bcb5, 0x391c0cb34ed8aa4a5b9cca4f682e6ff3,
     0x748f82ee78a5636f84c878148cc70208, 0x90befffaa4506cebbef9a3f7c67178f2])"

record hash_state =
  ha :: u32
  hb :: u32
  hc :: u32
  hd' :: u32
  he :: u32
  hf :: u32
  hg :: u32
  hh :: u32

definition initial_state :: hash_state where
  "initial_state = \<lparr>
     ha = 0x6a09e667,
     hb = 0xbb67ae85,
     hc = 0x3c6ef372,
     hd' = 0xa54ff53a,
     he = 0x510e527f,
     hf = 0x9b05688c,
     hg = 0x1f83d9ab,
     hh = 0x5be0cd19\<rparr>"

section \<open>Padding and the message schedule\<close>

text \<open>A one bit, zeros up to 56 bytes modulo 64, and the length in bits as 64 bits.\<close>

definition pad :: "bytes \<Rightarrow> bytes" where
  "pad m = m @ [0x80] @ replicate ((119 - length m mod 64) mod 64) 0 @ be 8 (8 * length m)"

text \<open>The sixteen words of a block extended to sixty-four; the list is kept newest first.\<close>

fun extend :: "nat \<Rightarrow> u32 list \<Rightarrow> u32 list" where
  "extend 0 ws = ws"
| "extend (Suc n) ws =
     extend n ((small_sigma1 (ws ! 1) + ws ! 6 + small_sigma0 (ws ! 14) + ws ! 15) # ws)"

definition message_schedule :: "bytes \<Rightarrow> u32 list" where
  "message_schedule block = rev (extend 48 (rev (words_of block)))"

section \<open>Compression\<close>

definition round :: "hash_state \<Rightarrow> u32 \<times> u32 \<Rightarrow> hash_state" where
  "round s kw = (let
     t1 = hh s + big_sigma1 (he s) + choice (he s) (hf s) (hg s) + fst kw + snd kw;
     t2 = big_sigma0 (ha s) + majority (ha s) (hb s) (hc s)
     in \<lparr>ha = t1 + t2, hb = ha s, hc = hb s, hd' = hc s,
         he = hd' s + t1, hf = he s, hg = hf s, hh = hg s\<rparr>)"

definition compress :: "hash_state \<Rightarrow> bytes \<Rightarrow> hash_state" where
  "compress s block = (let r = foldl round s (zip round_constants (message_schedule block))
     in \<lparr>ha = ha s + ha r, hb = hb s + hb r, hc = hc s + hc r, hd' = hd' s + hd' r,
         he = he s + he r, hf = hf s + hf r, hg = hg s + hg r, hh = hh s + hh r\<rparr>)"

function blocks_of :: "bytes \<Rightarrow> bytes list" where
  "blocks_of bs = (if length bs < 64 then [] else take 64 bs # blocks_of (drop 64 bs))"
  by pat_completeness auto
termination
  by (relation "measure length") auto

declare blocks_of.simps [simp del]

definition digest_bytes :: "hash_state \<Rightarrow> bytes" where
  "digest_bytes s = concat (map (\<lambda>w. be 4 (unat w))
     [ha s, hb s, hc s, hd' s, he s, hf s, hg s, hh s])"

text \<open>\<open>hashlib.sha256(data).digest()\<close>\<close>

definition sha256 :: "bytes \<Rightarrow> bytes" where
  "sha256 m = digest_bytes (foldl compress initial_state (blocks_of (pad m)))"

lemma length_sha256 [simp, byte_simps]: "length (sha256 m) = 32"
  by (simp add: sha256_def digest_bytes_def)

lemma length_pad: "length (pad m) mod 64 = 0"
proof -
  define r where "r = length m mod 64"
  have "(length m + (119 - r) mod 64 + 9) mod 64 = (r + (119 - r) mod 64 + 9) mod 64"
    by (simp add: r_def add.assoc mod_simps)
  also have "\<dots> = 0"
  proof (cases "r \<le> 55")
    case True
    then have "(119 - r) mod 64 = 55 - r"
      by (simp add: mod_if)
    with True show ?thesis by simp
  next
    case False
    moreover have "r < 64" by (simp add: r_def)
    ultimately show ?thesis by simp
  qed
  finally show ?thesis
    by (simp add: pad_def r_def add.commute add.left_commute)
qed

end
