(* ===== verification/Wire.thy ===== *)
theory Wire
  imports Sha256
begin

text \<open>
  The byte formats of \<open>tools/reference.py\<close> (lines 17 to 63): the \<open>struct\<close> packers, the
  order-preserving signed integers, the schema descriptor and the canonical bucket frame with
  its hash. Every packer is a result: a value outside its width raises as \<open>struct.pack\<close> and
  \<open>int.to_bytes\<close> do. The second half gives each format as a total function on the values it
  accepts, which the injectivity and round-trip lemmas of the other components use.
\<close>

section \<open>Packers\<close>

definition struct_pack :: "nat \<Rightarrow> int \<Rightarrow> bytes result" where
  "struct_pack k v = (if 0 \<le> v \<and> v < 256 ^ k then Inr (be k (nat v)) else Inl StructError)"

definition to_bytes :: "nat \<Rightarrow> int \<Rightarrow> bytes result" where
  "to_bytes k v = (if 0 \<le> v \<and> v < 256 ^ k then Inr (be k (nat v)) else Inl OverflowError)"

definition u16 :: "int \<Rightarrow> bytes result" where
  "u16 v = struct_pack 2 v"

definition u32 :: "int \<Rightarrow> bytes result" where
  "u32 v = struct_pack 4 v"

definition u64 :: "int \<Rightarrow> bytes result" where
  "u64 v = struct_pack 8 v"

text \<open>\<open>signed\<close> shifts the value so that byte order is numeric order.\<close>

definition signed_bytes :: "int \<Rightarrow> nat \<Rightarrow> bytes result" where
  "signed_bytes v bits =
     (if bits = 0 then Inl (ValueError ''negative shift count'')
      else to_bytes (bits div 8) (v + 2 ^ (bits - 1)))"

definition digest :: "bytes \<Rightarrow> bytes" where
  "digest data = sha256 data"

section \<open>The schema descriptor\<close>

definition namespace :: string where
  "namespace = ''bucketlist.vectors''"

definition version :: int where
  "version = 1"

definition schema_descriptor :: "bytes result" where
  "schema_descriptor =
     bindE (u16 (int (length namespace))) (\<lambda>n.
     bindE (u32 version) (\<lambda>v.
     bindE (u32 2) (\<lambda>two.
     bindE (u32 1) (\<lambda>one.
     bindE (u32 8) (\<lambda>eight.
       Inr (n @ ascii namespace @ v @ two
            @ one @ [2, 16, 5] @ two @ [2, 64, 3]
            @ two @ [7] @ eight @ [1, 64]))))))"

definition schema_hash :: "bytes result" where
  "schema_hash = bindE schema_descriptor (\<lambda>d. Inr (digest (ascii ''BKL-SCHEMA-V1'' @ d)))"

section \<open>Bucket frames\<close>

text \<open>
  The rows of a bucket: (table, key) to a value, or to \<open>None\<close> for a tombstone.
\<close>

type_synonym row_key = "int \<times> bytes"
type_synonym row = "row_key \<times> bytes option"
type_synonym rows = "(row_key, bytes option) dict"

definition bucket_domain :: bytes where
  "bucket_domain = ascii ''bucketlist.bucket.v1'' @ [0]"

fun encode_row :: "row \<Rightarrow> bytes result" where
  "encode_row ((table, key), value) =
     bindE (u32 table) (\<lambda>t.
     bindE (u32 (int (length key))) (\<lambda>n.
     bindE (case value of None \<Rightarrow> Inr [0]
            | Some v \<Rightarrow> bindE (u32 (int (length v))) (\<lambda>m. Inr ([1] @ m @ v))) (\<lambda>effect.
       Inr (t @ n @ key @ effect))))"

definition encode_bucket :: "rows \<Rightarrow> bytes result" where
  "encode_bucket rows =
     bindE (u64 (int (length rows))) (\<lambda>count.
     bindE (mapE encode_row (sorted_items rows)) (\<lambda>framed.
       Inr (bucket_domain @ count @ concat framed)))"

definition bucket_hash :: "rows \<Rightarrow> bytes result" where
  "bucket_hash rows = bindE (encode_bucket rows) (\<lambda>b. Inr (digest b))"

section \<open>Packers on the values they accept\<close>

lemma u16_eq: "u16 v = (if 0 \<le> v \<and> v < 2 ^ 16 then Inr (be 2 (nat v)) else Inl StructError)"
  by (simp add: u16_def struct_pack_def)

lemma u32_eq: "u32 v = (if 0 \<le> v \<and> v < 2 ^ 32 then Inr (be 4 (nat v)) else Inl StructError)"
  by (simp add: u32_def struct_pack_def)

lemma u64_eq: "u64 v = (if 0 \<le> v \<and> v < 2 ^ 64 then Inr (be 8 (nat v)) else Inl StructError)"
  by (simp add: u64_def struct_pack_def)

lemma signed_bytes_eq:
  "signed_bytes v 16 = (if - (2 ^ 15) \<le> v \<and> v < 2 ^ 15 then Inr (be 2 (nat (v + 2 ^ 15))) else Inl OverflowError)"
  "signed_bytes v 64 = (if - (2 ^ 63) \<le> v \<and> v < 2 ^ 63 then Inr (be 8 (nat (v + 2 ^ 63))) else Inl OverflowError)"
  by (auto simp: signed_bytes_def to_bytes_def)

text \<open>A row every field of which fits its length prefix, and the frame it then has.\<close>

fun row_fits :: "row \<Rightarrow> bool" where
  "row_fits ((table, key), value) \<longleftrightarrow>
     0 \<le> table \<and> table < 2 ^ 32 \<and> length key < 2 ^ 32
     \<and> (case value of None \<Rightarrow> True | Some v \<Rightarrow> length v < 2 ^ 32)"

fun row_frame :: "row \<Rightarrow> bytes" where
  "row_frame ((table, key), value) = be 4 (nat table) @ be 4 (length key) @ key
     @ (case value of None \<Rightarrow> [0] | Some v \<Rightarrow> [1] @ be 4 (length v) @ v)"

definition rows_fit :: "rows \<Rightarrow> bool" where
  "rows_fit rows \<longleftrightarrow> dict_ok rows \<and> length rows < 2 ^ 64 \<and> (\<forall>r \<in> set rows. row_fits r)"

definition bucket_frame :: "rows \<Rightarrow> bytes" where
  "bucket_frame rows = bucket_domain @ be 8 (length rows) @ concat (map row_frame (sorted_items rows))"

lemma encode_row_eq: "encode_row r = (if row_fits r then Inr (row_frame r) else Inl StructError)"
  by (cases r rule: row_fits.cases) (auto simp: u32_eq split: option.splits)

lemma mapE_encode_row:
  "mapE encode_row rs = (if \<forall>r \<in> set rs. row_fits r then Inr (map row_frame rs) else Inl StructError)"
  by (induction rs) (auto simp: encode_row_eq)

lemma encode_bucket_eq:
  "dict_ok rows \<Longrightarrow> encode_bucket rows = (if rows_fit rows then Inr (bucket_frame rows) else Inl StructError)"
  by (auto simp: encode_bucket_def u64_eq mapE_encode_row rows_fit_def bucket_frame_def)

lemma rows_fit_Nil [simp]: "rows_fit []"
  by (simp add: rows_fit_def)

section \<open>Collisions\<close>

text \<open>Two computations that hash different byte strings to one digest.\<close>

definition collision :: "bytes set \<Rightarrow> bytes set \<Rightarrow> bool" where
  "collision A B \<longleftrightarrow> (\<exists>x \<in> A. \<exists>y \<in> B. x \<noteq> y \<and> digest x = digest y)"

lemma no_collisionD: "\<not> collision A B \<Longrightarrow> x \<in> A \<Longrightarrow> y \<in> B \<Longrightarrow> digest x = digest y \<Longrightarrow> x = y"
  by (auto simp: collision_def)

lemma no_collision_sub: "\<not> collision A' B' \<Longrightarrow> A \<subseteq> A' \<Longrightarrow> B \<subseteq> B' \<Longrightarrow> \<not> collision A B"
  by (auto simp: collision_def)

end
