(* ===== verification/Workload.thy ===== *)
theory Workload
  imports Wire
begin

text \<open>
  The typed operations of \<open>tools/reference.py\<close> (lines 74 to 128): the four operation kinds, the
  deterministic workload \<open>operations(n)\<close> that both the generator and the Zig tests replay, and
  \<open>encode_operations\<close>, which turns a batch of operations into rows, last write first.
\<close>

section \<open>Operations\<close>

text \<open>An operation dictionary, by its \<open>"kind"\<close>; names are kept as hexadecimal text.\<close>

datatype operation =
    PutAccount int int bool
  | DeleteAccount int
  | PutName string int
  | DeleteName string

definition account :: "int \<Rightarrow> int \<Rightarrow> bool \<Rightarrow> operation" where
  "account key balance active = PutAccount key balance active"

definition delete_account :: "int \<Rightarrow> operation" where
  "delete_account key = DeleteAccount key"

definition put_name :: "bytes \<Rightarrow> int \<Rightarrow> operation" where
  "put_name key owner = PutName (hex key) owner"

definition delete_name :: "bytes \<Rightarrow> operation" where
  "delete_name key = DeleteName (hex key)"

text \<open>The workload of advance \<open>n\<close>; the last branch is the code's \<open>raise\<close>.\<close>

definition operations :: "int \<Rightarrow> operation list result" where
  "operations n =
    (if n mod 10 = 0 then Inr []
     else if n mod 10 = 1 then Inr
       [account (- (n mod 17)) (n * 100) (n mod 3 \<noteq> 0),
        put_name (ascii ''a'' @ [0] @ [word_of_int (n mod 5)]) n]
     else if n mod 10 = 2 then Inr
       [account (- ((n - 1) mod 17)) (- n) False, put_name [] 0]
     else if n mod 10 = 3 then Inr
       [delete_account (- ((n - 2) mod 17)),
        delete_name (ascii ''a'' @ [0] @ [word_of_int ((n - 2) mod 5)])]
     else if n mod 10 = 4 then Inr
       [account (n mod 17) 1 True, delete_account (n mod 17), account 0 n True]
     else if n mod 10 = 5 then Inr
       [account 0 (n - 1) True, delete_name (ascii ''missing'')]
     else if n mod 10 = 6 then Inr
       [put_name (ascii ''a'') n, put_name (ascii ''a'' @ [0]) (n + 1), put_name (ascii ''a'' @ [255]) (n + 2)]
     else if n mod 10 = 7 then Inr
       [account (- 32768) (- (2 ^ 63)) True, account 32767 (2 ^ 63 - 1) False,
        put_name (ascii ''abcdefgh'') (2 ^ 64 - 1)]
     else if n mod 10 = 8 then Inr
       [delete_account (- 32768), account (- 32768) (- (2 ^ 63)) True, delete_name []]
     else if n mod 10 = 9 then Inr
       [delete_account 32767, put_name (ascii ''a'') n, delete_account 0, account 0 n False]
     else Inl AssertionError)"

section \<open>Encoding a batch\<close>

fun encode_operation :: "operation \<Rightarrow> row result" where
  "encode_operation (PutAccount a balance active) =
     bindE (signed_bytes a 16) (\<lambda>key.
     bindE (signed_bytes balance 64) (\<lambda>value.
       Inr ((1, key), Some (value @ [if active then 1 else 0]))))"
| "encode_operation (DeleteAccount a) =
     bindE (signed_bytes a 16) (\<lambda>key. Inr ((1, key), None))"
| "encode_operation (PutName name_hex owner) =
     bindE (fromhex name_hex) (\<lambda>raw_key.
     bindE (u32 (int (length raw_key))) (\<lambda>n.
     bindE (u64 owner) (\<lambda>value. Inr ((2, n @ raw_key), Some value))))"
| "encode_operation (DeleteName name_hex) =
     bindE (fromhex name_hex) (\<lambda>raw_key.
     bindE (u32 (int (length raw_key))) (\<lambda>n. Inr ((2, n @ raw_key), None)))"

text \<open>The loop: \<open>rows[key] = value\<close> for each operation in call order.\<close>

fun encode_operations_from :: "rows \<Rightarrow> operation list \<Rightarrow> rows result" where
  "encode_operations_from rows [] = Inr rows"
| "encode_operations_from rows (p # ps) =
     bindE (encode_operation p) (\<lambda>(key, value). encode_operations_from (AList.update key value rows) ps)"

definition encode_operations :: "operation list \<Rightarrow> rows result" where
  "encode_operations ops = encode_operations_from [] ops"

lemma encode_operations_from_ok:
  "encode_operations_from rows ops = Inr rows' \<Longrightarrow> dict_ok rows \<Longrightarrow> dict_ok rows'"
  by (induction ops arbitrary: rows) (auto simp: bindE_Inr_iff)

lemma encode_operations_ok: "encode_operations ops = Inr rows \<Longrightarrow> dict_ok rows"
  using encode_operations_from_ok [of "[]" ops rows] by (simp add: encode_operations_def)

text \<open>The batch is the operations' rows, and a later operation on a key replaces an earlier one.\<close>

lemma encode_operations_from_iff:
  "encode_operations_from rows ops = Inr rows' \<longleftrightarrow>
     (\<exists>rs. mapE encode_operation ops = Inr rs \<and> rows' = dict_update rows rs)"
  by (induction ops arbitrary: rows) (auto simp: bindE_Inr_iff dict_update_def)

lemma map_of_dict_update_last:
  "map_of (dict_update d rs) k = (case map_of (rev rs) k of None \<Rightarrow> map_of d k | Some v \<Rightarrow> Some v)"
  by (induction rs arbitrary: d)
     (auto simp: dict_update_def update_conv map_add_def split: option.splits)

lemma encode_operations_last_write:
  assumes "encode_operations ops = Inr rows"
  obtains rs where "mapE encode_operation ops = Inr rs" and "map_of rows = map_of (rev rs)"
  using assms unfolding encode_operations_def encode_operations_from_iff
  by (fastforce simp: map_of_dict_update_last fun_eq_iff split: option.splits)

text \<open>Every row of a batch fits its frame as long as no name is near four gigabytes long.\<close>

lemma encode_operation_fits:
  "encode_operation p = Inr ((t, k), v) \<Longrightarrow> length k < 2 ^ 32 \<Longrightarrow> row_fits ((t, k), v) \<and> t \<in> {1, 2}"
  by (cases p)
     (auto simp: bindE_Inr_iff signed_bytes_eq u64_eq u32_eq split: if_splits)

section \<open>The workload never raises\<close>

lemma mod10_cases:
  "(n::int) mod 10 = 0 \<or> n mod 10 = 1 \<or> n mod 10 = 2 \<or> n mod 10 = 3 \<or> n mod 10 = 4 \<or>
   n mod 10 = 5 \<or> n mod 10 = 6 \<or> n mod 10 = 7 \<or> n mod 10 = 8 \<or> n mod 10 = 9"
  by presburger

definition encodes :: "operation list \<Rightarrow> bool" where
  "encodes ops \<longleftrightarrow> (\<exists>rows. encode_operations ops = Inr rows \<and> rows_fit rows)"

definition op_encodes :: "operation \<Rightarrow> bool" where
  "op_encodes p \<longleftrightarrow> (\<exists>r. encode_operation p = Inr r \<and> row_fits r)"

lemma encode_operations_from_fits:
  assumes "\<forall>p \<in> set ops. op_encodes p"
    and "dict_ok rows" and "\<forall>r \<in> set rows. row_fits r"
  shows "\<exists>rows'. encode_operations_from rows ops = Inr rows' \<and> dict_ok rows'
    \<and> (\<forall>r \<in> set rows'. row_fits r) \<and> length rows' \<le> length rows + length ops"
  using assms
proof (induction ops arbitrary: rows)
  case Nil
  then show ?case by simp
next
  case (Cons p ops)
  then obtain k v where p: "encode_operation p = Inr (k, v)" and kv: "row_fits (k, v)"
    by (fastforce simp: op_encodes_def)
  have "set (AList.update k v rows) \<subseteq> insert (k, v) (set rows)"
    by (induction rows) auto
  moreover have "length (AList.update k v rows) \<le> Suc (length rows)"
    by (induction rows) auto
  ultimately show ?case
    using Cons.IH [of "AList.update k v rows"] Cons.prems p kv by fastforce
qed

lemma encodesI:
  assumes "\<forall>p \<in> set ops. op_encodes p" and "length ops < 2 ^ 64"
  shows "encodes ops"
  using encode_operations_from_fits [OF assms(1), of "[]"] assms(2)
  by (auto simp: encodes_def encode_operations_def rows_fit_def)

lemma op_encodes_simps [simp]:
  "op_encodes (PutAccount a b active) \<longleftrightarrow>
     - (2 ^ 15) \<le> a \<and> a < 2 ^ 15 \<and> - (2 ^ 63) \<le> b \<and> b < 2 ^ 63"
  "op_encodes (DeleteAccount a) \<longleftrightarrow> - (2 ^ 15) \<le> a \<and> a < 2 ^ 15"
  "length name < 2 ^ 16 \<Longrightarrow> op_encodes (PutName (hex name) c) \<longleftrightarrow> 0 \<le> c \<and> c < 2 ^ 64"
  "length name < 2 ^ 16 \<Longrightarrow> op_encodes (DeleteName (hex name))"
  by (auto simp: op_encodes_def signed_bytes_eq u32_eq u64_eq)

lemma operations_encode:
  assumes "0 \<le> n" and "n \<le> 92233720368547758"
  shows "\<exists>ops. operations n = Inr ops \<and> (\<forall>p \<in> set ops. op_encodes p) \<and> length ops \<le> 4"
proof -
  have m: "0 \<le> k mod 17 \<and> k mod 17 < 17" for k :: int by simp
  have b: "- 32768 \<le> - (k mod 17)" "- (k mod 17) < 32768" "- 32768 \<le> k mod 17" "k mod 17 < 32768" for k :: int
    using m [of k] by linarith+
  from mod10_cases [of n] consider "n mod 10 = 0" | "n mod 10 = 1" | "n mod 10 = 2" | "n mod 10 = 3"
    | "n mod 10 = 4" | "n mod 10 = 5" | "n mod 10 = 6" | "n mod 10 = 7" | "n mod 10 = 8" | "n mod 10 = 9"
    by blast
  then show ?thesis
    using assms b
    by cases (auto simp: operations_def account_def delete_account_def put_name_def delete_name_def ascii_def)
qed

text \<open>
  The workload is total: for every advance number up to 92233720368547758 (the generator
  uses 128) the match always finds a case, and every operation it yields encodes: accounts
  within sixteen bits, balances within sixty-four, owners unsigned. The bound is the last
  number whose hundredfold is a balance.
\<close>

theorem workload_total:
  assumes "0 \<le> n" and "n \<le> 92233720368547758"
  shows "\<exists>ops. operations n = Inr ops \<and> encodes ops"
  using operations_encode [OF assms] by (force intro: encodesI)

theorem workload_total_witness: "\<exists>ops. operations 128 = Inr ops \<and> encodes ops"
  by (rule workload_total) simp_all

text \<open>
  C16: The signed integers are encoded in order: at both widths the encodings compare, as byte
  strings, the way the numbers do, and exactly the numbers of the width have one.
\<close>

theorem signed_order:
  assumes "bits = 16 \<or> bits = 64"
    and "signed_bytes a bits = Inr x" and "signed_bytes b bits = Inr y"
  shows "(x < y \<longleftrightarrow> a < b) \<and> (x = y \<longleftrightarrow> a = b) \<and> length x = bits div 8"
  using assms by (auto simp: signed_bytes_eq be_less_iff nat_less_iff split: if_splits)

theorem signed_order_witness:
  "\<exists>x y. signed_bytes (- 1) 16 = Inr x \<and> signed_bytes 0 16 = Inr y \<and> x < y"
  using signed_order [of 16 "- 1" "be 2 32767" 0 "be 2 32768"] by (simp add: signed_bytes_eq)

end
