(* ===== verification/Reference_Model.thy ===== *)
theory Reference_Model
  imports Levels Workload
begin

text \<open>
  The dictionary model of \<open>tools/reference.py\<close>: \<open>merge\<close> (lines 66 to 71) and the class
  \<open>Model\<close> with its constructor and \<open>advance\<close> (lines 131 to 164), statement by statement, the
  final assertion included. The lemmas interpret the bucket contract on the dictionaries and
  show that one spill pass of the loop is the level-by-level pass of theory Levels; from that
  every reachable model keeps its invariant and no \<open>advance\<close> raises.
\<close>

section \<open>Merging\<close>

definition merge :: "rows \<Rightarrow> rows \<Rightarrow> bool \<Rightarrow> rows" where
  "merge older newer terminal =
     (let result = dict_update older newer
      in if terminal then filter (\<lambda>(key, value). value \<noteq> None) result else result)"

lemma dict_ok_merge [simp, intro]: "dict_ok older \<Longrightarrow> dict_ok (merge older newer terminal)"
  by (simp add: merge_def Let_def)

lemma map_of_merge [dict_simps]:
  assumes "dict_ok older" and "dict_ok newer"
  shows "map_of (merge older newer terminal) k = prune terminal (over (map_of older k) (map_of newer k))"
  using assms
  by (auto simp: merge_def Let_def over_def prune_def map_of_dict_update
      map_of_filter_value split: option.splits)

interpretation dict_buckets: buckets "map_of :: rows \<Rightarrow> row_key \<Rightarrow> bytes option option" "[]" merge dict_ok
  by unfold_locales (auto simp: map_of_merge)

section \<open>The model\<close>

record model =
  depth :: nat
  sequence :: nat
  levels :: "rows level list"
  logical :: rows
  profile :: bytes

definition profile_domain :: bytes where
  "profile_domain = ascii ''bucketlist.profile.v1'' @ [0]"

definition model_init :: "nat \<Rightarrow> model result" where
  "model_init d =
     bindE (u32 (int d)) (\<lambda>d4. bindE (u32 4) (\<lambda>four.
       Inr \<lparr>depth = d, sequence = 0,
            levels = replicate d \<lparr>curr = [], snap = [], pending = None\<rparr>,
            logical = [],
            profile = digest (profile_domain @ d4 @ four)\<rparr>))"

text \<open>One iteration of the spill loop at destination level \<open>i\<close>.\<close>

definition spill_step :: "nat \<Rightarrow> nat \<Rightarrow> nat \<Rightarrow> rows level list \<Rightarrow> rows level list" where
  "spill_step d n i lvs =
     (let incoming_interval = 2 * 4 ^ (i - 1)
      in if n mod incoming_interval \<noteq> 0 then lvs
      else let
        source = lvs ! (i - 1);
        dest = lvs ! i;
        source = source\<lparr>snap := curr source, curr := []\<rparr>;
        dest = (case pending dest of None \<Rightarrow> dest | Some p \<Rightarrow> dest\<lparr>curr := p\<rparr>);
        next_incoming = n + incoming_interval;
        destination_will_spill = (i \<noteq> d - 1 \<and> next_incoming mod (2 * 4 ^ i) = 0);
        older = (if destination_will_spill then [] else curr dest);
        dest = dest\<lparr>pending := Some (merge older (snap source) (i = d - 1))\<rparr>
      in lvs[i - 1 := source, i := dest])"

text \<open>\<open>for i in reversed(range(1, self.depth))\<close>\<close>

definition spill_pass :: "nat \<Rightarrow> nat \<Rightarrow> rows level list \<Rightarrow> rows level list" where
  "spill_pass d n lvs = fold (spill_step d n) (rev [1..<d]) lvs"

text \<open>\<open>d.get(key)\<close> of a dictionary whose values may be \<open>None\<close>.\<close>

definition dict_get :: "rows \<Rightarrow> row_key \<Rightarrow> bytes option" where
  "dict_get d key = (case map_of d key of None \<Rightarrow> None | Some value \<Rightarrow> value)"

text \<open>The rows a batch really changes.\<close>

definition normalize :: "rows \<Rightarrow> rows \<Rightarrow> rows" where
  "normalize base encoded = filter (\<lambda>(key, value). dict_get base key \<noteq> value) encoded"

text \<open>The nested loops over levels, roles and items that build \<open>visible\<close>.\<close>

definition visible_role :: "rows \<Rightarrow> rows \<Rightarrow> rows" where
  "visible_role role visible = fold (\<lambda>(key, value). dict_setdefault key value) role visible"

definition visible_rows :: "rows level list \<Rightarrow> rows" where
  "visible_rows lvs = fold (\<lambda>level visible. fold visible_role [curr level, snap level] visible) lvs []"

definition advance :: "model \<Rightarrow> operation list \<Rightarrow> (model \<times> rows) result" where
  "advance m ops =
     (let n = sequence m + 1 in
      bindE (encode_operations ops) (\<lambda>encoded.
        let rows = normalize (logical m) encoded;
            spilled_levels = spill_pass (depth m) n (levels m)
        in if spilled_levels = [] then Inl IndexError
        else let
          level0 = spilled_levels ! 0;
          new_levels = spilled_levels[0 := level0\<lparr>curr := merge (curr level0) rows (depth m = 1)\<rparr>];
          new_logical = merge (logical m) rows True;
          visible = visible_rows new_levels
        in bindE (guardE AssertionError
             (dict_eq (filter (\<lambda>(key, value). value \<noteq> None) visible) new_logical)) (\<lambda>_.
           Inr (m\<lparr>sequence := n, levels := new_levels, logical := new_logical\<rparr>, rows))))"

section \<open>The spill pass, level by level\<close>

text \<open>A source level between its own step as a source and its step as a destination.\<close>

definition half_spilled :: "nat \<Rightarrow> nat \<Rightarrow> rows level list \<Rightarrow> nat \<Rightarrow> rows level" where
  "half_spilled d n lvs i =
     (if spills d n i then (lvs ! i)\<lparr>snap := curr (lvs ! i), curr := []\<rparr> else lvs ! i)"

lemma length_spill_step [simp]: "length (spill_step d n i lvs) = length lvs"
  by (simp add: spill_step_def Let_def)

lemma spill_step_correct:
  assumes i: "0 < i" "i < d" and len: "length L = d"
    and dest: "L ! i = half_spilled d n lvs i" and source: "L ! (i - 1) = lvs ! (i - 1)"
  shows "spill_step d n i L =
    L[i - 1 := half_spilled d n lvs (i - 1), i := spilled merge [] d n lvs i]"
proof (cases "receives n i")
  case False
  then have nr: "n mod (2 * 4 ^ (i - 1)) \<noteq> 0" and ns: "\<not> spills d n i" "\<not> spills d n (i - 1)"
    using i spills_receives spills_iff_receives [OF i(2,1)] by (auto simp: receives_def half_def)
  have "spilled merge [] d n lvs i = lvs ! i"
    using False ns by (simp add: spilled_def Let_def)
  moreover have "L[i - 1 := lvs ! (i - 1), i := lvs ! i] = L"
    using dest source ns by (metis half_spilled_def list_update_id)
  ultimately show ?thesis
    using nr ns by (simp add: spill_step_def half_spilled_def)
next
  case True
  then have r: "n mod (2 * 4 ^ (i - 1)) = 0" and s: "spills d n (i - 1)"
    using i spills_iff_receives [OF i(2,1)] by (auto simp: receives_def half_def)
  have w: "(i \<noteq> d - 1 \<and> (n + 2 * 4 ^ (i - 1)) mod (2 * 4 ^ i) = 0) = merges_with_empty d n i"
    using lookahead_merges_with_empty [OF True, of d] by (simp add: half_def)
  show ?thesis
    using True r s i unfolding spill_step_def Let_def w dest source half_spilled_def spilled_def
    by (cases "lvs ! i"; cases "pending (lvs ! i)") simp_all
qed

lemma spill_pass_from:
  assumes len: "length lvs = d" and j: "0 < j" "j \<le> d" and i: "i < d"
  shows "fold (spill_step d n) (rev [j..<d]) lvs ! i =
    (if j \<le> i then spilled merge [] d n lvs i
     else if Suc i = j then half_spilled d n lvs i else lvs ! i)"
  using j(2,1) i
proof (induction arbitrary: i rule: inc_induct)
  case base
  then show ?case
    by (auto simp: half_spilled_def spills_def)
next
  case (step j)
  define L where "L = fold (spill_step d n) (rev [Suc j..<d]) lvs"
  have L: "L ! k = (if Suc j \<le> k then spilled merge [] d n lvs k
      else if k = j then half_spilled d n lvs k else lvs ! k)" if "k < d" for k
    using step.IH [of k] that by (simp add: L_def)
  have lenL: "length L = d"
    unfolding L_def by (rule fold_invariant [where Q = "\<lambda>_. True"]) (simp_all add: len)
  have "fold (spill_step d n) (rev [j..<d]) lvs = spill_step d n j L"
    using step.hyps by (simp add: upt_conv_Cons L_def)
  also have "\<dots> = L[j - 1 := half_spilled d n lvs (j - 1), j := spilled merge [] d n lvs j]"
    using step.hyps step.prems lenL L by (intro spill_step_correct) auto
  finally show ?case
    using step.prems step.hyps lenL L [of i] by (auto simp: nth_list_update)
qed

lemma spill_pass_spilled:
  assumes len: "length lvs = d" and d: "0 < d"
  shows "spill_pass d n lvs = map (spilled merge [] d n lvs) [0..<d]"
proof (rule nth_equalityI)
  show l: "length (spill_pass d n lvs) = length (map (spilled merge [] d n lvs) [0..<d])"
    unfolding spill_pass_def by (rule fold_invariant [where Q = "\<lambda>_. True"]) (simp_all add: len)
  fix i assume "i < length (spill_pass d n lvs)"
  then have i: "i < d" by (simp add: l)
  have "half_spilled d n lvs 0 = spilled merge [] d n lvs 0"
    by (cases "lvs ! 0") (simp add: half_spilled_def spilled_def receives_def Let_def)
  then show "spill_pass d n lvs ! i = map (spilled merge [] d n lvs) [0..<d] ! i"
    using spill_pass_from [OF len _ _ i, of 1] i d by (cases i) (auto simp: spill_pass_def)
qed

section \<open>The invariant of a model\<close>

text \<open>
  The scheduled shape at the model's sequence, a well-formed logical map without tombstones, and
  the two agreeing on every key: what a read finds is what the logical map holds.
\<close>

definition profile_of :: "nat \<Rightarrow> bytes" where
  "profile_of d = digest (profile_domain @ be 4 d @ be 4 4)"

definition model_ok :: "model \<Rightarrow> bool" where
  "model_ok m \<longleftrightarrow> 0 < depth m \<and> depth m < 2 ^ 32 \<and> profile m = profile_of (depth m)
     \<and> scheduled map_of [] merge dict_ok (depth m) (sequence m) (levels m)
     \<and> dict_ok (logical m) \<and> no_tombstone map_of (logical m)
     \<and> (\<forall>k. live (found map_of (levels m) k) = live (map_of (logical m) k))"

lemma dict_get_live: "dict_get d k = live (map_of d k)"
  by (simp add: dict_get_def live_def)

lemma model_init_ok: "model_init d = Inr m \<Longrightarrow> 0 < d \<Longrightarrow> model_ok m \<and> depth m = d \<and> sequence m = 0"
  using dict_buckets.scheduled_genesis [of d] dict_buckets.live_genesis [of d]
  by (auto simp: model_init_def bindE_Inr_iff model_ok_def no_tombstone_def profile_of_def u32_eq
      split: if_splits)

text \<open>The dictionary \<open>visible\<close> holds what a search through the levels finds.\<close>

lemma visible_role_ok: "dict_ok visible \<Longrightarrow> dict_ok (visible_role role visible)"
  unfolding visible_role_def by (induction role arbitrary: visible) auto

lemma map_of_visible_role:
  "map_of (visible_role role visible) k = over (map_of role k) (map_of visible k)"
  unfolding visible_role_def
proof (induction role arbitrary: visible)
  case Nil
  show ?case by simp
next
  case (Cons x role)
  obtain k' v where "x = (k', v)" by (cases x)
  with Cons show ?case
    by (auto simp: map_of_setdefault over_def split: option.splits)
qed

lemma visible_rows_from:
  "dict_ok visible \<Longrightarrow>
     (let result = fold (\<lambda>level visible. fold visible_role [curr level, snap level] visible) lvs visible
      in dict_ok result \<and> map_of result k = over (found map_of lvs k) (map_of visible k))"
proof (induction lvs arbitrary: visible)
  case Nil
  then show ?case by simp
next
  case (Cons l lvs)
  then show ?case
    by (simp add: Let_def visible_role_ok map_of_visible_role over_assoc)
qed

lemma visible_rows_ok: "dict_ok (visible_rows lvs)"
  and map_of_visible_rows: "map_of (visible_rows lvs) k = found map_of lvs k"
  using visible_rows_from [of "[]" lvs k] by (simp_all add: visible_rows_def Let_def)

lemma normalize_ok [simp]: "dict_ok encoded \<Longrightarrow> dict_ok (normalize base encoded)"
  by (simp add: normalize_def)

lemma map_of_normalize:
  "dict_ok encoded \<Longrightarrow> map_of (normalize base encoded) k =
     (case map_of encoded k of None \<Rightarrow> None
      | Some v \<Rightarrow> if live (map_of base k) \<noteq> v then Some v else None)"
  by (simp add: normalize_def map_of_filter_value dict_get_live)

text \<open>Dropping the rows that change nothing does not change what the batch leaves visible.\<close>

lemma live_normalize:
  "dict_ok encoded \<Longrightarrow>
     (case map_of (normalize base encoded) k of None \<Rightarrow> live (map_of base k) | Some v \<Rightarrow> v) =
     (case map_of encoded k of None \<Rightarrow> live (map_of base k) | Some v \<Rightarrow> v)"
  by (auto simp: map_of_normalize split: option.splits)

lemma no_tombstone_live: "no_tombstone look b \<Longrightarrow> look b k = map_option Some (live (look b k))"
  by (cases "look b k"; cases "the (look b k)") (auto simp: no_tombstone_def live_def)

text \<open>The assertion of \<open>advance\<close> compares two dictionaries that show the same live values.\<close>

lemma assertion_holds:
  assumes l: "dict_ok l" "no_tombstone map_of l"
    and eq: "\<And>k. live (found map_of lvs k) = live (map_of l k)"
  shows "dict_eq (filter (\<lambda>(key, value). value \<noteq> None) (visible_rows lvs)) l"
proof -
  have "map_of (filter (\<lambda>(key, value). value \<noteq> None) (visible_rows lvs)) k = map_of l k" for k
  proof -
    have "map_of (filter (\<lambda>(key, value). value \<noteq> None) (visible_rows lvs)) k
        = map_option Some (live (found map_of lvs k))"
      by (auto simp: map_of_filter_value visible_rows_ok map_of_visible_rows live_def
          simp del: not_None_eq split: option.split)
    then show ?thesis
      using no_tombstone_live [OF l(2), of k] by (simp add: eq)
  qed
  then show ?thesis
    using l by (simp add: dict_eq_map_of visible_rows_ok fun_eq_iff)
qed

text \<open>
  One advance of a well-formed model: it returns, the new model is well-formed at the next
  sequence, and every key shows the last operation on it, or what it showed before.
\<close>

lemma advance_step:
  assumes m: "model_ok m" and e: "encode_operations ops = Inr encoded"
  defines "rows \<equiv> normalize (logical m) encoded"
  defines "m' \<equiv> m\<lparr>sequence := Suc (sequence m),
      levels := advanced merge [] (depth m) (Suc (sequence m)) (levels m) rows,
      logical := merge (logical m) rows True\<rparr>"
  shows "advance m ops = Inr (m', rows)" and "model_ok m'"
    and "live (map_of (logical m') k) =
      (case map_of encoded k of None \<Rightarrow> live (map_of (logical m) k) | Some v \<Rightarrow> v)"
proof -
  have enc: "dict_ok encoded"
    using e by (rule encode_operations_ok)
  have d: "0 < depth m" and s: "scheduled map_of [] merge dict_ok (depth m) (sequence m) (levels m)"
    and l: "dict_ok (logical m)" "no_tombstone map_of (logical m)"
    and same: "\<And>k. live (found map_of (levels m) k) = live (map_of (logical m) k)"
    using m by (auto simp: model_ok_def)
  from s have t: "topology merge [] (depth m) (sequence m) (levels m)"
    and ok: "levels_ok dict_ok (levels m)" and len: "length (levels m) = depth m"
    by (auto simp: scheduled_def topology_def)
  have rows: "dict_ok rows"
    using enc by (simp add: rows_def)
  have logical': "live (map_of (logical m') k) =
      (case map_of encoded k of None \<Rightarrow> live (map_of (logical m) k) | Some v \<Rightarrow> v)" for k
    using live_normalize [OF enc, of "logical m" k]
    by (simp add: m'_def map_of_merge l rows live_over) (simp add: rows_def)
  then show "live (map_of (logical m') k) =
      (case map_of encoded k of None \<Rightarrow> live (map_of (logical m) k) | Some v \<Rightarrow> v)" .
  have found': "live (found map_of (levels m') k) = live (map_of (logical m') k)" for k
    using dict_buckets.live_advanced [OF t ok d rows, of k] live_normalize [OF enc, of "logical m" k]
    by (simp add: logical') (simp add: m'_def rows_def same split: option.splits)
  have clean: "no_tombstone map_of (logical m')"
    by (simp add: m'_def no_tombstone_def map_of_merge l rows prune_def)
  have l': "dict_ok (logical m')"
    by (simp add: m'_def l)
  have "depth m < 2 ^ 32" and "profile m = profile_of (depth m)"
    using m by (simp_all add: model_ok_def)
  then show "model_ok m'"
    using d found' clean l' dict_buckets.scheduled_advanced [OF s d rows]
    by (simp add: model_ok_def) (simp add: m'_def)
  have "spill_pass (depth m) (Suc (sequence m)) (levels m) \<noteq> []"
    using spill_pass_spilled [OF len d] d by simp
  then show "advance m ops = Inr (m', rows)"
    using e assertion_holds [OF l' clean, of "levels m'"] found'
    by (simp add: advance_def rows_def [symmetric] Let_def)
       (simp add: m'_def advanced_def spill_pass_spilled [OF len d] Let_def)
qed

section \<open>Reachable models\<close>

text \<open>The states a program can bring a model of depth \<open>d\<close> to: construct it, then advance.\<close>

inductive reachable :: "nat \<Rightarrow> model \<Rightarrow> bool" where
  start: "model_init d = Inr m \<Longrightarrow> reachable d m"
| advanced: "reachable d m \<Longrightarrow> advance m ops = Inr (m', rows) \<Longrightarrow> reachable d m'"

inductive_cases reachableE: "reachable d m"

text \<open>A whole history, one batch per advance, stopping at the first exception.\<close>

fun run :: "model \<Rightarrow> operation list list \<Rightarrow> model result" where
  "run m [] = Inr m"
| "run m (ops # history) = bindE (advance m ops) (\<lambda>(m', rows). run m' history)"

lemma advance_encodes: "advance m ops = Inr r \<Longrightarrow> \<exists>encoded. encode_operations ops = Inr encoded"
  by (auto simp: advance_def Let_def bindE_Inr_iff)

lemma advance_Inr:
  assumes m: "model_ok m" and a: "advance m ops = Inr (m', rows)"
  obtains encoded where "encode_operations ops = Inr encoded"
    and "rows = normalize (logical m) encoded" and "model_ok m'"
    and "depth m' = depth m" and "sequence m' = Suc (sequence m)"
    and "\<And>k. live (map_of (logical m') k) =
      (case map_of encoded k of None \<Rightarrow> live (map_of (logical m) k) | Some v \<Rightarrow> v)"
proof -
  obtain encoded where e: "encode_operations ops = Inr encoded"
    using advance_encodes [OF a] by blast
  note step = advance_step [OF m e]
  show ?thesis
    using that e step a by force
qed

lemma reachable_ok: "reachable d m \<Longrightarrow> 0 < d \<Longrightarrow> model_ok m \<and> depth m = d"
proof (induction rule: reachable.induct)
  case (start d m)
  then show ?case using model_init_ok by blast
next
  case (advanced d m ops m' rows)
  then show ?case by (metis advance_Inr)
qed

lemma model_ok_found: "model_ok m \<Longrightarrow> live (found map_of (levels m) k) = live (map_of (logical m) k)"
  unfolding model_ok_def by blast

lemma reachable_exists: "0 < d \<Longrightarrow> d < 2 ^ 32 \<Longrightarrow> \<exists>m. model_init d = Inr m"
  by (simp add: model_init_def u32_eq)

section \<open>A small history\<close>

text \<open>
  Depth two, three advances: put accounts 5 and 6, delete account 5 and put it again, then
  nothing. The second advance spills level zero. The witnesses below run it.
\<close>

definition demo_batches :: "operation list list" where
  "demo_batches = [[PutAccount 5 7 True, PutAccount 6 (- 1) False],
     [DeleteAccount 6, PutAccount 5 8 True, DeleteAccount 7], []]"

lemma demo_encodes:
  "encode_operations [PutAccount 5 7 True, PutAccount 6 (- 1) False] =
     Inr [((1, be 2 32773), Some (be 8 9223372036854775815 @ [1])),
          ((1, be 2 32774), Some (be 8 9223372036854775807 @ [0]))]"
  "mapE encode_operation [DeleteAccount 6, PutAccount 5 8 True, DeleteAccount 7] =
     Inr [((1, be 2 32774), None), ((1, be 2 32773), Some (be 8 9223372036854775816 @ [1])),
          ((1, be 2 32775), None)]"
  "encode_operations [] = Inr []"
  by (simp_all add: encode_operations_def signed_bytes_eq)

lemma demo_history:
  obtains m m1 r1 m2 r2 where "model_init 2 = Inr m" and "advance m (demo_batches ! 0) = Inr (m1, r1)"
    and "advance m1 (demo_batches ! 1) = Inr (m2, r2)" and "reachable 2 m1" and "reachable 2 m2"
proof -
  obtain m where m: "model_init 2 = Inr m"
    using reachable_exists [of 2] by auto
  then have r0: "reachable 2 m" by (rule reachable.start)
  have ok: "model_ok x" if "reachable 2 x" for x
    using reachable_ok that by fastforce
  have "\<exists>e. encode_operations (demo_batches ! 1) = Inr e"
    unfolding encode_operations_def encode_operations_from_iff demo_batches_def nth_Cons_0 nth_Cons_Suc One_nat_def
    using demo_encodes(2) by blast
  moreover have "\<exists>e. encode_operations (demo_batches ! 0) = Inr e"
    unfolding demo_batches_def nth_Cons_0 using demo_encodes(1) by blast
  ultimately have enc: "\<exists>e. encode_operations (demo_batches ! 0) = Inr e" "\<exists>e. encode_operations (demo_batches ! 1) = Inr e"
    by blast+
  obtain m1 r1 where a1: "advance m (demo_batches ! 0) = Inr (m1, r1)"
    using enc(1) advance_step(1) [OF ok [OF r0]] by blast
  then have r1: "reachable 2 m1" using r0 by (rule reachable.advanced [rotated])
  obtain m2 r2 where a2: "advance m1 (demo_batches ! 1) = Inr (m2, r2)"
    using enc(2) advance_step(1) [OF ok [OF r1]] by blast
  then have "reachable 2 m2" using r1 by (rule reachable.advanced [rotated])
  with m a1 a2 r1 show ?thesis by (rule that)
qed

lemma demo_reads:
  assumes "model_init 2 = Inr m" and "advance m (demo_batches ! 0) = Inr (m1, r1)"
  shows "live (found map_of (levels m1) k) =
    (if k = (1, be 2 32773) then Some (be 8 9223372036854775815 @ [1])
     else if k = (1, be 2 32774) then Some (be 8 9223372036854775807 @ [0]) else None)"
proof -
  have m: "model_ok m" and "logical m = []"
    using model_init_ok [OF assms(1)] assms(1) by (auto simp: model_init_def bindE_Inr_iff)
  obtain encoded where "encode_operations (demo_batches ! 0) = Inr encoded" and "model_ok m1"
    and "\<And>k. live (map_of (logical m1) k) =
      (case map_of encoded k of None \<Rightarrow> live (map_of (logical m) k) | Some v \<Rightarrow> v)"
    using advance_Inr [OF m assms(2)] by metis
  then show ?thesis
    using demo_encodes(1) by (auto simp: demo_batches_def model_ok_found \<open>logical m = []\<close>)
qed

section \<open>Properties of the model\<close>

text \<open>
  C1: In every reachable model an \<open>advance\<close> never fails its final assertion and never meets an
  index error: it raises exactly when the encoding of its operations raises, with that
  exception, and otherwise returns a model one sequence number further.
\<close>

theorem advance_never_asserts:
  assumes "reachable d m" and "0 < d"
  shows "(\<forall>e. encode_operations ops = Inl e \<longrightarrow> advance m ops = Inl e)
    \<and> (\<forall>encoded. encode_operations ops = Inr encoded \<longrightarrow>
        (\<exists>m' rows. advance m ops = Inr (m', rows) \<and> sequence m' = Suc (sequence m)))"
proof -
  have "model_ok m" using reachable_ok assms by blast
  then show ?thesis
    using advance_step(1) by (fastforce simp: advance_def Let_def)
qed

theorem advance_never_asserts_witness:
  "\<exists>m m1 r1 m2 r2. model_init 2 = Inr m \<and> advance m (demo_batches ! 0) = Inr (m1, r1)
    \<and> advance m1 (demo_batches ! 1) = Inr (m2, r2) \<and> sequence m2 = Suc (sequence m1)"
proof -
  obtain m m1 r1 m2 r2 where h: "model_init 2 = Inr m" "advance m (demo_batches ! 0) = Inr (m1, r1)"
    "advance m1 (demo_batches ! 1) = Inr (m2, r2)" "reachable 2 m1"
    by (rule demo_history)
  then obtain e where "encode_operations (demo_batches ! 1) = Inr e"
    using advance_encodes by blast
  then show ?thesis
    using h advance_never_asserts [OF h(4), of "demo_batches ! 1"] by fastforce
qed

text \<open>
  C2: What a read finds, searching level zero's current and snapshot buckets and then each older
  level, is what the logical map holds, in every reachable model and for every key. Delayed
  promotion, merges that leave out the current bucket and dropped tombstones never show.
\<close>

theorem reachable_reads_logical:
  assumes "reachable d m" and "0 < d"
  shows "live (found map_of (levels m) k) = live (map_of (logical m) k)"
  using reachable_ok [OF assms] model_ok_found by blast

theorem reachable_reads_logical_witness:
  "\<exists>m m1 r1. model_init 2 = Inr m \<and> advance m (demo_batches ! 0) = Inr (m1, r1)
    \<and> live (map_of (logical m1) (1, be 2 32774)) = Some (be 8 9223372036854775807 @ [0])"
proof -
  obtain m m1 r1 where h: "model_init 2 = Inr m" "advance m (demo_batches ! 0) = Inr (m1, r1)" "reachable 2 m1"
    using demo_history by metis
  then show ?thesis
    using reachable_reads_logical [OF h(3), of "(1, be 2 32774)"] demo_reads [OF h(1,2)] by auto
qed

text \<open>
  C3: One advance of a reachable model, read back: a key with an operation in the batch shows
  the last such operation (a deletion shows nothing), and every other key shows what it
  showed before.
\<close>

theorem advance_last_write:
  assumes "reachable d m" and "0 < d" and "advance m ops = Inr (m', rows)"
    and "mapE encode_operation ops = Inr rs"
  shows "live (found map_of (levels m') k) =
    (case map_of (rev rs) k of None \<Rightarrow> live (found map_of (levels m) k) | Some v \<Rightarrow> v)"
proof -
  have m: "model_ok m" using reachable_ok assms(1,2) by blast
  obtain encoded where e: "encode_operations ops = Inr encoded" and m': "model_ok m'"
    and l: "live (map_of (logical m') k) =
      (case map_of encoded k of None \<Rightarrow> live (map_of (logical m) k) | Some v \<Rightarrow> v)"
    using advance_Inr [OF m assms(3)] by metis
  have "map_of encoded = map_of (rev rs)"
    using encode_operations_last_write [OF e] assms(4) by auto
  then show ?thesis
    using l by (simp add: model_ok_found [OF m] model_ok_found [OF m'] split: option.split)
qed

theorem advance_last_write_witness:
  "\<exists>m m1 r1 m2 r2. model_init 2 = Inr m \<and> advance m (demo_batches ! 0) = Inr (m1, r1)
    \<and> advance m1 (demo_batches ! 1) = Inr (m2, r2)
    \<and> live (found map_of (levels m2) (1, be 2 32773)) = Some (be 8 9223372036854775816 @ [1])
    \<and> live (found map_of (levels m2) (1, be 2 32774)) = None"
proof -
  obtain m m1 r1 m2 r2 where h: "model_init 2 = Inr m" "advance m (demo_batches ! 0) = Inr (m1, r1)"
    "advance m1 (demo_batches ! 1) = Inr (m2, r2)" "reachable 2 m1"
    by (rule demo_history)
  have a: "advance m1 [DeleteAccount 6, PutAccount 5 8 True, DeleteAccount 7] = Inr (m2, r2)"
    using h(3) by (simp add: demo_batches_def)
  show ?thesis
    using h advance_last_write [OF h(4) _ a demo_encodes(2), of "(1, be 2 32773)"]
      advance_last_write [OF h(4) _ a demo_encodes(2), of "(1, be 2 32774)"] by auto
qed

text \<open>
  C4: Every reachable model has the shape the schedule promises: no level holds anything before
  its first incoming spill, the terminal level never takes a snapshot, a pending output is
  present exactly from the first incoming spill on and equals the merge of its recorded
  inputs, and the terminal level's current bucket holds no tombstone.
\<close>

theorem reachable_topology:
  assumes "reachable d m" and "0 < d"
  shows "topology merge [] d (sequence m) (levels m)
    \<and> no_tombstone map_of (curr (levels m ! (d - 1)))"
  using reachable_ok [OF assms] by (auto simp: model_ok_def scheduled_def)

theorem reachable_topology_witness:
  "\<exists>m m1 r1 m2 r2. model_init 2 = Inr m \<and> advance m (demo_batches ! 0) = Inr (m1, r1)
    \<and> advance m1 (demo_batches ! 1) = Inr (m2, r2)
    \<and> topology merge [] 2 (sequence m2) (levels m2) \<and> no_tombstone map_of (curr (levels m2 ! 1))"
proof -
  obtain m m1 r1 m2 r2 where h: "model_init 2 = Inr m" "advance m (demo_batches ! 0) = Inr (m1, r1)"
    "advance m1 (demo_batches ! 1) = Inr (m2, r2)" "reachable 2 m2"
    by (rule demo_history)
  then show ?thesis
    using reachable_topology [OF h(4)] by auto
qed

text \<open>
  The rows \<open>advance\<close> returns are the batch's effective changes: a key is in them exactly
  when its last operation differs from what the model showed, with that operation's value.
\<close>

theorem advance_rows_normalized:
  assumes "reachable d m" and "0 < d" and "advance m ops = Inr (m', rows)"
    and "mapE encode_operation ops = Inr rs"
  shows "map_of rows k = (case map_of (rev rs) k of None \<Rightarrow> None
    | Some v \<Rightarrow> if live (found map_of (levels m) k) \<noteq> v then Some v else None)"
proof -
  have m: "model_ok m" using reachable_ok assms(1,2) by blast
  obtain encoded where e: "encode_operations ops = Inr encoded"
    and r: "rows = normalize (logical m) encoded"
    using advance_Inr [OF m assms(3)] by metis
  have "map_of encoded = map_of (rev rs)"
    using encode_operations_last_write [OF e] assms(4) by auto
  then show ?thesis
    by (simp add: r map_of_normalize encode_operations_ok [OF e] model_ok_found [OF m]
        split: option.split)
qed

theorem advance_rows_normalized_witness:
  "\<exists>m m1 r1 m2 r2. model_init 2 = Inr m \<and> advance m (demo_batches ! 0) = Inr (m1, r1)
    \<and> advance m1 (demo_batches ! 1) = Inr (m2, r2)
    \<and> map_of r2 (1, be 2 32774) = Some None \<and> map_of r2 (1, be 2 32775) = None"
proof -
  obtain m m1 r1 m2 r2 where h: "model_init 2 = Inr m" "advance m (demo_batches ! 0) = Inr (m1, r1)"
    "advance m1 (demo_batches ! 1) = Inr (m2, r2)" "reachable 2 m1"
    by (rule demo_history)
  have a: "advance m1 [DeleteAccount 6, PutAccount 5 8 True, DeleteAccount 7] = Inr (m2, r2)"
    using h(3) by (simp add: demo_batches_def)
  show ?thesis
    using h advance_rows_normalized [OF h(4) _ a demo_encodes(2), of "(1, be 2 32774)"]
      advance_rows_normalized [OF h(4) _ a demo_encodes(2), of "(1, be 2 32775)"]
      demo_reads [OF h(1,2)] by auto
qed

text \<open>
  C5: The spill loop, which runs from the deepest level down and moves dictionaries in place,
  computes for each level what the level-by-level description says from the levels before the
  advance: the order of the iterations never lets a bucket fall through two levels at once.
\<close>

theorem spill_pass_levelwise:
  assumes "length lvs = d" and "i < d"
  shows "spill_pass d n lvs ! i = spilled merge [] d n lvs i"
  using assms spill_pass_spilled [of lvs d n] by simp

theorem spill_pass_levelwise_witness:
  "spill_pass 2 2 [\<lparr>curr = [((1, [7]), None)], snap = [], pending = None\<rparr>,
      \<lparr>curr = [], snap = [], pending = None\<rparr>] ! 1
    = \<lparr>curr = [], snap = [], pending = Some []\<rparr>"
  by (subst spill_pass_levelwise)
     (simp_all add: spilled_def receives_def spills_def half_def merges_with_empty_def merge_def
       dict_update_def)

text \<open>
  A history of batches that all encode runs to its end, and the model it reaches has counted
  every batch.
\<close>

theorem run_total:
  assumes "model_init d = Inr m" and "0 < d"
    and "\<forall>ops \<in> set history. \<exists>encoded. encode_operations ops = Inr encoded"
  shows "\<exists>m'. run m history = Inr m' \<and> reachable d m' \<and> sequence m' = length history"
proof -
  have "\<exists>m'. run m history = Inr m' \<and> reachable d m' \<and> sequence m' = sequence m + length history"
    if "reachable d m" "\<forall>ops \<in> set history. \<exists>encoded. encode_operations ops = Inr encoded" for m history
    using that
  proof (induction history arbitrary: m)
    case Nil
    then show ?case by simp
  next
    case (Cons ops history)
    then obtain encoded where "encode_operations ops = Inr encoded" by auto
    moreover have "model_ok m" using Cons.prems(1) assms(2) reachable_ok by blast
    ultimately obtain m' rows where a: "advance m ops = Inr (m', rows)" and "sequence m' = Suc (sequence m)"
      using advance_step(1) by fastforce
    moreover have "reachable d m'"
      using Cons.prems(1) a by (rule reachable.advanced)
    ultimately show ?case
      using Cons.IH [of m'] Cons.prems(2) by auto
  qed
  from this [of m history] show ?thesis
    using assms model_init_ok by (auto intro: reachable.start)
qed

theorem run_total_witness:
  "\<exists>m m'. model_init 2 = Inr m \<and> run m [demo_batches ! 0, []] = Inr m' \<and> sequence m' = 2"
proof -
  obtain m m1 r1 where h: "model_init 2 = Inr m" "advance m (demo_batches ! 0) = Inr (m1, r1)"
    using demo_history by metis
  then have "\<forall>ops \<in> set [demo_batches ! 0, []]. \<exists>encoded. encode_operations ops = Inr encoded"
    using advance_encodes [OF h(2)] demo_encodes(3) by simp
  then show ?thesis
    using h(1) run_total [OF h(1), of "[demo_batches ! 0, []]"] by auto
qed

end
