(* ===== verification/Oracle_Frames.thy ===== *)
theory Oracle_Frames
  imports Wire
begin

text \<open>
  The strict bucket reader of \<open>tools/check-core-oracle.py\<close>, \<open>rows_from_frame\<close> (lines 57 to
  80), and its agreement with the writer of theory Wire. The state of the code's closure
  \<open>take\<close>, the position in \<open>data\<close>, is kept as the bytes from that position on. The reader
  interprets the prefix-code contract, which gives that a frame determines its rows.
\<close>

section \<open>The reader\<close>

definition take_bytes :: "nat \<Rightarrow> bytes \<Rightarrow> (bytes \<times> bytes) result" where
  "take_bytes count rest =
     (let result = take count rest
      in bindE (guardE AssertionError (length result = count)) (\<lambda>_. Inr (result, drop count rest)))"

text \<open>One turn of the loop: the dictionary key and value of the next row.\<close>

definition read_row :: "bytes \<Rightarrow> ((string \<times> string option) \<times> bytes) result" where
  "read_row rest =
     bindE (take_bytes 4 rest) (\<lambda>(table, rest).
     bindE (take_bytes 4 rest) (\<lambda>(key_length, rest).
     bindE (take_bytes (be_val key_length) rest) (\<lambda>(key, rest).
     bindE (take_bytes 1 rest) (\<lambda>(present, rest).
     bindE (guardE AssertionError (present = [0] \<or> present = [1])) (\<lambda>_.
       if present = [1]
       then bindE (take_bytes 4 rest) (\<lambda>(value_length, rest).
            bindE (take_bytes (be_val value_length) rest) (\<lambda>(value, rest).
              Inr ((hex (table @ key), Some (hex value)), rest)))
       else Inr ((hex (table @ key), None), rest))))))"

fun read_rows :: "nat \<Rightarrow> bytes \<Rightarrow> (string, string option) dict
    \<Rightarrow> ((string, string option) dict \<times> bytes) result" where
  "read_rows 0 rest rows = Inr (rows, rest)"
| "read_rows (Suc count) rest rows =
     bindE (read_row rest) (\<lambda>((key, value), rest). read_rows count rest (AList.update key value rows))"

definition rows_from_frame :: "string \<Rightarrow> (string, string option) dict result" where
  "rows_from_frame encoded =
     bindE (fromhex encoded) (\<lambda>data.
     let tag = ascii ''bucketlist.bucket.v1'' @ [0] in
     bindE (guardE AssertionError (take (length tag) data = tag)) (\<lambda>_.
     bindE (take_bytes 8 (drop (length tag) data)) (\<lambda>(count, rest).
     bindE (read_rows (be_val count) rest []) (\<lambda>(rows, rest).
     bindE (guardE AssertionError (rest = [])) (\<lambda>_. Inr rows)))))"

section \<open>Reading what was written\<close>

fun oracle_row :: "row \<Rightarrow> string \<times> string option" where
  "oracle_row ((table, key), value) = (hex (be 4 (nat table) @ key), map_option hex value)"

lemma take_bytes_append [simp]: "length xs = n \<Longrightarrow> take_bytes n (xs @ rest) = Inr (xs, rest)"
  by (simp add: take_bytes_def Let_def)

lemma take_bytes_all [simp]: "length xs = n \<Longrightarrow> take_bytes n xs = Inr (xs, [])"
  by (simp add: take_bytes_def Let_def)

lemma take_bytes_Cons [simp]: "take_bytes (Suc 0) (x # rest) = Inr ([x], rest)"
  by (simp add: take_bytes_def Let_def)

lemma read_row_frame:
  "row_fits r \<Longrightarrow> read_row (row_frame r @ rest) = Inr (oracle_row r, rest)"
  by (cases r rule: row_fits.cases)
     (auto simp: read_row_def be_val_be split: option.splits)

lemma hex_table_key_inj:
  assumes "hex (be 4 (nat t) @ k) = hex (be 4 (nat u) @ l)"
    and "0 \<le> t" "t < 2 ^ 32" "0 \<le> u" "u < 2 ^ 32"
  shows "t = u \<and> k = l"
proof -
  have "be 4 (nat t) = be 4 (nat u) \<and> k = l"
    using assms(1) by (simp add: append_eq_append_conv)
  then show ?thesis
    using assms(2-) be_inj [of "nat t" 4 "nat u"] by (auto simp: nat_less_iff)
qed

lemma map_option_hex_inj: "map_option hex v = map_option hex w \<longleftrightarrow> v = w"
  by (cases v; cases w) simp_all

lemma oracle_row_inj:
  assumes "row_fits r" and "row_fits s" and "oracle_row r = oracle_row s"
  shows "r = s"
proof -
  obtain t k v u l w where r: "r = ((t, k), v)" and s: "s = ((u, l), w)"
    by (cases r; cases s) auto
  then show ?thesis
    using assms hex_table_key_inj [of t k u l] by (simp add: map_option_hex_inj)
qed

interpretation row_code: prefix_code row_frame row_fits oracle_row read_row
  by unfold_locales (fact read_row_frame, fact oracle_row_inj)

text \<open>A frame determines the rows: two buckets with one encoding hold the same items.\<close>

lemma bucket_frame_inj:
  assumes a: "rows_fit a" and b: "rows_fit b" and eq: "bucket_frame a = bucket_frame b"
  shows "sorted_items a = sorted_items b"
proof -
  have e: "be 8 (length a) @ concat (map row_frame (sorted_items a))
      = be 8 (length b) @ concat (map row_frame (sorted_items b))"
    using eq by (simp add: bucket_frame_def)
  then have "be 8 (length a) = be 8 (length b)"
    by (simp add: append_eq_append_conv)
  then have "length a = length b"
    using a b be_inj [of "length a" 8 "length b"] by (simp add: rows_fit_def)
  moreover have "concat (map row_frame (sorted_items a)) @ [] = concat (map row_frame (sorted_items b)) @ []"
    using e by (simp add: append_eq_append_conv)
  ultimately show ?thesis
    using row_code.concat_inj [of "sorted_items a" "sorted_items b" "[]" "[]"] a b
    by (simp add: rows_fit_def)
qed

lemma bucket_frame_map_of:
  assumes a: "rows_fit a" and b: "rows_fit b"
  shows "bucket_frame a = bucket_frame b \<longleftrightarrow> map_of a = map_of b"
proof
  assume "bucket_frame a = bucket_frame b"
  then have "sorted_items a = sorted_items b"
    by (rule bucket_frame_inj [OF a b])
  then show "map_of a = map_of b"
    using a b by (metis map_of_sorted_items rows_fit_def)
next
  assume eq: "map_of a = map_of b"
  then have items: "sorted_items a = sorted_items b"
    using a b by (intro sorted_items_eq) (simp_all add: rows_fit_def)
  then have "length a = length b"
    by (metis sorted_items_length)
  with items show "bucket_frame a = bucket_frame b"
    by (simp add: bucket_frame_def)
qed

text \<open>The loop appends the rows in the order of the frame.\<close>

lemma read_rows_frames:
  assumes "\<forall>r \<in> set rs. row_fits r" and "distinct (map (fst \<circ> oracle_row) rs)"
    and "\<forall>r \<in> set rs. fst (oracle_row r) \<notin> fst ` set rows"
  shows "read_rows (length rs) (concat (map row_frame rs) @ rest) rows
    = Inr (rows @ map oracle_row rs, rest)"
  using assms
proof (induction rs arbitrary: rows)
  case Nil
  then show ?case by simp
next
  case (Cons r rs)
  obtain k v where r: "oracle_row r = (k, v)" by (cases "oracle_row r")
  have "AList.update k v rows = rows @ [(k, v)]"
    using Cons.prems(3) r by (intro update_new_key) auto
  moreover have "read_rows (length rs) (concat (map row_frame rs) @ rest) (rows @ [(k, v)])
      = Inr ((rows @ [(k, v)]) @ map oracle_row rs, rest)"
    using Cons.prems r by (intro Cons.IH) (auto simp: image_iff)
  ultimately show ?case
    using Cons.prems(1) r by (simp add: read_row_frame)
qed

lemma distinct_oracle_keys:
  assumes "rows_fit rows"
  shows "distinct (map (fst \<circ> oracle_row) (sorted_items rows))"
proof -
  have "inj_on (fst \<circ> oracle_row) (set rows)"
  proof (rule inj_onI)
    fix r s assume r: "r \<in> set rows" and s: "s \<in> set rows"
      and eq: "(fst \<circ> oracle_row) r = (fst \<circ> oracle_row) s"
    obtain t k v u l w where rs: "r = ((t, k), v)" "s = ((u, l), w)"
      by (cases r; cases s) auto
    moreover have "row_fits r" "row_fits s"
      using assms r s by (auto simp: rows_fit_def)
    ultimately have "fst r = fst s"
      using eq hex_table_key_inj [of t k u l] by simp
    then show "r = s"
      using assms r s by (auto simp: rows_fit_def dict_ok_def distinct_map dest: inj_onD)
  qed
  moreover have "distinct (sorted_items rows)"
    using assms by (simp add: rows_fit_def dict_ok_def distinct_map sorted_items_def)
  ultimately show ?thesis
    by (simp add: distinct_map)
qed

section \<open>Reading less or more than was written\<close>

text \<open>A reader that succeeds on \<open>p\<close> reads the same from any extension of \<open>p\<close>.\<close>

definition extends :: "(bytes \<Rightarrow> ('a \<times> bytes) result) \<Rightarrow> bool" where
  "extends f \<longleftrightarrow> (\<forall>p x rest q. f p = Inr (x, rest) \<longrightarrow> f (p @ q) = Inr (x, rest @ q))"

lemma extendsD: "extends f \<Longrightarrow> f p = Inr (x, rest) \<Longrightarrow> f (p @ q) = Inr (x, rest @ q)"
  by (simp add: extends_def)

lemma extends_take: "extends (take_bytes n)"
  by (auto simp: extends_def take_bytes_def Let_def guardE_def split: if_splits)

lemma extends_return: "extends (\<lambda>p. Inr (x, p))"
  by (simp add: extends_def)

lemma extends_bind: "extends f \<Longrightarrow> (\<And>x. extends (g x)) \<Longrightarrow> extends (\<lambda>p. bindE (f p) (\<lambda>(x, rest). g x rest))"
  unfolding extends_def by (fastforce simp: bindE_Inr_iff)

lemma extends_guard: "extends g \<Longrightarrow> extends (\<lambda>p. bindE (guardE e b) (\<lambda>_. g p))"
  by (auto simp: extends_def bindE_Inr_iff)

lemma extends_if: "extends f \<Longrightarrow> extends g \<Longrightarrow> extends (\<lambda>p. if b then f p else g p)"
  by (simp add: extends_def)

lemmas extends_intros = extends_bind extends_take extends_guard extends_if extends_return

lemma extends_read_row: "extends read_row"
  unfolding read_row_def by (intro extends_intros)

lemma read_rows_extend:
  "read_rows n p rows = Inr (d, rest) \<Longrightarrow> read_rows n (p @ q) rows = Inr (d, rest @ q)"
proof (induction n arbitrary: p rows)
  case 0
  then show ?case by simp
next
  case (Suc n)
  then obtain k v r where row: "read_row p = Inr ((k, v), r)"
    and rows: "read_rows n r (AList.update k v rows) = Inr (d, rest)"
    by (auto simp: bindE_Inr_iff)
  have "read_row (p @ q) = Inr ((k, v), r @ q)"
    using extends_read_row row by (rule extendsD)
  with Suc.IH [OF rows] show ?case by simp
qed

lemma length_of_prefix: "take (length t) p = t \<Longrightarrow> length t \<le> length p"
  by (metis length_take min.cobounded1)

text \<open>The frame of rows that fit reads back as the rows, in the frame's order.\<close>

lemma read_bucket_frame:
  assumes fits: "rows_fit rows"
  shows "rows_from_frame (hex (bucket_frame rows)) = Inr (map oracle_row (sorted_items rows))"
proof -
  have "read_rows (length rows) (concat (map row_frame (sorted_items rows)) @ []) []
      = Inr ([] @ map oracle_row (sorted_items rows), [])"
    using fits distinct_oracle_keys [OF fits]
    by (subst sorted_items_length [symmetric], intro read_rows_frames) (auto simp: rows_fit_def)
  moreover have "be_val (be 8 (length rows)) = length rows"
    using fits by (simp add: be_val_be rows_fit_def)
  ultimately show ?thesis
    by (simp add: rows_from_frame_def bucket_frame_def bucket_domain_def Let_def)
qed

section \<open>Properties of the reader\<close>

text \<open>
  C14: Reading back what \<open>encode_bucket\<close> wrote returns every row once, in the frame's order, under
  the hexadecimal table and key, tombstones as \<open>None\<close>.
\<close>

theorem frame_roundtrip:
  assumes "dict_ok rows" and "encode_bucket rows = Inr frame"
  shows "rows_from_frame (hex frame) = Inr (map oracle_row (sorted_items rows))"
  using assms read_bucket_frame by (auto simp: encode_bucket_eq split: if_splits)

theorem frame_roundtrip_witness:
  "\<exists>frame. encode_bucket [((7, [0x6b]), Some [0x76])] = Inr frame
    \<and> rows_from_frame (hex frame) = Inr [(''000000076b'', Some ''76'')]"
proof -
  let ?rows = "[((7, [0x6b]), Some [0x76])] :: rows"
  have ok: "dict_ok ?rows" by (simp add: dict_ok_def)
  then have e: "encode_bucket ?rows = Inr (bucket_frame ?rows)"
    by (simp add: encode_bucket_eq rows_fit_def)
  have "map oracle_row (sorted_items ?rows) = [(''000000076b'', Some ''76'')]"
    by (simp add: sorted_items_def hex_def hex_digit_def be_numeral)
  then show ?thesis
    using e frame_roundtrip [OF ok e] by simp
qed

text \<open>
  The frame is canonical: two dictionaries have the same frame exactly when they are the same
  map, whatever order their rows were inserted in.
\<close>

theorem frame_canonical:
  assumes "dict_ok a" and "dict_ok b" and "encode_bucket a = Inr f" and "encode_bucket b = Inr g"
  shows "f = g \<longleftrightarrow> map_of a = map_of b"
  using assms bucket_frame_map_of [of a b] by (auto simp: encode_bucket_eq split: if_splits)

theorem frame_canonical_witness:
  "\<exists>f g. encode_bucket [((1, [1]), None), ((1, [0]), Some [])] = Inr f
    \<and> encode_bucket [((1, [0]), Some []), ((1, [1]), None)] = Inr g \<and> f = g"
proof -
  let ?a = "[((1, [1]), None), ((1, [0]), Some [])] :: rows"
  let ?b = "[((1, [0]), Some []), ((1, [1]), None)] :: rows"
  have ok: "dict_ok ?a" "dict_ok ?b" by (simp_all add: dict_ok_def)
  then have e: "encode_bucket ?a = Inr (bucket_frame ?a)" "encode_bucket ?b = Inr (bucket_frame ?b)"
    by (simp_all add: encode_bucket_eq rows_fit_def)
  have "map_of ?a = map_of ?b"
    unfolding map_of.simps by (rule fun_upd_twist) simp
  then show ?thesis
    using e frame_canonical [OF ok e] by blast
qed

text \<open>
  C15: The reader is strict: no accepted frame is a proper prefix of another, so neither a
  truncated frame nor one with trailing bytes is accepted.
\<close>

theorem reader_prefix_free:
  assumes "rows_from_frame (hex p) = Inr a" and "rows_from_frame (hex (p @ q)) = Inr b"
  shows "q = []"
proof -
  let ?tag = "ascii ''bucketlist.bucket.v1'' @ [0]"
  from assms(1) obtain c r d where tag: "take (length ?tag) p = ?tag"
    and c: "take_bytes 8 (drop (length ?tag) p) = Inr (c, r)" and d: "read_rows (be_val c) r [] = Inr (d, [])"
    by (auto simp: rows_from_frame_def Let_def bindE_Inr_iff)
  have "length ?tag \<le> length p"
    using tag by (rule length_of_prefix)
  then have "drop (length ?tag) (p @ q) = drop (length ?tag) p @ q"
    by simp
  then have "take_bytes 8 (drop (length ?tag) (p @ q)) = Inr (c, r @ q)"
    using extendsD [OF extends_take c] by simp
  with assms(2) show ?thesis
    using read_rows_extend [OF d, of q] by (auto simp: rows_from_frame_def Let_def bindE_Inr_iff)
qed

theorem reader_prefix_free_witness:
  "\<exists>frame. encode_bucket [] = Inr frame \<and> (\<forall>q b. rows_from_frame (hex (frame @ q)) = Inr b \<longrightarrow> q = [])"
proof -
  have e: "encode_bucket [] = Inr (bucket_frame [])"
    by (simp add: encode_bucket_eq)
  have "rows_from_frame (hex (bucket_frame [])) = Inr []"
    by (simp add: rows_from_frame_def bucket_frame_def bucket_domain_def Let_def be_val_be sorted_items_def)
  then show ?thesis
    using e reader_prefix_free by blast
qed

end
