(* ===== verification/Commitments.thy ===== *)
theory Commitments
  imports Reference_Model Oracle_Frames
begin

text \<open>
  \<open>Model.hashes\<close> of \<open>tools/reference.py\<close> (lines 166 to 175): the list root, the continuation
  hash that binds the pending outputs, and the database commitment. The lemmas give the three
  digests in closed form for a model whose rows fit their frames, and show what a commitment
  binds: two states with one commitment agree in every bucket, unless the two computations
  between them hashed two different byte strings to one digest.
\<close>

section \<open>The digests of a model\<close>

definition level_domain :: bytes where
  "level_domain = ascii ''bucketlist.level.v1'' @ [0]"

definition list_domain :: bytes where
  "list_domain = ascii ''bucketlist.list.v1'' @ [0]"

definition continuation_domain :: bytes where
  "continuation_domain = ascii ''bucketlist.continuation.v1'' @ [0]"

definition database_domain :: bytes where
  "database_domain = ascii ''bucketlist.database.v1'' @ [0]"

definition level_hash :: "nat \<times> rows level \<Rightarrow> bytes result" where
  "level_hash il = (case il of (i, l) \<Rightarrow>
     bindE (u32 (int i)) (\<lambda>n.
     bindE (bucket_hash (curr l)) (\<lambda>c.
     bindE (bucket_hash (snap l)) (\<lambda>s.
       Inr (digest (level_domain @ n @ c @ s))))))"

definition pending_entry :: "nat \<times> rows level \<Rightarrow> bytes result" where
  "pending_entry il = (case il of (i, l) \<Rightarrow>
     bindE (u32 (int i)) (\<lambda>n.
     bindE (case pending l of None \<Rightarrow> Inr [0]
            | Some p \<Rightarrow> bindE (bucket_hash p) (\<lambda>h. Inr ([1] @ h))) (\<lambda>e.
       Inr (n @ e))))"

record commitment =
  root_hash :: bytes
  continuation_hash :: bytes
  database_hash :: bytes

definition hashes :: "model \<Rightarrow> commitment result" where
  "hashes m =
     (let indexed = zip [0..<length (levels m)] (levels m) in
      bindE (mapE level_hash indexed) (\<lambda>level_hashes.
      let root = digest (list_domain @ profile m @ concat level_hashes) in
      bindE (mapE pending_entry indexed) (\<lambda>entries.
      let continuation = digest (continuation_domain @ profile m @ concat entries) in
      bindE schema_hash (\<lambda>schema.
      bindE (u64 (int (sequence m))) (\<lambda>seq.
        Inr \<lparr>root_hash = root, continuation_hash = continuation,
             database_hash = digest (database_domain @ schema @ profile m @ seq @ root @ continuation)\<rparr>)))))"

section \<open>The digests in closed form\<close>

definition rows_digest :: "rows \<Rightarrow> bytes" where
  "rows_digest rows = digest (bucket_frame rows)"

definition level_text :: "nat \<Rightarrow> rows level \<Rightarrow> bytes" where
  "level_text i l = level_domain @ be 4 i @ rows_digest (curr l) @ rows_digest (snap l)"

definition pending_text :: "nat \<Rightarrow> rows level \<Rightarrow> bytes" where
  "pending_text i l = be 4 i @ (case pending l of None \<Rightarrow> [0] | Some p \<Rightarrow> [1] @ rows_digest p)"

definition root_text :: "model \<Rightarrow> bytes" where
  "root_text m = list_domain @ profile m
     @ concat (map (\<lambda>i. digest (level_text i (levels m ! i))) [0..<length (levels m)])"

definition continuation_text :: "model \<Rightarrow> bytes" where
  "continuation_text m = continuation_domain @ profile m
     @ concat (map (\<lambda>i. pending_text i (levels m ! i)) [0..<length (levels m)])"

definition database_text :: "bytes \<Rightarrow> model \<Rightarrow> bytes" where
  "database_text schema m = database_domain @ schema @ profile m @ be 8 (sequence m)
     @ digest (root_text m) @ digest (continuation_text m)"

text \<open>A level, and a model, all of whose rows and counters fit their frames.\<close>

definition level_fits :: "rows level \<Rightarrow> bool" where
  "level_fits l \<longleftrightarrow> rows_fit (curr l) \<and> rows_fit (snap l) \<and> (\<forall>p. pending l = Some p \<longrightarrow> rows_fit p)"

definition model_fits :: "model \<Rightarrow> bool" where
  "model_fits m \<longleftrightarrow> length (levels m) \<le> 2 ^ 32 \<and> sequence m < 2 ^ 64
     \<and> (\<forall>l \<in> set (levels m). level_fits l)"

lemma length_digest [simp, byte_simps]: "length (digest x) = 32"
  by (simp add: digest_def)

lemma length_rows_digest [simp, byte_simps]: "length (rows_digest r) = 32"
  by (simp add: rows_digest_def)

lemma bucket_hash_eq: "rows_fit r \<Longrightarrow> bucket_hash r = Inr (rows_digest r)"
  by (simp add: bucket_hash_def encode_bucket_eq rows_fit_def [of r] rows_digest_def)

lemma level_hash_eq:
  "level_fits l \<Longrightarrow> i < 2 ^ 32 \<Longrightarrow> level_hash (i, l) = Inr (digest (level_text i l))"
  by (simp add: level_hash_def level_fits_def bucket_hash_eq u32_eq level_text_def)

lemma pending_entry_eq:
  "level_fits l \<Longrightarrow> i < 2 ^ 32 \<Longrightarrow> pending_entry (i, l) = Inr (pending_text i l)"
  by (auto simp: pending_entry_def level_fits_def bucket_hash_eq u32_eq pending_text_def
      split: option.split)

lemma map_indexed: "map (\<lambda>(i, x). f i x) (zip [0..<length xs] xs) = map (\<lambda>i. f i (xs ! i)) [0..<length xs]"
  by (rule nth_equalityI) auto

lemma mapE_indexed:
  assumes "length lvs \<le> 2 ^ 32" and "\<forall>l \<in> set lvs. level_fits l"
    and "\<And>i l. level_fits l \<Longrightarrow> i < 2 ^ 32 \<Longrightarrow> f (i, l) = Inr (g i l)"
  shows "mapE f (zip [0..<length lvs] lvs) = Inr (map (\<lambda>i. g i (lvs ! i)) [0..<length lvs])"
proof -
  have "mapE f (zip [0..<length lvs] lvs) = Inr (map (\<lambda>(i, l). g i l) (zip [0..<length lvs] lvs))"
    using assms by (intro mapE_total) (auto simp: set_zip)
  then show ?thesis
    by (simp add: map_indexed)
qed

lemma schema_hash_total: "\<exists>h. schema_hash = Inr h \<and> length h = 32"
  by (simp add: schema_hash_def schema_descriptor_def u16_eq u32_eq namespace_def version_def ascii_def)

lemma hashes_eq:
  assumes "model_fits m" and "schema_hash = Inr schema"
  shows "hashes m = Inr \<lparr>root_hash = digest (root_text m),
    continuation_hash = digest (continuation_text m),
    database_hash = digest (database_text schema m)\<rparr>"
proof -
  have "mapE level_hash (zip [0..<length (levels m)] (levels m))
      = Inr (map (\<lambda>i. digest (level_text i (levels m ! i))) [0..<length (levels m)])"
    using assms by (intro mapE_indexed level_hash_eq) (auto simp: model_fits_def)
  moreover have "mapE pending_entry (zip [0..<length (levels m)] (levels m))
      = Inr (map (\<lambda>i. pending_text i (levels m ! i)) [0..<length (levels m)])"
    using assms by (intro mapE_indexed pending_entry_eq) (auto simp: model_fits_def)
  moreover have "u64 (int (sequence m)) = Inr (be 8 (sequence m))"
    using assms by (simp add: u64_eq model_fits_def)
  ultimately show ?thesis
    unfolding hashes_def Let_def root_text_def continuation_text_def database_text_def
    by (simp only: bindE.simps assms(2))
qed

text \<open>Conversely, hashing only succeeds on a model that fits.\<close>

lemma bucket_hash_fits: "bucket_hash r = Inr h \<Longrightarrow> dict_ok r \<Longrightarrow> rows_fit r"
  by (simp add: bucket_hash_def encode_bucket_eq split: if_splits)

lemma hashes_fits:
  assumes h: "hashes m = Inr c" and ok: "levels_ok dict_ok (levels m)"
  shows "model_fits m"
proof -
  obtain ls es where ls: "mapE level_hash (zip [0..<length (levels m)] (levels m)) = Inr ls"
    and es: "mapE pending_entry (zip [0..<length (levels m)] (levels m)) = Inr es"
    and seq: "sequence m < 2 ^ 64"
    using h by (auto simp: hashes_def Let_def bindE_Inr_iff u64_eq split: if_splits)
  have each: "\<exists>x y. level_hash (i, levels m ! i) = Inr x \<and> pending_entry (i, levels m ! i) = Inr y"
    if "i < length (levels m)" for i
    using ls es that by (auto simp: mapE_Inr_iff list_all2_conv_all_nth)
  have fits: "i < 2 ^ 32 \<and> level_fits (levels m ! i)" if i: "i < length (levels m)" for i
    using each [OF i] levels_ok_nth [OF ok i]
    by (auto simp: level_hash_def pending_entry_def bindE_Inr_iff u32_eq level_fits_def
        dest!: bucket_hash_fits split: if_splits option.splits)
  have "length (levels m) \<le> 2 ^ 32"
    using fits [of "length (levels m) - 1"] by (cases "length (levels m)") auto
  with fits seq show ?thesis
    by (auto simp: model_fits_def in_set_conv_nth)
qed

section \<open>What a commitment binds\<close>

text \<open>Every byte string that a computation of the commitment of \<open>m\<close> hashes.\<close>

definition hashed_texts :: "bytes \<Rightarrow> model \<Rightarrow> bytes set" where
  "hashed_texts schema m = {database_text schema m, root_text m, continuation_text m}
     \<union> (\<Union>i < length (levels m). {level_text i (levels m ! i),
          bucket_frame (curr (levels m ! i)), bucket_frame (snap (levels m ! i))}
          \<union> (case pending (levels m ! i) of None \<Rightarrow> {} | Some p \<Rightarrow> {bucket_frame p}))"

lemma hashed_texts_member:
  "database_text schema m \<in> hashed_texts schema m"
  "root_text m \<in> hashed_texts schema m"
  "continuation_text m \<in> hashed_texts schema m"
  "i < length (levels m) \<Longrightarrow> level_text i (levels m ! i) \<in> hashed_texts schema m"
  "i < length (levels m) \<Longrightarrow> bucket_frame (curr (levels m ! i)) \<in> hashed_texts schema m"
  "i < length (levels m) \<Longrightarrow> bucket_frame (snap (levels m ! i)) \<in> hashed_texts schema m"
  "i < length (levels m) \<Longrightarrow> pending (levels m ! i) = Some p \<Longrightarrow> bucket_frame p \<in> hashed_texts schema m"
  unfolding hashed_texts_def by force+

lemma pending_text_prefix:
  "pending_text i l @ r = pending_text i l' @ s \<Longrightarrow> pending_text i l = pending_text i l'"
  by (cases "pending l"; cases "pending l'") (simp_all add: pending_text_def)

lemma bucket_bound:
  assumes "rows_fit a" and "rows_fit b" and "rows_digest a = rows_digest b"
    and "\<not> collision A B" and "bucket_frame a \<in> A" and "bucket_frame b \<in> B"
  shows "map_of a = map_of b"
  using assms bucket_frame_map_of no_collisionD unfolding rows_digest_def by blast

lemma commitment_bound:
  assumes fits: "model_fits m" "model_fits m'"
    and profiles: "length (profile m) = 32" "length (profile m') = 32"
    and schema: "length schema = 32"
    and eq: "digest (database_text schema m) = digest (database_text schema m')"
    and nc: "\<not> collision (hashed_texts schema m) (hashed_texts schema m')"
  shows "profile m = profile m'" and "sequence m = sequence m'"
    and "length (levels m) = length (levels m')"
    and "i < length (levels m) \<Longrightarrow> map_of (curr (levels m ! i)) = map_of (curr (levels m' ! i))
      \<and> map_of (snap (levels m ! i)) = map_of (snap (levels m' ! i))
      \<and> rel_option (\<lambda>p q. map_of p = map_of q) (pending (levels m ! i)) (pending (levels m' ! i))"
proof -
  note hit = no_collisionD [OF nc]
  have db: "database_text schema m = database_text schema m'"
    using hashed_texts_member(1) hashed_texts_member(1) eq by (rule hit)
  then have seq: "be 8 (sequence m) = be 8 (sequence m')" and prof: "profile m = profile m'"
    and root: "digest (root_text m) = digest (root_text m')"
    and cont: "digest (continuation_text m) = digest (continuation_text m')"
    by (simp_all add: database_text_def append_eq_append_conv profiles schema)
  show "profile m = profile m'" by (rule prof)
  show "sequence m = sequence m'"
    using seq fits be_inj [of "sequence m" 8 "sequence m'"] by (simp add: model_fits_def)
  have "root_text m = root_text m'"
    using hashed_texts_member(2) hashed_texts_member(2) root by (rule hit)
  moreover have "continuation_text m = continuation_text m'"
    using hashed_texts_member(3) hashed_texts_member(3) cont by (rule hit)
  ultimately have r: "concat (map (\<lambda>i. digest (level_text i (levels m ! i))) [0..<length (levels m)])
      = concat (map (\<lambda>i. digest (level_text i (levels m' ! i))) [0..<length (levels m')])"
    and c: "concat (map (\<lambda>i. pending_text i (levels m ! i)) [0..<length (levels m)])
      = concat (map (\<lambda>i. pending_text i (levels m' ! i)) [0..<length (levels m')])"
    by (simp_all add: root_text_def continuation_text_def prof)
  have "length (concat (map (\<lambda>i. digest (level_text i (l i))) [0..<n])) = 32 * n" for l n
    by (induction n) simp_all
  from this [of _ "length (levels m)"] this [of _ "length (levels m')"]
  show len: "length (levels m) = length (levels m')"
    using arg_cong [OF r, of length] by simp
  assume i: "i < length (levels m)"
  let ?l = "levels m ! i" and ?l' = "levels m' ! i"
  have "digest (level_text i ?l) = digest (level_text i ?l')"
    using concat_map_prefix [of "[0..<length (levels m)]" "\<lambda>i. digest (level_text i (levels m ! i))"
        "\<lambda>i. digest (level_text i (levels m' ! i))" "[]" "[]"] r i len
    by (simp add: append_eq_append_conv)
  then have "level_text i ?l = level_text i ?l'"
    using i len by (intro hit [OF hashed_texts_member(4) hashed_texts_member(4)]) simp_all
  then have lv: "rows_digest (curr ?l) = rows_digest (curr ?l')" "rows_digest (snap ?l) = rows_digest (snap ?l')"
    by (simp_all add: level_text_def append_eq_append_conv)
  have pn: "pending_text i ?l = pending_text i ?l'"
    using concat_map_prefix [of "[0..<length (levels m)]" "\<lambda>i. pending_text i (levels m ! i)"
        "\<lambda>i. pending_text i (levels m' ! i)" "[]" "[]"] c i len pending_text_prefix by auto
  have fit: "level_fits ?l" "level_fits ?l'"
    using fits i len by (auto simp: model_fits_def)
  have frames: "bucket_frame (curr ?l) \<in> hashed_texts schema m" "bucket_frame (curr ?l') \<in> hashed_texts schema m'"
    "bucket_frame (snap ?l) \<in> hashed_texts schema m" "bucket_frame (snap ?l') \<in> hashed_texts schema m'"
    using i len by (simp_all add: hashed_texts_member)
  have pframes: "pending ?l = Some p \<Longrightarrow> bucket_frame p \<in> hashed_texts schema m"
    "pending ?l' = Some q \<Longrightarrow> bucket_frame q \<in> hashed_texts schema m'" for p q
    using i len by (simp_all add: hashed_texts_member)
  have "rel_option (\<lambda>p q. map_of p = map_of q) (pending ?l) (pending ?l')"
    using pn fit nc pframes
    by (auto simp: pending_text_def level_fits_def split: option.splits intro: bucket_bound)
  moreover have "map_of (curr ?l) = map_of (curr ?l')" "map_of (snap ?l) = map_of (snap ?l')"
    using fit lv frames nc by (auto simp: level_fits_def intro: bucket_bound)
  ultimately show "map_of (curr ?l) = map_of (curr ?l') \<and> map_of (snap ?l) = map_of (snap ?l')
      \<and> rel_option (\<lambda>p q. map_of p = map_of q) (pending ?l) (pending ?l')"
    by simp
qed

end
