(* ===== verification/Histories.thy ===== *)
theory Histories
  imports Commitments
begin

text \<open>
  What a history of batches makes of the commitment of \<open>tools/reference.py\<close>: a history whose
  operations encode reaches a model that hashes, and the database hash determines, and is
  determined by, what the buckets of a reachable model hold. The rows of a history are followed
  through every merge by interpreting the bucket contract once more, on dictionaries whose rows
  all come from a given set.
\<close>

section \<open>Rows come from the batches\<close>

lemma set_merge: "set (merge older newer terminal) \<subseteq> set older \<union> set newer"
  using set_dict_update [of older newer] by (auto simp: merge_def Let_def)

definition within :: "row set \<Rightarrow> rows \<Rightarrow> bool" where
  "within R rows \<longleftrightarrow> dict_ok rows \<and> set rows \<subseteq> R"

interpretation rows_within: buckets "map_of :: rows \<Rightarrow> row_key \<Rightarrow> bytes option option" "[]" merge "within R" for R
proof unfold_locales
  fix a b :: rows and t :: bool
  assume "within R a" and "within R b"
  then show "within R (merge a b t)"
    using set_merge [of a b t] unfolding within_def by blast
qed (simp_all add: within_def map_of_merge)

lemma within_fits:
  assumes "within R rows" and "\<forall>r \<in> R. row_fits r" and "finite R" and "card R < 2 ^ 64"
  shows "rows_fit rows"
proof -
  have "distinct rows" and "set rows \<subseteq> R"
    using assms(1) by (auto simp: within_def dict_ok_def distinct_map)
  then have "length rows \<le> card R"
    using assms(3) by (metis card_mono distinct_card)
  then show ?thesis
    using assms by (auto simp: rows_fit_def within_def)
qed

text \<open>The rows an operation list can encode to.\<close>

definition op_rows :: "operation list \<Rightarrow> row set" where
  "op_rows ops = {r. \<exists>p \<in> set ops. encode_operation p = Inr r}"

lemma op_rows_card: "finite (op_rows ops) \<and> card (op_rows ops) \<le> length ops"
proof -
  let ?S = "(\<lambda>p. projr (encode_operation p)) ` set ops"
  have sub: "op_rows ops \<subseteq> ?S"
    by (force simp: op_rows_def image_iff)
  have "card ?S \<le> length ops"
    using card_image_le [of "set ops" "\<lambda>p. projr (encode_operation p)"] card_length [of ops] by simp
  then show ?thesis
    using sub card_mono [OF _ sub] finite_subset [OF sub] by simp
qed

lemma encode_operations_within:
  assumes "encode_operations ops = Inr encoded" and "op_rows ops \<subseteq> R"
  shows "within R encoded"
proof -
  obtain rs where rs: "mapE encode_operation ops = Inr rs" and e: "encoded = dict_update [] rs"
    using assms(1) unfolding encode_operations_def encode_operations_from_iff by blast
  have "set rs \<subseteq> op_rows ops"
    using rs unfolding mapE_Inr_iff op_rows_def
    by (fastforce simp: list_all2_conv_all_nth in_set_conv_nth)
  then show ?thesis
    using assms encode_operations_ok [OF assms(1)] set_dict_update [of "[]" rs]
    by (auto simp: within_def e)
qed

lemma advance_within:
  assumes m: "model_ok m" and l: "levels_ok (within R) (levels m)"
    and a: "advance m ops = Inr (m', rows)" and R: "op_rows ops \<subseteq> R"
  shows "levels_ok (within R) (levels m')"
proof -
  obtain encoded where e: "encode_operations ops = Inr encoded"
    using advance_encodes [OF a] by blast
  let ?rows = "normalize (logical m) encoded"
  have m': "levels m' = advanced merge [] (depth m) (Suc (sequence m)) (levels m) ?rows"
    using a advance_step(1) [OF m e] by auto
  have "topology merge [] (depth m) (sequence m) (levels m)" and "0 < depth m"
    using m by (simp_all add: model_ok_def scheduled_def)
  moreover have "within R ?rows"
    using encode_operations_within [OF e R] by (auto simp: within_def normalize_def)
  ultimately show ?thesis
    unfolding m' using l by (intro rows_within.levels_ok_advanced)
qed

lemma run_within:
  assumes "run m history = Inr m'" and "model_ok m" and "levels_ok (within R) (levels m)"
    and "op_rows (concat history) \<subseteq> R"
  shows "model_ok m' \<and> levels_ok (within R) (levels m') \<and> depth m' = depth m
    \<and> sequence m' = sequence m + length history"
  using assms
proof (induction history arbitrary: m)
  case Nil
  then show ?case by simp
next
  case (Cons ops history)
  then obtain m1 rows where a: "advance m ops = Inr (m1, rows)" and r: "run m1 history = Inr m'"
    by (auto simp: bindE_Inr_iff)
  have R: "op_rows ops \<subseteq> R" "op_rows (concat history) \<subseteq> R"
    using Cons.prems(4) by (auto simp: op_rows_def)
  have "levels_ok (within R) (levels m1)"
    by (rule advance_within [OF Cons.prems(2,3) a R(1)])
  moreover have "model_ok m1 \<and> depth m1 = depth m \<and> sequence m1 = Suc (sequence m)"
    by (rule advance_Inr [OF Cons.prems(2) a]) simp
  ultimately show ?case
    using Cons.IH [OF r _ _ R(2)] by simp
qed

text \<open>A history of operations that encode reaches a model whose rows and counters fit.\<close>

definition history_fits :: "operation list list \<Rightarrow> bool" where
  "history_fits history \<longleftrightarrow> (\<forall>p \<in> set (concat history). op_encodes p)
     \<and> length (concat history) < 2 ^ 64 \<and> length history < 2 ^ 64"

lemma run_fits:
  assumes "model_init d = Inr m" and "0 < d" and "history_fits history" and "run m history = Inr m'"
  shows "model_fits m'"
proof -
  let ?R = "op_rows (concat history)"
  have m: "model_ok m" "depth m = d" "sequence m = 0"
    using model_init_ok [OF assms(1,2)] by auto
  have "levels_ok (within ?R) (levels m)"
    using assms(1) by (auto simp: model_init_def bindE_Inr_iff levels_ok_def within_def)
  then have r: "model_ok m' \<and> levels_ok (within ?R) (levels m') \<and> depth m' = depth m
      \<and> sequence m' = sequence m + length history"
    using assms(4) m(1) by (intro run_within) auto
  have "row_fits r" if r: "r \<in> ?R" for r
  proof -
    obtain p where p: "p \<in> set (concat history)" "encode_operation p = Inr r"
      using r unfolding op_rows_def by blast
    then have "op_encodes p"
      using assms(3) unfolding history_fits_def by blast
    then show ?thesis
      using p(2) unfolding op_encodes_def by auto
  qed
  then have "\<forall>r \<in> ?R. row_fits r" by blast
  moreover have "finite ?R" "card ?R < 2 ^ 64"
    using op_rows_card [of "concat history"] assms(3) unfolding history_fits_def by linarith+
  ultimately have "rows_fit b" if "within ?R b" for b
    using that by (intro within_fits)
  then have "\<forall>l \<in> set (levels m'). level_fits l"
    using r by (auto simp: levels_ok_def level_fits_def)
  moreover have "length (levels m') \<le> 2 ^ 32"
    using r by (auto simp: model_ok_def scheduled_def topology_def)
  ultimately show ?thesis
    using r m assms(3) by (simp add: model_fits_def history_fits_def)
qed

lemma op_encodes_encode: "\<forall>p \<in> set ops. op_encodes p \<Longrightarrow> \<exists>encoded. encode_operations ops = Inr encoded"
  using encode_operations_from_fits [of ops "[]"] by (auto simp: encode_operations_def)

section \<open>The commitment and the maps\<close>

text \<open>Two levels that hold the same maps, whatever order their dictionaries were filled in.\<close>

definition same_level :: "rows level \<Rightarrow> rows level \<Rightarrow> bool" where
  "same_level l l' \<longleftrightarrow> map_of (curr l) = map_of (curr l') \<and> map_of (snap l) = map_of (snap l')
     \<and> rel_option (\<lambda>p q. map_of p = map_of q) (pending l) (pending l')"

lemma found_same:
  "list_all2 same_level lvs lvs' \<Longrightarrow> found map_of lvs k = found map_of lvs' k"
  by (induction rule: list_all2_induct) (auto simp: same_level_def)

lemma logical_same:
  assumes m: "model_ok m" "model_ok m'" and same: "list_all2 same_level (levels m) (levels m')"
  shows "map_of (logical m) = map_of (logical m')"
proof
  fix k
  have "live (map_of (logical m) k) = live (map_of (logical m') k)"
    using found_same [OF same, of k] model_ok_found [OF m(1), of k] model_ok_found [OF m(2), of k] by simp
  then show "map_of (logical m) k = map_of (logical m') k"
    using no_tombstone_live [of map_of "logical m" k] no_tombstone_live [of map_of "logical m'" k] m
    by (simp add: model_ok_def)
qed

lemma rows_digest_same:
  "rows_fit a \<Longrightarrow> rows_fit b \<Longrightarrow> map_of a = map_of b \<Longrightarrow> rows_digest a = rows_digest b"
  unfolding rows_digest_def by (metis bucket_frame_map_of)

lemma same_level_texts:
  assumes "level_fits l" and "level_fits l'" and "same_level l l'"
  shows "level_text i l = level_text i l'" and "pending_text i l = pending_text i l'"
  using assms
  by (cases "pending l"; cases "pending l'";
      auto simp: level_text_def pending_text_def level_fits_def same_level_def
        intro!: rows_digest_same)+

lemma hashes_same:
  assumes fits: "model_fits m" "model_fits m'" and "profile m = profile m'" "sequence m = sequence m'"
    and same: "list_all2 same_level (levels m) (levels m')"
  shows "hashes m = hashes m'"
proof -
  have len: "length (levels m) = length (levels m')"
    using same by (rule list_all2_lengthD)
  have "level_text i (levels m ! i) = level_text i (levels m' ! i)
      \<and> pending_text i (levels m ! i) = pending_text i (levels m' ! i)" if "i < length (levels m')" for i
    using that fits len list_all2_nthD2 [OF same, of i]
    by (auto simp: model_fits_def intro!: same_level_texts)
  then have "root_text m = root_text m'" and "continuation_text m = continuation_text m'"
    using assms(3) len unfolding root_text_def continuation_text_def
    by (auto intro!: arg_cong [where f = concat] map_cong)
  moreover obtain schema where "schema_hash = Inr schema"
    using schema_hash_total by blast
  ultimately show ?thesis
    using assms by (simp add: hashes_eq database_text_def)
qed

text \<open>The schema hash of the module, which the constant \<open>SCHEMA_HASH\<close> holds.\<close>

definition schema_digest :: bytes where
  "schema_digest = projr schema_hash"

lemma schema_digest: "schema_hash = Inr schema_digest" "length schema_digest = 32"
  unfolding schema_digest_def using schema_hash_total by (metis sum.sel(2))+

lemma model_ok_profile: "model_ok m \<Longrightarrow> length (profile m) = 32 \<and> length (levels m) = depth m"
  by (auto simp: model_ok_def profile_of_def scheduled_def topology_def)

lemma hashes_reachable_fits: "model_ok m \<Longrightarrow> hashes m = Inr c \<Longrightarrow> model_fits m"
  by (auto simp: model_ok_def scheduled_def intro: hashes_fits)

section \<open>A pair of histories that differ in order only\<close>

lemma genesis_hashes:
  assumes "model_init d = Inr m" and "0 < d"
  shows "\<exists>c. hashes m = Inr c"
proof -
  have "model_fits m"
    using assms by (intro run_fits [of d m "[]"]) (simp_all add: history_fits_def)
  then show ?thesis
    using schema_digest(1) hashes_eq by blast
qed

definition order_demo :: "operation list" where
  "order_demo = [PutAccount 5 7 True, PutAccount 6 (- 1) False]"

lemma order_demo_rows:
  "encode_operations order_demo =
     Inr [((1, be 2 32773), Some (be 8 9223372036854775815 @ [1])),
          ((1, be 2 32774), Some (be 8 9223372036854775807 @ [0]))]"
  "encode_operations (rev order_demo) =
     Inr [((1, be 2 32774), Some (be 8 9223372036854775807 @ [0])),
          ((1, be 2 32773), Some (be 8 9223372036854775815 @ [1]))]"
  by (simp_all add: order_demo_def encode_operations_def signed_bytes_eq)

lemma order_demo_op_encodes: "\<forall>p \<in> set order_demo. op_encodes p"
  by (simp add: order_demo_def)

text \<open>From one genesis, the two orders reach two models that hold the same maps.\<close>

lemma order_demo_models:
  obtains m a ra b rb ca cb where "model_init 1 = Inr m" and "reachable 1 a" and "reachable 1 b"
    and "advance m order_demo = Inr (a, ra)" and "advance m (rev order_demo) = Inr (b, rb)"
    and "hashes a = Inr ca" and "hashes b = Inr cb"
    and "list_all2 same_level (levels a) (levels b)" and "sequence a = sequence b"
proof -
  obtain m where m: "model_init 1 = Inr m"
    using reachable_exists [of 1] by auto
  have ok: "model_ok m" and m0: "levels m = [\<lparr>curr = [], snap = [], pending = None\<rparr>]" "logical m = []"
    "depth m = 1" "sequence m = 0"
    using model_init_ok [OF m] m by (auto simp: model_init_def bindE_Inr_iff)
  note sa = advance_step(1) [OF ok order_demo_rows(1)] and sb = advance_step(1) [OF ok order_demo_rows(2)]
  define a where "a = fst (projr (advance m order_demo))"
  define b where "b = fst (projr (advance m (rev order_demo)))"
  obtain ra where a: "advance m order_demo = Inr (a, ra)"
    using sa by (simp add: a_def)
  obtain rb where b: "advance m (rev order_demo) = Inr (b, rb)"
    using sb by (simp add: b_def)
  have r: "reachable 1 a" "reachable 1 b"
    using reachable.start [OF m] a b by (blast intro: reachable.advanced)+
  have f: "history_fits [order_demo]" "history_fits [rev order_demo]"
    using order_demo_op_encodes by (simp_all add: history_fits_def order_demo_def)
  have "run m [order_demo] = Inr a" "run m [rev order_demo] = Inr b"
    using a b by simp_all
  then have "model_fits a" "model_fits b"
    using run_fits [OF m _ f(1)] run_fits [OF m _ f(2)] by simp_all
  then obtain ca cb where c: "hashes a = Inr ca" "hashes b = Inr cb"
    using schema_digest(1) hashes_eq by blast
  have "list_all2 same_level (levels a) (levels b)" and "sequence a = sequence b"
    using sa sb by (auto simp: a_def b_def advanced_def spilled_def m0 spills_def receives_def
        merge_def dict_update_def normalize_def dict_get_def same_level_def)
  then show ?thesis
    using that m r a b c by blast
qed

section \<open>Properties of commitments\<close>

text \<open>
  C8: Hashing is total on histories: after any history of operations that encode, with fewer
  than 2 to the 64 operations and batches in all, \<open>advance\<close> has not raised and neither does
  \<open>hashes\<close>; the three hashes have 32 bytes each.
\<close>

theorem history_hashes:
  assumes "model_init d = Inr m" and "0 < d" and "history_fits history"
  shows "\<exists>m' c. run m history = Inr m' \<and> hashes m' = Inr c
    \<and> length (root_hash c) = 32 \<and> length (continuation_hash c) = 32 \<and> length (database_hash c) = 32"
proof -
  have "\<exists>m'. run m history = Inr m'"
  proof -
    have "\<exists>m'. run m history = Inr m'" if "model_ok m" "\<forall>ops \<in> set history. \<forall>p \<in> set ops. op_encodes p" for m
      using that
    proof (induction history arbitrary: m)
      case Nil
      then show ?case by simp
    next
      case (Cons ops history)
      then obtain encoded where e: "encode_operations ops = Inr encoded"
        using op_encodes_encode [of ops] by auto
      show ?case
        using Cons.IH [OF advance_step(2) [OF Cons.prems(1) e]] Cons.prems(2)
          advance_step(1) [OF Cons.prems(1) e] by simp
    qed
    then show ?thesis
      using model_init_ok [OF assms(1,2)] assms(3) by (simp add: history_fits_def)
  qed
  then obtain m' where r: "run m history = Inr m'" by blast
  have "model_fits m'"
    using assms r by (rule run_fits)
  then show ?thesis
    using r hashes_eq [OF _ schema_digest(1), of m'] by simp
qed

theorem history_hashes_witness:
  "\<exists>m m' c. model_init 11 = Inr m \<and> run m [[PutAccount 1 2 True], [], [DeleteAccount 1]] = Inr m'
    \<and> hashes m' = Inr c"
proof -
  obtain m where m: "model_init 11 = Inr m"
    using reachable_exists [of 11] by auto
  have "history_fits [[PutAccount 1 2 True], [], [DeleteAccount 1]]"
    by (simp add: history_fits_def)
  from history_hashes [OF m _ this] m show ?thesis by auto
qed

text \<open>
  C6: The database hash commits to the whole state: two reachable models with one database hash
  have the same profile, sequence and depth, hold the same map in every current, snapshot and
  pending bucket, and show the same logical map, unless the two computations hashed two
  different byte strings to the same SHA-256 digest.
\<close>

theorem database_hash_binds:
  assumes "reachable d m" and "0 < d" and "reachable d' m'" and "0 < d'"
    and "hashes m = Inr c" and "hashes m' = Inr c'" and "database_hash c = database_hash c'"
  shows "collision (hashed_texts schema_digest m) (hashed_texts schema_digest m')
    \<or> profile m = profile m' \<and> sequence m = sequence m' \<and> d = d'
      \<and> list_all2 same_level (levels m) (levels m') \<and> map_of (logical m) = map_of (logical m')"
proof (cases "collision (hashed_texts schema_digest m) (hashed_texts schema_digest m')")
  case True
  then show ?thesis ..
next
  case False
  note nc = False
  have ok: "model_ok m" "depth m = d" "model_ok m'" "depth m' = d'"
    using reachable_ok assms(1-4) by blast+
  have fits: "model_fits m" "model_fits m'"
    using ok assms(5,6) by (auto intro: hashes_reachable_fits)
  have prof: "length (profile m) = 32" "length (profile m') = 32"
    using ok model_ok_profile by blast+
  have eq: "digest (database_text schema_digest m) = digest (database_text schema_digest m')"
    using assms(5-7) hashes_eq [OF fits(1) schema_digest(1)] hashes_eq [OF fits(2) schema_digest(1)] by auto
  note b = commitment_bound [OF fits prof schema_digest(2) eq nc]
  have same: "list_all2 same_level (levels m) (levels m')"
    using b(3,4) by (simp add: list_all2_conv_all_nth same_level_def)
  moreover have "d = d'"
    using b(3) ok model_ok_profile by metis
  ultimately show ?thesis
    using b(1,2) logical_same [OF ok(1,3) same] by blast
qed

theorem database_hash_binds_witness:
  "\<exists>m a b ra rb. model_init 1 = Inr m \<and> advance m order_demo = Inr (a, ra)
    \<and> advance m (rev order_demo) = Inr (b, rb)
    \<and> (collision (hashed_texts schema_digest a) (hashed_texts schema_digest b)
       \<or> map_of (logical a) = map_of (logical b))"
proof -
  obtain m a ra b rb ca cb where h: "model_init 1 = Inr m" "reachable 1 a" "reachable 1 b"
    "advance m order_demo = Inr (a, ra)" "advance m (rev order_demo) = Inr (b, rb)"
    "hashes a = Inr ca" "hashes b = Inr cb"
    "list_all2 same_level (levels a) (levels b)" "sequence a = sequence b"
    by (rule order_demo_models)
  have ok: "model_ok a" "depth a = 1" "model_ok b" "depth b = 1"
    using reachable_ok [OF h(2)] reachable_ok [OF h(3)] by simp_all
  then have "hashes a = hashes b"
    using h(6-9) by (intro hashes_same) (auto simp: model_ok_def intro: hashes_reachable_fits)
  then have "database_hash ca = database_hash cb"
    using h(6,7) by simp
  then show ?thesis
    using database_hash_binds [OF h(2) _ h(3) _ h(6,7)] h by auto
qed

text \<open>
  The commitment is a function of the maps: two reachable models of one depth and sequence
  whose buckets hold the same maps have the same three hashes, whatever order the rows
  arrived in.
\<close>

theorem hashes_of_maps:
  assumes "reachable d m" and "0 < d" and "reachable d m'"
    and "hashes m = Inr c" and "hashes m' = Inr c'" and "sequence m = sequence m'"
    and "list_all2 same_level (levels m) (levels m')"
  shows "c = c'"
proof -
  have ok: "model_ok m" "depth m = d" "model_ok m'" "depth m' = d"
    using reachable_ok assms(1-3) by blast+
  then have "hashes m = hashes m'"
    using assms by (intro hashes_same) (auto simp: model_ok_def intro: hashes_reachable_fits)
  then show ?thesis
    using assms by simp
qed

theorem hashes_of_maps_witness:
  "\<exists>m a b ra rb. model_init 1 = Inr m \<and> advance m order_demo = Inr (a, ra)
    \<and> advance m (rev order_demo) = Inr (b, rb) \<and> hashes a = hashes b"
proof -
  obtain m a ra b rb ca cb where h: "model_init 1 = Inr m" "reachable 1 a" "reachable 1 b"
    "advance m order_demo = Inr (a, ra)" "advance m (rev order_demo) = Inr (b, rb)"
    "hashes a = Inr ca" "hashes b = Inr cb"
    "list_all2 same_level (levels a) (levels b)" "sequence a = sequence b"
    by (rule order_demo_models)
  have "ca = cb"
    using h(9,8) by (intro hashes_of_maps [OF h(2) _ h(3) h(6,7)]) simp_all
  then show ?thesis
    using h by auto
qed

end
