(* ===== verification/Peak_Tree.thy ===== *)
theory Peak_Tree
  imports Commitments
begin

text \<open>
  The block tree of \<open>tools/v2-vectors.py\<close>: \<open>sha\<close> (lines 18 to 22) and \<open>tree_root\<close> (lines 32 to
  42). The code keeps a stack of peaks and merges the two rightmost while their spans are equal;
  the specification splits the leaves by the binary decomposition of their number, hashes each
  part as a balanced tree and folds the roots from the left. The lemmas show that the two agree
  and that a root binds its leaves.
\<close>

section \<open>The code\<close>

definition sha :: "bytes list \<Rightarrow> bytes" where
  "sha parts = sha256 (concat parts)"

definition node_domain :: bytes where
  "node_domain = ascii ''bucketlist.blocknode.v2'' @ [0]"

type_synonym peak = "nat \<times> bytes"

text \<open>The \<open>while\<close> loop: the two rightmost peaks become one of twice their span.\<close>

function collapse :: "peak list \<Rightarrow> peak list" where
  "collapse peaks =
     (if 2 \<le> length peaks \<and> fst (peaks ! (length peaks - 1)) = fst (peaks ! (length peaks - 2))
      then let (span, left) = peaks ! (length peaks - 2); (_, right) = peaks ! (length peaks - 1)
           in collapse (take (length peaks - 2) peaks @ [(span * 2, sha [node_domain, left, right])])
      else peaks)"
  by pat_completeness auto

termination
  by (relation "measure length") auto

declare collapse.simps [simp del]

definition add_leaf :: "peak list \<Rightarrow> bytes \<Rightarrow> peak list" where
  "add_leaf peaks leaf = collapse (peaks @ [(1, leaf)])"

definition peaks_of :: "bytes list \<Rightarrow> peak list" where
  "peaks_of leaves = foldl add_leaf [] leaves"

definition tree_root :: "bytes list \<Rightarrow> bytes result" where
  "tree_root leaves =
     (let peaks = peaks_of leaves in
      if peaks = [] then Inl IndexError
      else Inr (foldl (\<lambda>acc (_, h). sha [node_domain, acc, h]) (snd (peaks ! 0)) (tl peaks)))"

section \<open>The specification\<close>

definition node_text :: "bytes \<Rightarrow> bytes \<Rightarrow> bytes" where
  "node_text left right = node_domain @ left @ right"

definition node :: "bytes \<Rightarrow> bytes \<Rightarrow> bytes" where
  "node left right = digest (node_text left right)"

text \<open>The root of the balanced tree over \<open>2 ^ k\<close> leaves.\<close>

fun perfect :: "nat \<Rightarrow> bytes list \<Rightarrow> bytes" where
  "perfect 0 xs = hd xs"
| "perfect (Suc k) xs = node (perfect k (take (2 ^ k) xs)) (perfect k (drop (2 ^ k) xs))"

text \<open>One balanced tree per exponent, over consecutive parts of the leaves.\<close>

fun mountains :: "nat list \<Rightarrow> bytes list \<Rightarrow> peak list" where
  "mountains [] xs = []"
| "mountains (k # ks) xs = (2 ^ k, perfect k (take (2 ^ k) xs)) # mountains ks (drop (2 ^ k) xs)"

definition pow_sum :: "nat list \<Rightarrow> nat" where
  "pow_sum ks = sum_list (map (\<lambda>k. 2 ^ k) ks)"

text \<open>The exponents of the binary decomposition of \<open>n\<close>, largest first.\<close>

definition binary_of :: "nat \<Rightarrow> nat list \<Rightarrow> bool" where
  "binary_of n ks \<longleftrightarrow> sorted_wrt (>) ks \<and> pow_sum ks = n"

lemma pow_sum_simps [simp]:
  "pow_sum [] = 0" "pow_sum (k # ks) = 2 ^ k + pow_sum ks" "pow_sum (ks @ js) = pow_sum ks + pow_sum js"
  by (simp_all add: pow_sum_def)

lemma pow_sum_bound: "sorted_wrt (>) (k # ks) \<Longrightarrow> pow_sum (k # ks) < 2 ^ Suc k"
proof (induction ks arbitrary: k)
  case Nil
  then show ?case by simp
next
  case (Cons j ks)
  then have "pow_sum (j # ks) < 2 ^ Suc j" and "Suc j \<le> k"
    by auto
  then have "pow_sum (j # ks) < 2 ^ k"
    by (meson less_le_trans one_le_numeral power_increasing)
  then show ?case by simp
qed

lemma binary_unique:
  "sorted_wrt (>) ks \<Longrightarrow> sorted_wrt (>) js \<Longrightarrow> pow_sum ks = pow_sum js \<Longrightarrow> ks = js"
proof (induction ks arbitrary: js)
  case Nil
  then show ?case by (cases js) auto
next
  case (Cons k ks)
  then obtain j js' where js: "js = j # js'"
    by (cases js) auto
  have "2 ^ k \<le> pow_sum js" "pow_sum js < 2 ^ Suc k" "2 ^ j \<le> pow_sum js" "pow_sum js < 2 ^ Suc j"
    using pow_sum_bound [OF Cons.prems(1)] pow_sum_bound [of j js'] Cons.prems js by auto
  then have "(2::nat) ^ k < 2 ^ Suc j" "(2::nat) ^ j < 2 ^ Suc k"
    by linarith+
  then have "k = j"
    by (simp only: power_strict_increasing_iff one_less_numeral_iff semiring_norm)
  with Cons js show ?case by auto
qed

lemma mountains_append:
  "length xs = pow_sum ks \<Longrightarrow> mountains (ks @ js) (xs @ ys) = mountains ks xs @ mountains js ys"
  by (induction ks arbitrary: xs) auto

lemma mountains_single [simp]: "length xs = 2 ^ k \<Longrightarrow> mountains [k] xs = [(2 ^ k, perfect k xs)]"
  by simp

lemma perfect_append:
  "length xs = 2 ^ k \<Longrightarrow> perfect (Suc k) (xs @ ys) = node (perfect k xs) (perfect k ys)"
  by simp

section \<open>The loop computes the specification\<close>

lemma sha_node: "sha [node_domain, l, r] = node l r"
  by (simp add: sha_def node_def node_text_def digest_def)

lemma collapse_equal: "collapse (ps @ [(s, l), (s, r)]) = collapse (ps @ [(s * 2, node l r)])"
  by (subst collapse.simps) (simp add: nth_append sha_node)

lemma collapse_done:
  assumes "ps = [] \<or> fst (last ps) \<noteq> s"
  shows "collapse (ps @ [(s, h)]) = ps @ [(s, h)]"
proof (cases ps rule: rev_cases)
  case Nil
  then show ?thesis by (subst collapse.simps) simp
next
  case (snoc qs q)
  then show ?thesis
    using assms by (subst collapse.simps) (simp add: nth_append)
qed

lemma collapse_mountains:
  assumes "sorted_wrt (>) ks" and "\<forall>k \<in> set ks. j \<le> k"
    and "length xs = pow_sum ks" and "length ys = 2 ^ j"
  shows "\<exists>ks'. binary_of (length (xs @ ys)) ks'
    \<and> collapse (mountains ks xs @ [(2 ^ j, perfect j ys)]) = mountains ks' (xs @ ys)"
  using assms
proof (induction ks arbitrary: j xs ys rule: rev_induct)
  case Nil
  then have "binary_of (length (xs @ ys)) [j]"
    and "collapse (mountains [] xs @ [(2 ^ j, perfect j ys)]) = mountains [j] (xs @ ys)"
    using collapse_done [of "[]"] by (simp_all add: binary_of_def)
  then show ?case by blast
next
  case (snoc k ks)
  define x1 where "x1 = take (pow_sum ks) xs"
  define x2 where "x2 = drop (pow_sum ks) xs"
  have xs: "xs = x1 @ x2" and len: "length x1 = pow_sum ks" "length x2 = 2 ^ k"
    using snoc.prems(3) by (simp_all add: x1_def x2_def)
  have m: "mountains (ks @ [k]) xs = mountains ks x1 @ [(2 ^ k, perfect k x2)]"
    using len by (simp add: xs mountains_append)
  show ?case
  proof (cases "k = j")
    case True
    have "\<exists>ks'. binary_of (length (x1 @ x2 @ ys)) ks'
        \<and> collapse (mountains ks x1 @ [(2 ^ Suc j, perfect (Suc j) (x2 @ ys))]) = mountains ks' (x1 @ x2 @ ys)"
      using snoc.prems len True by (intro snoc.IH) (auto simp: sorted_wrt_append Suc_le_eq)
    moreover have "perfect (Suc j) (x2 @ ys) = node (perfect j x2) (perfect j ys)"
      using len(2) unfolding True by (rule perfect_append)
    ultimately show ?thesis
      using collapse_equal [of "mountains ks x1" "2 ^ j" "perfect j x2" "perfect j ys"]
      using m unfolding True by (simp add: xs mult.commute)
  next
    case False
    then have "j < k"
      using snoc.prems(2) by simp
    then have "binary_of (length (xs @ ys)) ((ks @ [k]) @ [j])"
      using snoc.prems by (auto simp: binary_of_def sorted_wrt_append)
    moreover have "(2::nat) ^ k \<noteq> 2 ^ j"
      using False by simp
    then have "collapse (mountains (ks @ [k]) xs @ [(2 ^ j, perfect j ys)])
        = mountains (ks @ [k]) xs @ [(2 ^ j, perfect j ys)]"
      unfolding m by (intro collapse_done) simp
    moreover have "mountains ((ks @ [k]) @ [j]) (xs @ ys)
        = mountains (ks @ [k]) xs @ [(2 ^ j, perfect j ys)]"
      using snoc.prems(3,4) by (subst mountains_append) simp_all
    ultimately show ?thesis by metis
  qed
qed

lemma peaks_of_mountains:
  "\<exists>ks. binary_of (length leaves) ks \<and> peaks_of leaves = mountains ks leaves"
proof (induction leaves rule: rev_induct)
  case Nil
  have "binary_of 0 []" by (simp add: binary_of_def)
  then show ?case
    by (intro exI [of _ "[]"]) (simp add: peaks_of_def)
next
  case (snoc leaf leaves)
  then obtain ks where ks: "binary_of (length leaves) ks" "peaks_of leaves = mountains ks leaves"
    by blast
  have "peaks_of (leaves @ [leaf]) = collapse (mountains ks leaves @ [(2 ^ 0, perfect 0 [leaf])])"
    by (simp add: peaks_of_def add_leaf_def ks(2) [unfolded peaks_of_def])
  then show ?case
    using collapse_mountains [of ks 0 leaves "[leaf]"] ks(1) by (auto simp: binary_of_def)
qed

text \<open>The left fold over the roots of the mountains.\<close>

definition fold_roots :: "peak list \<Rightarrow> bytes" where
  "fold_roots ps = foldl (\<lambda>acc p. node acc (snd p)) (snd (hd ps)) (tl ps)"

lemma tree_root_mountains:
  assumes "binary_of (length leaves) ks" and "leaves \<noteq> []"
  shows "tree_root leaves = Inr (fold_roots (mountains ks leaves))"
proof -
  obtain js where "binary_of (length leaves) js" and p: "peaks_of leaves = mountains js leaves"
    using peaks_of_mountains by blast
  then have "js = ks"
    using assms(1) binary_unique by (auto simp: binary_of_def)
  moreover have "ks \<noteq> []"
    using assms by (auto simp: binary_of_def)
  then obtain k ks' where "ks = k # ks'" by (cases ks) auto
  ultimately show ?thesis
    by (simp add: tree_root_def p Let_def fold_roots_def sha_node case_prod_unfold)
qed

section \<open>A root binds its leaves\<close>

text \<open>The texts hashed for a balanced tree, for the mountains, and for the fold over their roots.\<close>

fun perfect_texts :: "nat \<Rightarrow> bytes list \<Rightarrow> bytes set" where
  "perfect_texts 0 xs = {}"
| "perfect_texts (Suc k) xs =
     insert (node_text (perfect k (take (2 ^ k) xs)) (perfect k (drop (2 ^ k) xs)))
       (perfect_texts k (take (2 ^ k) xs) \<union> perfect_texts k (drop (2 ^ k) xs))"

fun mountain_texts :: "nat list \<Rightarrow> bytes list \<Rightarrow> bytes set" where
  "mountain_texts [] xs = {}"
| "mountain_texts (k # ks) xs = perfect_texts k (take (2 ^ k) xs) \<union> mountain_texts ks (drop (2 ^ k) xs)"

fun fold_texts :: "bytes \<Rightarrow> bytes list \<Rightarrow> bytes set" where
  "fold_texts acc [] = {}"
| "fold_texts acc (h # hs) = insert (node_text acc h) (fold_texts (node acc h) hs)"

definition tree_texts :: "bytes list \<Rightarrow> bytes set" where
  "tree_texts leaves = {t. \<exists>ks. binary_of (length leaves) ks \<and> (t \<in> mountain_texts ks leaves
     \<or> t \<in> fold_texts (snd (hd (mountains ks leaves))) (map snd (tl (mountains ks leaves))))}"

lemma length_node [simp, byte_simps]: "length (node l r) = 32"
  by (simp add: node_def)

lemma node_inj:
  assumes "node l r = node l' r'" and "\<not> collision A B" and "node_text l r \<in> A" and "node_text l' r' \<in> B"
    and "length l = length l'"
  shows "l = l' \<and> r = r'"
  using no_collisionD [OF assms(2-4)] assms(1,5) by (simp add: node_def node_text_def)

lemma length_perfect: "length xs = 2 ^ k \<Longrightarrow> \<forall>x \<in> set xs. length x = 32 \<Longrightarrow> length (perfect k xs) = 32"
  by (cases k; cases xs) auto

lemma perfect_bound:
  assumes "length xs = 2 ^ k" and "length ys = 2 ^ k"
    and "\<forall>x \<in> set xs. length x = 32" and "\<forall>y \<in> set ys. length y = 32"
    and "perfect k xs = perfect k ys" and "\<not> collision (perfect_texts k xs) (perfect_texts k ys)"
  shows "xs = ys"
  using assms
proof (induction k arbitrary: xs ys)
  case 0
  then show ?case by (cases xs; cases ys) auto
next
  case (Suc k)
  let ?l = "take (2 ^ k) :: bytes list \<Rightarrow> _" and ?r = "drop (2 ^ k) :: bytes list \<Rightarrow> _"
  have len: "length (?l xs) = 2 ^ k" "length (?r xs) = 2 ^ k" "length (?l ys) = 2 ^ k" "length (?r ys) = 2 ^ k"
    using Suc.prems(1,2) by simp_all
  have w: "\<forall>x \<in> set (?l xs). length x = 32" "\<forall>x \<in> set (?r xs). length x = 32"
    "\<forall>x \<in> set (?l ys). length x = 32" "\<forall>x \<in> set (?r ys). length x = 32"
    using Suc.prems(3,4) by (auto dest: in_set_takeD in_set_dropD)
  have nc: "\<not> collision (perfect_texts k (?l xs)) (perfect_texts k (?l ys))"
    "\<not> collision (perfect_texts k (?r xs)) (perfect_texts k (?r ys))"
    by (rule no_collision_sub [OF Suc.prems(6)]; auto)+
  have "perfect k (?l xs) = perfect k (?l ys) \<and> perfect k (?r xs) = perfect k (?r ys)"
    using Suc.prems(5,6) length_perfect [OF len(1) w(1)] length_perfect [OF len(3) w(3)]
    by (intro node_inj [where A = "perfect_texts (Suc k) xs" and B = "perfect_texts (Suc k) ys"]) simp_all
  then have "?l xs = ?l ys" "?r xs = ?r ys"
    using Suc.IH len w nc by blast+
  then show ?case
    by (metis append_take_drop_id)
qed

lemma fold_bound:
  assumes "length hs = length gs" and "length a = 32" and "length b = 32"
    and "foldl node a hs = foldl node b gs" and "\<not> collision (fold_texts a hs) (fold_texts b gs)"
  shows "a = b \<and> hs = gs"
  using assms
proof (induction hs gs arbitrary: a b rule: list_induct2)
  case Nil
  then show ?case by simp
next
  case (Cons h hs g gs)
  have "\<not> collision (fold_texts (node a h) hs) (fold_texts (node b g) gs)"
    by (rule no_collision_sub [OF Cons.prems(4)]; auto)
  then have eq: "node a h = node b g \<and> hs = gs"
    using Cons.prems(3) by (intro Cons.IH) simp_all
  then have "a = b \<and> h = g"
    using Cons.prems by (intro node_inj [where A = "fold_texts a (h # hs)" and B = "fold_texts b (g # gs)"]) simp_all
  with eq show ?case by simp
qed

lemma mountains_bound:
  assumes "length xs = pow_sum ks" and "length ys = pow_sum ks"
    and "\<forall>x \<in> set xs. length x = 32" and "\<forall>y \<in> set ys. length y = 32"
    and "map snd (mountains ks xs) = map snd (mountains ks ys)"
    and "\<not> collision (mountain_texts ks xs) (mountain_texts ks ys)"
  shows "xs = ys"
  using assms
proof (induction ks arbitrary: xs ys)
  case Nil
  then show ?case by simp
next
  case (Cons k ks)
  let ?l = "take (2 ^ k) :: bytes list \<Rightarrow> _" and ?r = "drop (2 ^ k) :: bytes list \<Rightarrow> _"
  have nc: "\<not> collision (perfect_texts k (?l xs)) (perfect_texts k (?l ys))"
    "\<not> collision (mountain_texts ks (?r xs)) (mountain_texts ks (?r ys))"
    by (rule no_collision_sub [OF Cons.prems(6)]; auto)+
  have len: "length (?l xs) = 2 ^ k" "length (?l ys) = 2 ^ k" "length (?r xs) = pow_sum ks" "length (?r ys) = pow_sum ks"
    using Cons.prems(1,2) by simp_all
  have w: "\<forall>x \<in> set (?l xs). length x = 32" "\<forall>x \<in> set (?r xs). length x = 32"
    "\<forall>x \<in> set (?l ys). length x = 32" "\<forall>x \<in> set (?r ys). length x = 32"
    using Cons.prems(3,4) by (auto dest: in_set_takeD in_set_dropD)
  have "perfect k (?l xs) = perfect k (?l ys)"
    and roots: "map snd (mountains ks (?r xs)) = map snd (mountains ks (?r ys))"
    using Cons.prems(5) by simp_all
  then have "?l xs = ?l ys"
    using perfect_bound len(1,2) w(1,3) nc(1) by blast
  moreover have "?r xs = ?r ys"
    using len(3,4) w(2,4) roots nc(2) by (rule Cons.IH)
  ultimately show ?case
    by (metis append_take_drop_id)
qed

lemma length_mountains: "length (mountains ks xs) = length ks"
  by (induction ks arbitrary: xs) simp_all

lemma foldl_snd: "foldl (\<lambda>acc p. node acc (snd p)) a ps = foldl node a (map snd ps)"
  by (induction ps arbitrary: a) simp_all

lemma length_mountain_root:
  "\<forall>x \<in> set xs. length x = 32 \<Longrightarrow> length xs = pow_sum ks \<Longrightarrow> ks \<noteq> [] \<Longrightarrow> length (snd (hd (mountains ks xs))) = 32"
  by (cases ks) (auto intro!: length_perfect dest: in_set_takeD)

lemma tree_bound:
  assumes len: "length xs = length ys" and ne: "xs \<noteq> []"
    and w: "\<forall>x \<in> set xs. length x = 32" "\<forall>y \<in> set ys. length y = 32"
    and eq: "tree_root xs = tree_root ys" and nc: "\<not> collision (tree_texts xs) (tree_texts ys)"
  shows "xs = ys"
proof -
  obtain ks where ks: "binary_of (length xs) ks"
    using peaks_of_mountains by blast
  then have sum: "length xs = pow_sum ks" "length ys = pow_sum ks" and kne: "ks \<noteq> []"
    using len ne by (auto simp: binary_of_def)
  let ?m = "mountains ks xs" and ?n = "mountains ks ys"
  have ks': "binary_of (length ys) ks"
    using ks len by simp
  have sub: "mountain_texts ks xs \<subseteq> tree_texts xs" "mountain_texts ks ys \<subseteq> tree_texts ys"
    "fold_texts (snd (hd ?m)) (map snd (tl ?m)) \<subseteq> tree_texts xs"
    "fold_texts (snd (hd ?n)) (map snd (tl ?n)) \<subseteq> tree_texts ys"
    unfolding tree_texts_def using ks ks' by blast+
  have "ys \<noteq> []" using len ne by auto
  then have "fold_roots ?m = fold_roots ?n"
    using eq tree_root_mountains [OF ks ne] tree_root_mountains [OF ks'] by simp
  then have "snd (hd ?m) = snd (hd ?n) \<and> map snd (tl ?m) = map snd (tl ?n)"
    using no_collision_sub [OF nc sub(3,4)] w sum kne
    by (intro fold_bound) (auto simp: fold_roots_def foldl_snd length_mountains length_mountain_root)
  moreover have "?m \<noteq> []" "?n \<noteq> []"
    using kne length_mountains [of ks] by (metis length_0_conv)+
  ultimately have "map snd ?m = map snd ?n"
    by (metis list.collapse list.simps(9))
  then show ?thesis
    using no_collision_sub [OF nc sub(1,2)] w sum by (intro mountains_bound [of xs ks]) auto
qed

section \<open>Properties of the block tree\<close>

text \<open>
  C11: \<open>tree_root\<close> is the documented reduction: the leaves split by the binary decomposition of
  their number, largest part first, each part is hashed as a balanced tree, and the roots fold
  from the left. Without leaves it raises \<open>IndexError\<close>.
\<close>

theorem tree_root_decomposition:
  "tree_root [] = Inl IndexError \<and> (\<exists>ks. binary_of (length leaves) ks \<and> peaks_of leaves = mountains ks leaves
    \<and> (leaves = [] \<or> tree_root leaves = Inr (fold_roots (mountains ks leaves))))"
  using peaks_of_mountains [of leaves] tree_root_mountains [of leaves]
  by (auto simp: tree_root_def peaks_of_def)

text \<open>
  A block root binds its leaves: two equally long lists of 32-byte leaves with one root are
  the same list, unless two different node texts of the two trees have one digest.
\<close>

theorem tree_root_binds:
  assumes "length xs = length ys" and "xs \<noteq> []"
    and "\<forall>x \<in> set xs. length x = 32" and "\<forall>y \<in> set ys. length y = 32"
    and "tree_root xs = tree_root ys"
  shows "xs = ys \<or> collision (tree_texts xs) (tree_texts ys)"
  using tree_bound [OF assms] by blast

theorem tree_root_binds_witness:
  "tree_root [replicate 32 1] = tree_root [replicate 16 1 @ replicate 16 1]
   \<and> ([replicate 32 1 :: bytes] = [replicate 16 1 @ replicate 16 1]
      \<or> collision (tree_texts [replicate 32 1]) (tree_texts [replicate 16 1 @ replicate 16 1]))"
proof -
  have r: "tree_root [replicate 32 1] = tree_root [replicate 16 1 @ replicate 16 1]"
    by (simp flip: replicate_add)
  show ?thesis
    using tree_root_binds [OF _ _ _ _ r] r by simp
qed

end
