(* ===== verification/Blocks_V2.thy ===== *)
theory Blocks_V2
  imports Peak_Tree
begin

text \<open>
  The version-two bucket hash of \<open>tools/v2-vectors.py\<close>: the integer packers, \<open>frame\<close>,
  \<open>bucket_hash\<close> and \<open>stream\<close> (lines 10 to 79). The loop that closes a block as soon as it
  reaches the target is followed by its state, the closed blocks' hashes, the open block and
  its length; the lemmas show that it computes the greedy grouping of the record stream, that it
  raises exactly on values that do not fit their width, and that the hash binds the records.
\<close>

section \<open>The code\<close>

definition u32_v2 :: "int \<Rightarrow> bytes result" where
  "u32_v2 n = to_bytes 4 n"

definition u64_v2 :: "int \<Rightarrow> bytes result" where
  "u64_v2 n = to_bytes 8 n"

text \<open>A record's framed bytes and the length the code accounts for it.\<close>

definition frame :: "int \<Rightarrow> bytes \<Rightarrow> bytes option \<Rightarrow> (bytes \<times> nat) result" where
  "frame table key val =
     bindE (u32_v2 table) (\<lambda>t.
     bindE (u32_v2 (int (length key))) (\<lambda>n.
     let body = t @ n @ key in
     case val of
       None \<Rightarrow> Inr (body @ [0], 9 + length key)
     | Some v \<Rightarrow> bindE (u32_v2 (int (length v))) (\<lambda>m.
         Inr (body @ [1] @ m @ v, 13 + length key + length v))))"

definition block_domain :: bytes where
  "block_domain = ascii ''bucketlist.block.v2'' @ [0]"

definition empty_domain :: bytes where
  "empty_domain = ascii ''bucketlist.block.v2.empty'' @ [0]"

definition bucket_domain_v2 :: bytes where
  "bucket_domain_v2 = ascii ''bucketlist.bucket.v2'' @ [0]"

text \<open>The state of the loop: \<open>block_hashes\<close>, \<open>cur\<close> and \<open>cur_len\<close>.\<close>

type_synonym block_state = "bytes list \<times> bytes \<times> nat"

definition close_block :: "bytes list \<Rightarrow> bytes \<Rightarrow> bytes list result" where
  "close_block block_hashes cur =
     bindE (u64_v2 (int (length block_hashes))) (\<lambda>i.
       Inr (block_hashes @ [sha [block_domain, i, cur]]))"

definition block_step :: "int \<Rightarrow> row \<Rightarrow> block_state \<Rightarrow> block_state result" where
  "block_step target rec st = (case st of (block_hashes, cur, cur_len) \<Rightarrow>
     bindE (frame (fst (fst rec)) (snd (fst rec)) (snd rec)) (\<lambda>(framed, size).
     let cur = (if cur_len = 0 then [] else cur);
         cur = cur @ framed;
         cur_len = cur_len + size
     in if target \<le> int cur_len
        then bindE (close_block block_hashes cur) (\<lambda>block_hashes. Inr (block_hashes, [], 0))
        else Inr (block_hashes, cur, cur_len)))"

fun block_loop :: "int \<Rightarrow> row list \<Rightarrow> block_state \<Rightarrow> block_state result" where
  "block_loop target [] st = Inr st"
| "block_loop target (rec # recs) st = bindE (block_step target rec st) (block_loop target recs)"

definition bucket_hash_v2 :: "row list \<Rightarrow> int \<Rightarrow> bytes result" where
  "bucket_hash_v2 recs target =
     bindE (block_loop target recs ([], [], 0)) (\<lambda>(block_hashes, cur, cur_len).
     bindE (if 0 < cur_len then close_block block_hashes cur else Inr block_hashes) (\<lambda>block_hashes.
     bindE (if block_hashes = [] then Inr (sha [empty_domain]) else tree_root block_hashes) (\<lambda>block_root.
     bindE (u64_v2 (int (length recs))) (\<lambda>count.
     bindE (u64_v2 (int (length block_hashes))) (\<lambda>blocks.
       Inr (sha [bucket_domain_v2, count, blocks, block_root]))))))"

definition stream :: "int \<Rightarrow> int \<Rightarrow> int \<Rightarrow> bytes result" where
  "stream count parity target =
     bindE (mapE (\<lambda>i. bindE (u32_v2 (2 * i + parity)) (\<lambda>key. bindE (u32_v2 i) (\<lambda>val.
         Inr ((1, key), Some val)))) (map int [0..<nat count])) (\<lambda>recs.
       bucket_hash_v2 recs target)"

text \<open>The lines \<open>main\<close> prints, one per case.\<close>

definition stream_cases :: "(int \<times> int \<times> int) list" where
  "stream_cases = [(0, 0, 128), (1, 0, 128), (7, 0, 128), (8, 0, 128), (100, 0, 128), (100, 1, 128),
     (100, 0, 21), (1000, 0, 65536)]"

definition main_streams :: "string list result" where
  "main_streams = mapE (\<lambda>(count, parity, target). bindE (stream count parity target) (\<lambda>h.
     Inr (''stream('' @ dec count @ '', '' @ dec parity @ '', '' @ dec target @ ''): '' @ hex h))) stream_cases"

section \<open>The greedy grouping\<close>

text \<open>
  Frames are packed left to right; the first component is the closed blocks, the second what the
  last block holds when the stream ends.
\<close>

fun pack :: "int \<Rightarrow> bytes \<Rightarrow> bytes list \<Rightarrow> bytes list \<times> bytes" where
  "pack target cur [] = ([], cur)"
| "pack target cur (f # fs) =
     (if target \<le> int (length (cur @ f))
      then let (closed, open_block) = pack target [] fs in ((cur @ f) # closed, open_block)
      else pack target (cur @ f) fs)"

definition blocks_of :: "int \<Rightarrow> row list \<Rightarrow> bytes list" where
  "blocks_of target recs =
     (let (closed, open_block) = pack target [] (map row_frame recs)
      in if open_block = [] then closed else closed @ [open_block])"

definition block_text :: "nat \<Rightarrow> bytes \<Rightarrow> bytes" where
  "block_text i block = block_domain @ be 8 i @ block"

definition leaves_of :: "bytes list \<Rightarrow> bytes list" where
  "leaves_of blocks = map (\<lambda>i. digest (block_text i (blocks ! i))) [0..<length blocks]"

lemma to_bytes_eq: "to_bytes k v = (if 0 \<le> v \<and> v < 256 ^ k then Inr (be k (nat v)) else Inl OverflowError)"
  by (simp add: to_bytes_def)

lemma u32_v2_eq: "u32_v2 v = (if 0 \<le> v \<and> v < 2 ^ 32 then Inr (be 4 (nat v)) else Inl OverflowError)"
  by (simp add: u32_v2_def to_bytes_def)

lemma u64_v2_eq: "u64_v2 v = (if 0 \<le> v \<and> v < 2 ^ 64 then Inr (be 8 (nat v)) else Inl OverflowError)"
  by (simp add: u64_v2_def to_bytes_def)

text \<open>The record frame is the version-one frame, and its accounted length is its length.\<close>

lemma frame_eq:
  "frame table key val = (if row_fits ((table, key), val)
     then Inr (row_frame ((table, key), val), length (row_frame ((table, key), val)))
     else Inl OverflowError)"
  by (auto simp: frame_def u32_v2_eq Let_def split: option.splits)

lemma row_frame_nonempty [simp]: "row_frame r \<noteq> []"
  by (cases r rule: row_fits.cases) (simp add: be_numeral split: option.split)

lemma close_block_eq:
  "close_block (leaves_of blocks) cur =
     (if length blocks < 2 ^ 64 then Inr (leaves_of (blocks @ [cur])) else Inl OverflowError)"
  by (auto simp: close_block_def u64_v2_eq leaves_of_def nth_append block_text_def sha_def digest_def)

lemma block_step_eq:
  "block_step target r (leaves_of blocks, cur, length cur) =
     (if \<not> row_fits r then Inl OverflowError
      else if target \<le> int (length (cur @ row_frame r))
        then if length blocks < 2 ^ 64 then Inr (leaves_of (blocks @ [cur @ row_frame r]), [], 0)
             else Inl OverflowError
        else Inr (leaves_of blocks, cur @ row_frame r, length (cur @ row_frame r)))"
  by (cases r rule: row_fits.cases) (auto simp: block_step_def frame_eq close_block_eq Let_def)

text \<open>The loop keeps the closed blocks' hashes and the open block, or raises \<open>OverflowError\<close>.\<close>

lemma block_loop_error:
  assumes "block_loop target recs (leaves_of blocks, cur, length cur) = Inl e"
  shows "e = OverflowError"
  using assms
proof (induction recs arbitrary: blocks cur)
  case Nil
  then show ?case by simp
next
  case (Cons r recs)
  show ?case
    using Cons.prems Cons.IH [of "blocks @ [cur @ row_frame r]" "[]"] Cons.IH [of blocks "cur @ row_frame r"]
    by (auto simp: block_step_eq split: if_splits)
qed

lemma block_loop_eq:
  assumes "\<forall>r \<in> set recs. row_fits r" and "length blocks + length recs < 2 ^ 64"
  shows "block_loop target recs (leaves_of blocks, cur, length cur) =
    (let (closed, open_block) = pack target cur (map row_frame recs)
     in Inr (leaves_of (blocks @ closed), open_block, length open_block))"
  using assms
proof (induction recs arbitrary: blocks cur)
  case Nil
  then show ?case by simp
next
  case (Cons r recs)
  show ?case
    using Cons.prems Cons.IH [of "blocks @ [cur @ row_frame r]" "[]"] Cons.IH [of blocks "cur @ row_frame r"]
    by (auto simp: block_step_eq Let_def case_prod_unfold)
qed

lemma block_loop_fits:
  "block_loop target recs (leaves_of blocks, cur, length cur) = Inr st \<Longrightarrow> \<forall>r \<in> set recs. row_fits r"
proof (induction recs arbitrary: blocks cur)
  case Nil
  then show ?case by simp
next
  case (Cons r recs)
  show ?case
    using Cons.prems Cons.IH [of "blocks @ [cur @ row_frame r]" "[]"] Cons.IH [of blocks "cur @ row_frame r"]
    by (auto simp: block_step_eq split: if_splits)
qed

definition bucket_text_v2 :: "row list \<Rightarrow> bytes list \<Rightarrow> bytes \<Rightarrow> bytes" where
  "bucket_text_v2 recs blocks block_root =
     bucket_domain_v2 @ be 8 (length recs) @ be 8 (length blocks) @ block_root"

text \<open>The root of the blocks: the constant of no blocks, or the tree over their hashes.\<close>

definition block_root :: "bytes list \<Rightarrow> bytes" where
  "block_root blocks = (if blocks = [] then digest empty_domain else projr (tree_root (leaves_of blocks)))"

lemma length_leaves_of [simp]: "length (leaves_of blocks) = length blocks"
  by (simp add: leaves_of_def)

lemma leaves_of_Nil [simp]: "leaves_of blocks = [] \<longleftrightarrow> blocks = []"
  by (metis length_0_conv length_leaves_of)

lemma tree_root_total: "leaves \<noteq> [] \<Longrightarrow> \<exists>r. tree_root leaves = Inr r"
  using peaks_of_mountains tree_root_mountains by blast

lemma tree_root_leaves: "blocks \<noteq> [] \<Longrightarrow> tree_root (leaves_of blocks) = Inr (block_root blocks)"
  using tree_root_total [of "leaves_of blocks"] by (auto simp: block_root_def)

lemma pack_count:
  "length (fst (pack target cur fs)) + length (take 1 (snd (pack target cur fs)))
     \<le> length fs + length (take 1 cur)"
proof (induction target cur fs rule: pack.induct)
  case (1 target cur)
  show ?case by simp
next
  case (2 target cur f fs)
  have "length (take 1 (cur @ f)) \<le> 1"
    by simp
  then show ?case
    using 2 by (cases "target \<le> int (length (cur @ f))") (simp_all add: case_prod_unfold Let_def)
qed

lemma blocks_of_count: "length (blocks_of target recs) \<le> length recs"
  using pack_count [of target "[]" "map row_frame recs"]
  by (cases "snd (pack target [] (map row_frame recs))") (simp_all add: blocks_of_def case_prod_unfold Let_def)

lemma bucket_hash_v2_eq:
  "bucket_hash_v2 recs target =
     (if (\<forall>r \<in> set recs. row_fits r) \<and> length recs < 2 ^ 64
      then Inr (digest (bucket_text_v2 recs (blocks_of target recs) (block_root (blocks_of target recs))))
      else Inl OverflowError)"
proof -
  have l0: "leaves_of [] = []" by (simp add: leaves_of_def)
  show ?thesis
  proof (cases "(\<forall>r \<in> set recs. row_fits r) \<and> length recs < 2 ^ 64")
    case True
    let ?p = "pack target [] (map row_frame recs)"
    have loop: "block_loop target recs ([], [], 0) = Inr (leaves_of (fst ?p), snd ?p, length (snd ?p))"
      using block_loop_eq [of recs "[]" target "[]"] True by (simp add: l0 case_prod_unfold Let_def)
    have n: "length (blocks_of target recs) < 2 ^ 64"
      using blocks_of_count [of target recs] True by linarith
    have "(if 0 < length (snd ?p) then close_block (leaves_of (fst ?p)) (snd ?p) else Inr (leaves_of (fst ?p)))
        = Inr (leaves_of (blocks_of target recs))"
      using n by (auto simp: close_block_eq blocks_of_def case_prod_unfold Let_def split: if_splits)
    moreover have "(if leaves_of (blocks_of target recs) = [] then Inr (sha [empty_domain])
        else tree_root (leaves_of (blocks_of target recs))) = Inr (block_root (blocks_of target recs))"
      by (simp add: tree_root_leaves) (simp add: block_root_def sha_def digest_def)
    ultimately show ?thesis
      using True n
      by (simp add: bucket_hash_v2_def loop u64_v2_eq bucket_text_v2_def sha_def digest_def)
  next
    case False
    show ?thesis
    proof (cases "block_loop target recs ([], [], 0)")
      case (Inl e)
      then show ?thesis
        using False block_loop_error [of target recs "[]" "[]" e] by (auto simp: bucket_hash_v2_def l0)
    next
      case (Inr st)
      then have big: "\<not> length recs < 2 ^ 64"
        using False block_loop_fits [of target recs "[]" "[]" st] by (simp add: l0)
      obtain h c n where st: "st = (h, c, n)" by (cases st) auto
      have cl: "close_block h c = Inl e \<Longrightarrow> e = OverflowError" for e
        by (auto simp: close_block_def u64_v2_eq split: if_splits)
      have "bindE (if hs = [] then Inr (sha [empty_domain]) else tree_root hs) (\<lambda>block_root.
         bindE (u64_v2 (int (length recs))) (\<lambda>count. bindE (u64_v2 (int (length hs))) (\<lambda>blocks.
           Inr (sha [bucket_domain_v2, count, blocks, block_root])))) = Inl OverflowError" for hs
        using big tree_root_total [of hs] by (auto simp: u64_v2_eq)
      then show ?thesis
        using False cl by (cases "close_block h c") (auto simp: bucket_hash_v2_def Inr st)
    qed
  qed
qed

section \<open>The blocks as groups of records\<close>

definition size_of :: "row list \<Rightarrow> nat" where
  "size_of g = length (concat (map row_frame g))"

fun group :: "int \<Rightarrow> row list \<Rightarrow> row list \<Rightarrow> row list list" where
  "group target g [] = (if g = [] then [] else [g])"
| "group target g (r # rs) =
     (if target \<le> int (size_of (g @ [r])) then (g @ [r]) # group target [] rs
      else group target (g @ [r]) rs)"

definition group_text :: "row list \<Rightarrow> bytes" where
  "group_text g = concat (map row_frame g)"

lemma group_text_Nil [simp]: "group_text g = [] \<longleftrightarrow> g = []"
  by (cases g) (simp_all add: group_text_def)

lemma pack_group:
  "(let (closed, open_block) = pack target (group_text g) (map row_frame rs)
    in if open_block = [] then closed else closed @ [open_block]) = map group_text (group target g rs)"
proof (induction target g rs rule: group.induct)
  case (1 target g)
  then show ?case by simp
next
  case (2 target g r rs)
  have t: "group_text g @ row_frame r = group_text (g @ [r])" "group_text [] = []"
    by (simp_all add: group_text_def)
  have s: "size_of (g @ [r]) = length (group_text (g @ [r]))"
    by (simp add: size_of_def group_text_def)
  show ?case
    using 2 by (cases "target \<le> int (size_of (g @ [r]))")
      (simp_all add: t s case_prod_unfold Let_def split: if_splits)
qed

lemma blocks_of_group: "blocks_of target recs = map group_text (group target [] recs)"
  using pack_group [of target "[]" recs] by (simp add: blocks_of_def group_text_def)

lemma concat_group: "concat (group target g rs) = g @ rs"
  by (induction target g rs rule: group.induct) simp_all

text \<open>A group is closed by the first record that brings it to the target.\<close>

definition closes_first :: "int \<Rightarrow> row list \<Rightarrow> bool" where
  "closes_first target g \<longleftrightarrow> g \<noteq> [] \<and> (\<forall>k < length g. 0 < k \<longrightarrow> int (size_of (take k g)) < target)"

lemma group_closes_first:
  assumes "\<forall>k \<le> length g. 0 < k \<longrightarrow> int (size_of (take k g)) < target"
  shows "\<forall>b \<in> set (group target g rs). closes_first target b"
  using assms
proof (induction target g rs rule: group.induct)
  case (1 target g)
  then show ?case by (simp add: closes_first_def)
next
  case (2 target g r rs)
  show ?case
  proof (cases "target \<le> int (size_of (g @ [r]))")
    case True
    then show ?thesis
      using 2 by (simp add: closes_first_def less_Suc_eq_le)
  next
    case False
    then have "\<forall>k \<le> length (g @ [r]). 0 < k \<longrightarrow> int (size_of (take k (g @ [r]))) < target"
      using 2(3) by (auto simp: le_Suc_eq)
    then show ?thesis
      using 2(2) False by simp
  qed
qed

lemma group_closed: "\<forall>b \<in> set (butlast (group target g rs)). target \<le> int (size_of b)"
proof (induction target g rs rule: group.induct)
  case (1 target g)
  then show ?case by simp
next
  case (2 target g r rs)
  then show ?case
    by (cases "target \<le> int (size_of (g @ [r]))") simp_all
qed

section \<open>A bucket hash binds its records\<close>

lemma block_text_inj: "i < 2 ^ 64 \<Longrightarrow> block_text i b = block_text i c \<Longrightarrow> b = c"
  by (simp add: block_text_def)

definition texts_v2 :: "row list \<Rightarrow> int \<Rightarrow> bytes set" where
  "texts_v2 recs target = (let blocks = blocks_of target recs in
     {bucket_text_v2 recs blocks (block_root blocks)} \<union> tree_texts (leaves_of blocks)
     \<union> {block_text i (blocks ! i) | i. i < length blocks})"

lemma bucket_text_member:
  "bucket_text_v2 recs (blocks_of target recs) (block_root (blocks_of target recs)) \<in> texts_v2 recs target"
  by (simp add: texts_v2_def Let_def)

lemma leaves_width: "\<forall>x \<in> set (leaves_of blocks). length x = 32"
  by (auto simp: leaves_of_def)

lemma leaves_bound:
  assumes eq: "leaves_of bs = leaves_of cs" and n: "length bs < 2 ^ 64"
    and nc: "\<not> collision A B"
    and A: "\<And>i. i < length bs \<Longrightarrow> block_text i (bs ! i) \<in> A"
    and B: "\<And>i. i < length cs \<Longrightarrow> block_text i (cs ! i) \<in> B"
  shows "bs = cs"
proof (rule nth_equalityI)
  show len: "length bs = length cs"
    using eq by (metis length_leaves_of)
  fix i assume i: "i < length bs"
  then have "digest (block_text i (bs ! i)) = digest (block_text i (cs ! i))"
    using arg_cong [OF eq, of "\<lambda>l. l ! i"] len by (simp add: leaves_of_def)
  then have t: "block_text i (bs ! i) = block_text i (cs ! i)"
    using no_collisionD [OF nc A [OF i] B] i len by metis
  have "i < 2 ^ 64"
    using i n by linarith
  then show "bs ! i = cs ! i"
    using t by (rule block_text_inj)
qed

lemma concat_blocks: "concat (blocks_of target recs) = concat (map row_frame recs)"
proof -
  have "concat (map group_text gs) = concat (map row_frame (concat gs))" for gs
    by (induction gs) (simp_all add: group_text_def)
  then show ?thesis
    using concat_group [of target "[]" recs] by (simp add: blocks_of_group)
qed

lemma bucket_text_v2_inj:
  assumes "length recs < 2 ^ 64" "length recs' < 2 ^ 64" "length bs < 2 ^ 64" "length bs' < 2 ^ 64"
    and "bucket_text_v2 recs bs r = bucket_text_v2 recs' bs' r'"
  shows "length recs = length recs' \<and> length bs = length bs' \<and> r = r'"
  using assms by (simp add: bucket_text_v2_def append_eq_append_conv)

lemma bucket_hash_v2_bound:
  assumes h: "bucket_hash_v2 recs t = Inr h" and h': "bucket_hash_v2 recs' t' = Inr h"
    and nc: "\<not> collision (texts_v2 recs t) (texts_v2 recs' t')"
  shows "recs = recs'"
proof -
  let ?bs = "blocks_of t recs" and ?cs = "blocks_of t' recs'"
  have fits: "\<forall>r \<in> set recs. row_fits r" "length recs < 2 ^ 64"
    and dh: "h = digest (bucket_text_v2 recs ?bs (block_root ?bs))"
    using h by (auto simp: bucket_hash_v2_eq split: if_splits)
  have fits': "\<forall>r \<in> set recs'. row_fits r" "length recs' < 2 ^ 64"
    and dh': "h = digest (bucket_text_v2 recs' ?cs (block_root ?cs))"
    using h' by (auto simp: bucket_hash_v2_eq split: if_splits)
  have n: "length ?bs < 2 ^ 64" "length ?cs < 2 ^ 64"
    using blocks_of_count [of t recs] blocks_of_count [of t' recs'] fits(2) fits'(2) by linarith+
  have "bucket_text_v2 recs ?bs (block_root ?bs) = bucket_text_v2 recs' ?cs (block_root ?cs)"
    using no_collisionD [OF nc bucket_text_member bucket_text_member] dh dh' by metis
  then have len: "length recs = length recs'" "length ?bs = length ?cs" "block_root ?bs = block_root ?cs"
    using bucket_text_v2_inj [OF fits(2) fits'(2) n] by blast+
  have "leaves_of ?bs = leaves_of ?cs"
  proof (cases "?bs = []")
    case True
    then show ?thesis using len(2) by simp
  next
    case False
    then have "?cs \<noteq> []" using len(2) by auto
    then have "tree_root (leaves_of ?bs) = tree_root (leaves_of ?cs)"
      using False len(3) by (simp add: tree_root_leaves)
    moreover have "\<not> collision (tree_texts (leaves_of ?bs)) (tree_texts (leaves_of ?cs))"
      by (rule no_collision_sub [OF nc]) (auto simp: texts_v2_def Let_def)
    ultimately show ?thesis
      using tree_bound [of "leaves_of ?bs" "leaves_of ?cs"] leaves_width False len(2) by simp
  qed
  then have "?bs = ?cs"
    using n(1) nc by (rule leaves_bound) (auto simp: texts_v2_def Let_def)
  then have "concat (map row_frame recs) @ [] = concat (map row_frame recs') @ []"
    using concat_blocks by metis
  then show ?thesis
    using row_code.concat_inj [OF len(1) fits(1) fits'(1)] by simp
qed

section \<open>Streams\<close>

definition stream_row :: "int \<Rightarrow> int \<Rightarrow> row result" where
  "stream_row parity i = bindE (u32_v2 (2 * i + parity)) (\<lambda>key. bindE (u32_v2 i) (\<lambda>val.
     Inr ((1, key), Some val)))"

lemma stream_row_eq:
  "stream_row parity i = (if 0 \<le> 2 * i + parity \<and> 2 * i + parity < 2 ^ 32 \<and> 0 \<le> i \<and> i < 2 ^ 32
     then Inr ((1, be 4 (nat (2 * i + parity))), Some (be 4 (nat i))) else Inl OverflowError)"
  by (simp add: stream_row_def u32_v2_eq)

lemma stream_rows: "stream count parity target =
    bindE (mapE (stream_row parity) (map int [0..<nat count])) (\<lambda>recs. bucket_hash_v2 recs target)"
  by (simp only: stream_def stream_row_def [abs_def])

lemma stream_row_fits: "stream_row parity i = Inr r \<Longrightarrow> row_fits r"
  by (auto simp: stream_row_eq split: if_splits)

lemma stream_error: "stream count parity target = Inl e \<Longrightarrow> e = OverflowError"
  unfolding stream_rows
  by (cases "mapE (stream_row parity) (map int [0..<nat count])")
     (auto simp: stream_row_eq bucket_hash_v2_eq dest!: mapE_Inl split: if_splits)

lemma stream_returns:
  assumes "\<forall>i < nat count. 0 \<le> 2 * int i + parity \<and> 2 * int i + parity < 2 ^ 32"
    and "nat count \<le> 2 ^ 32"
  shows "\<exists>h. stream count parity target = Inr h"
proof -
  define g where "g i = ((1 :: int, be 4 (nat (2 * i + parity))), Some (be 4 (nat i)))" for i
  have "mapE (stream_row parity) (map int [0..<nat count]) = Inr (map g (map int [0..<nat count]))"
    using assms by (intro mapE_total) (auto simp: stream_row_eq g_def)
  moreover have "length (map g (map int [0..<nat count])) < 2 ^ 64"
    using assms(2) by simp
  ultimately show ?thesis
    by (simp add: stream_rows bucket_hash_v2_eq g_def)
qed

section \<open>Properties of the block format\<close>

text \<open>
  C10: The bucket hash in closed form. It raises \<open>OverflowError\<close> exactly when a table, key length
  or value length does not fit thirty-two bits or the records do not fit a sixty-four-bit count;
  otherwise it hashes the record count, the block count and the root over the greedy groups: the
  records in order, every group closed by its first record that reaches the target, and
  every group but the last at the target.
\<close>

theorem bucket_hash_v2_groups:
  "bucket_hash_v2 recs target =
     (if (\<forall>r \<in> set recs. row_fits r) \<and> length recs < 2 ^ 64
      then Inr (digest (bucket_text_v2 recs (map group_text (group target [] recs))
        (block_root (map group_text (group target [] recs)))))
      else Inl OverflowError)
   \<and> concat (group target [] recs) = recs
   \<and> (\<forall>g \<in> set (group target [] recs). closes_first target g)
   \<and> (\<forall>g \<in> set (butlast (group target [] recs)). target \<le> int (size_of g))"
  using bucket_hash_v2_eq [of recs target] group_closes_first [of "[]" target recs]
    group_closed [of target "[]" recs]
  by (simp add: blocks_of_group concat_group)

theorem bucket_hash_v2_groups_witness:
  "closes_first 10 [((1, []), None), ((2, []), None)]
   \<and> bucket_hash_v2 [((- 1, []), None)] 10 = Inl OverflowError"
  using bucket_hash_v2_groups [of "[((1, []), None), ((2, []), None), ((3, []), Some [0])]" 10]
    bucket_hash_v2_groups [of "[((- 1, []), None)]" 10]
  by (simp add: size_of_def)

text \<open>
  C12: A version-two bucket hash binds the records: two record lists, under any two targets, with
  one hash are the same list, unless the two computations hash two different texts to one
  digest.
\<close>

theorem bucket_hash_v2_binds:
  assumes "bucket_hash_v2 recs target = Inr h" and "bucket_hash_v2 recs' target' = Inr h"
  shows "recs = recs' \<or> collision (texts_v2 recs target) (texts_v2 recs' target')"
  using bucket_hash_v2_bound [OF assms] by blast

theorem bucket_hash_v2_binds_witness:
  "\<exists>h. bucket_hash_v2 [((1, []), None)] 128 = Inr h \<and> bucket_hash_v2 [((1, []), None)] 64 = Inr h
    \<and> ([((1, []), None)] = [((1 :: int, [] :: bytes), None :: bytes option)]
       \<or> collision (texts_v2 [((1, []), None)] 128) (texts_v2 [((1, []), None)] 64))"
proof -
  have h: "bucket_hash_v2 [((1, []), None)] 128 = bucket_hash_v2 [((1, []), None)] 64"
    "\<exists>h. bucket_hash_v2 [((1, []), None)] 64 = Inr h"
    by (simp_all add: bucket_hash_v2_eq blocks_of_group size_of_def)
  then show ?thesis
    using bucket_hash_v2_binds [of "[((1, []), None)]" 128 _ "[((1, []), None)]" 64] by auto
qed

text \<open>
  \<open>stream\<close> is total on the keys that fit: it raises \<open>OverflowError\<close> exactly when the count is
  positive and a key \<open>2 * i + parity\<close> is negative or reaches 2 to the 32.
\<close>

theorem stream_total:
  "stream count parity target \<in> range Inr \<union> {Inl OverflowError}
   \<and> ((\<exists>h. stream count parity target = Inr h)
      \<longleftrightarrow> count \<le> 0 \<or> 0 \<le> parity \<and> 2 * (count - 1) + parity < 2 ^ 32)"
proof -
  have "count \<le> 0 \<or> 0 \<le> parity \<and> 2 * (count - 1) + parity < 2 ^ 32" if r: "stream count parity target = Inr h" for h
  proof (rule disjCI)
    assume "\<not> (0 \<le> parity \<and> 2 * (count - 1) + parity < 2 ^ 32)"
    moreover have "\<exists>r. stream_row parity (int i) = Inr r" if "i < nat count" for i
      using r that by (auto simp: stream_rows bindE_Inr_iff mapE_Inr_iff list_all2_conv_all_nth simp del: split_paired_Ex)
    from this [of 0] this [of "nat (count - 1)"]
    have "0 < count \<Longrightarrow> 0 \<le> parity \<and> 2 * (count - 1) + parity < 2 ^ 32"
      by (auto simp: stream_row_eq split: if_splits)
    ultimately show "count \<le> 0" by linarith
  qed
  moreover have "\<exists>h. stream count parity target = Inr h"
    if "count \<le> 0 \<or> 0 \<le> parity \<and> 2 * (count - 1) + parity < 2 ^ 32"
    using that by (intro stream_returns) auto
  moreover have "stream count parity target \<in> range Inr \<union> {Inl OverflowError}"
    using stream_error [of count parity target] by (cases "stream count parity target") auto
  ultimately show ?thesis by blast
qed

end
