(* ===== verification/Chain_Digest.thy ===== *)
theory Chain_Digest
  imports Histories Blocks_V2
begin

text \<open>
  \<open>chain_digest\<close> and \<open>chain_cases\<close> of \<open>tools/v2-vectors.py\<close> (lines 101 to 144): the second,
  independent computation of the database commitment, from hexadecimal bucket hashes. The lemmas
  show that it agrees with \<open>Model.hashes\<close> on every reachable model, which is what lets one chain
  format serve both bucket versions.
\<close>

section \<open>The code\<close>

definition h32 :: "string \<Rightarrow> bytes result" where
  "h32 hexstr = fromhex hexstr"

type_synonym chain_level = "string \<times> string \<times> string option"

definition chain_level_hash :: "nat \<times> chain_level \<Rightarrow> bytes result" where
  "chain_level_hash il = (case il of (i, c, s, _) \<Rightarrow>
     bindE (to_bytes 4 (int i)) (\<lambda>n.
     bindE (h32 c) (\<lambda>c.
     bindE (h32 s) (\<lambda>s.
       Inr (sha [level_domain, n, c, s])))))"

text \<open>What one turn of the second loop feeds to the continuation hash.\<close>

definition chain_pending :: "nat \<times> chain_level \<Rightarrow> bytes result" where
  "chain_pending il = (case il of (i, _, _, nxt) \<Rightarrow>
     bindE (to_bytes 4 (int i)) (\<lambda>n.
     case nxt of None \<Rightarrow> Inr (n @ [0])
     | Some x \<Rightarrow> bindE (h32 x) (\<lambda>h. Inr (n @ [1] @ h))))"

definition chain_digest :: "string \<Rightarrow> string \<Rightarrow> int \<Rightarrow> chain_level list \<Rightarrow> bytes result" where
  "chain_digest schema_hex profile_hex seq lvs =
     bindE (h32 schema_hex) (\<lambda>schema.
     bindE (h32 profile_hex) (\<lambda>profile.
     let indexed = zip [0..<length lvs] lvs in
     bindE (mapE chain_level_hash indexed) (\<lambda>level_hashes.
     let list_root = sha ([list_domain, profile] @ level_hashes) in
     bindE (mapE chain_pending indexed) (\<lambda>updates.
     let cont = sha ([continuation_domain, profile] @ updates) in
     bindE (to_bytes 8 seq) (\<lambda>seq8.
       Inr (sha [database_domain, schema, profile, seq8, list_root, cont]))))))"

definition fake :: "nat \<Rightarrow> string result" where
  "fake seed = bindE (to_bytes 4 (int seed)) (\<lambda>b. Inr (hex (sha256 b)))"

definition case_a :: "chain_level list result" where
  "case_a = mapE (\<lambda>i. bindE (fake (10 * i + 1)) (\<lambda>c. bindE (fake (10 * i + 2)) (\<lambda>s.
     Inr (c, s, None)))) [0..<11]"

definition case_b :: "chain_level list result" where
  "case_b = mapE (\<lambda>i. bindE (fake (20 * i + 1)) (\<lambda>c. bindE (fake (20 * i + 2)) (\<lambda>s.
     bindE (if i = 4 then bindE (fake (20 * i + 3)) (\<lambda>x. Inr (Some x)) else Inr None) (\<lambda>nxt.
     Inr (c, s, nxt))))) [0..<11]"

text \<open>The lines \<open>chain_cases\<close> prints.\<close>

definition chain_cases :: "string list result" where
  "chain_cases =
     bindE case_a (\<lambda>a. bindE case_b (\<lambda>b.
     bindE (fake 900) (\<lambda>schema. bindE (fake 901) (\<lambda>profile.
     mapE (\<lambda>(name, seq, lvs). bindE (chain_digest schema profile seq lvs) (\<lambda>h.
       Inr (''chain '' @ name @ '': '' @ hex h))) [(''a'', 5, a), (''b'', 70, b)]))))"

section \<open>Agreement with the reference model\<close>

text \<open>The hexadecimal bucket hashes of a level of the reference model.\<close>

definition level_hexes :: "rows level \<Rightarrow> chain_level result" where
  "level_hexes l =
     bindE (bucket_hash (curr l)) (\<lambda>c.
     bindE (bucket_hash (snap l)) (\<lambda>s.
     bindE (case pending l of None \<Rightarrow> Inr None | Some p \<Rightarrow> bindE (bucket_hash p) (\<lambda>h. Inr (Some (hex h)))) (\<lambda>p.
       Inr (hex c, hex s, p))))"

definition hexed :: "rows level \<Rightarrow> chain_level" where
  "hexed l = (hex (rows_digest (curr l)), hex (rows_digest (snap l)),
     map_option (\<lambda>p. hex (rows_digest p)) (pending l))"

lemma level_hexes_eq: "level_fits l \<Longrightarrow> level_hexes l = Inr (hexed l)"
  by (auto simp: level_hexes_def level_fits_def bucket_hash_eq hexed_def split: option.split)

lemma chain_level_hash_eq:
  "i < 2 ^ 32 \<Longrightarrow> chain_level_hash (i, hexed l) = Inr (digest (level_text i l))"
  by (simp add: chain_level_hash_def hexed_def h32_def to_bytes_eq level_text_def sha_def digest_def)

lemma chain_pending_eq: "i < 2 ^ 32 \<Longrightarrow> chain_pending (i, hexed l) = Inr (pending_text i l)"
  by (simp add: chain_pending_def hexed_def h32_def to_bytes_eq pending_text_def split: option.split)

lemma mapE_hexed:
  assumes "length lvs \<le> 2 ^ 32" and "\<And>i l. i < 2 ^ 32 \<Longrightarrow> f (i, hexed l) = Inr (g i l)"
  shows "mapE f (zip [0..<length lvs] (map hexed lvs)) = Inr (map (\<lambda>i. g i (lvs ! i)) [0..<length lvs])"
proof -
  have "mapE f (zip [0..<length lvs] (map hexed lvs))
      = mapE (\<lambda>(i, l). f (i, hexed l)) (zip [0..<length lvs] lvs)"
    by (simp add: zip_map2 mapE_map case_prod_unfold comp_def)
  also have "\<dots> = Inr (map (\<lambda>(i, l). g i l) (zip [0..<length lvs] lvs))"
    using assms by (intro mapE_total) (auto simp: set_zip)
  finally show ?thesis
    by (simp add: map_indexed)
qed

lemma chain_digest_eq:
  assumes "model_fits m"
  shows "chain_digest (hex schema) (hex (profile m)) (int (sequence m)) (map hexed (levels m))
    = Inr (digest (database_text schema m))"
proof -
  have n: "length (levels m) \<le> 2 ^ 32" and s: "sequence m < 2 ^ 64"
    using assms by (simp_all add: model_fits_def)
  have "mapE chain_level_hash (zip [0..<length (levels m)] (map hexed (levels m)))
      = Inr (map (\<lambda>i. digest (level_text i (levels m ! i))) [0..<length (levels m)])"
    using n chain_level_hash_eq by (rule mapE_hexed)
  moreover have "mapE chain_pending (zip [0..<length (levels m)] (map hexed (levels m)))
      = Inr (map (\<lambda>i. pending_text i (levels m ! i)) [0..<length (levels m)])"
    using n chain_pending_eq by (rule mapE_hexed)
  ultimately show ?thesis
    using s
    by (simp add: chain_digest_def h32_def to_bytes_eq Let_def sha_def database_text_def root_text_def
        continuation_text_def digest_def)
qed

section \<open>Properties\<close>

text \<open>
  C13: Parity: on every reachable model that hashes, \<open>chain_digest\<close>, fed with the schema hash, the
  profile, the sequence and the hexadecimal bucket hashes of the levels, returns the database hash
  that \<open>Model.hashes\<close> returns.
\<close>

theorem chain_digest_parity:
  assumes "reachable d m" and "0 < d" and "hashes m = Inr c"
  shows "\<exists>lvs. mapE level_hexes (levels m) = Inr lvs
    \<and> chain_digest (hex schema_digest) (hex (profile m)) (int (sequence m)) lvs = Inr (database_hash c)"
proof -
  have fits: "model_fits m"
    using reachable_ok [OF assms(1,2)] assms(3) by (blast intro: hashes_reachable_fits)
  then have "mapE level_hexes (levels m) = Inr (map hexed (levels m))"
    by (intro mapE_total level_hexes_eq) (simp add: model_fits_def)
  moreover have "database_hash c = digest (database_text schema_digest m)"
    using assms(3) hashes_eq [OF fits schema_digest(1)] by auto
  ultimately show ?thesis
    using chain_digest_eq [OF fits] by simp
qed

theorem chain_digest_parity_witness:
  "\<exists>m c lvs. model_init 3 = Inr m \<and> hashes m = Inr c \<and> mapE level_hexes (levels m) = Inr lvs
    \<and> chain_digest (hex schema_digest) (hex (profile m)) 0 lvs = Inr (database_hash c)"
proof -
  obtain m where m: "model_init 3 = Inr m"
    using reachable_exists [of 3] by auto
  obtain c where c: "hashes m = Inr c"
    using genesis_hashes [OF m] by auto
  have "sequence m = 0"
    using model_init_ok [OF m] by simp
  then show ?thesis
    using chain_digest_parity [OF reachable.start [OF m] _ c] m c by auto
qed

end
