(* ===== verification/Corpus.thy ===== *)
theory Corpus
  imports Histories "HOL-Library.Char_ord"
begin

text \<open>
  The fixture generator \<open>corpus\<close> of \<open>tools/reference.py\<close> (lines 178 to 216): four traces of 128
  advances over one shared dictionary of bucket frames. The lemmas show that generation never
  raises, that every recorded step is the state the model really has after that many advances,
  and that every bucket reference of a trace resolves to a frame of the recorded bucket.
\<close>

section \<open>The generator\<close>

definition ADVANCES :: nat where
  "ADVANCES = 128"

type_synonym frames = "(string, string) dict"

definition remember :: "frames \<Rightarrow> rows \<Rightarrow> (string \<times> frames) result" where
  "remember frames rows =
     bindE (encode_bucket rows) (\<lambda>encoded.
     let h = hex (digest encoded) in
     Inr (h, AList.update h (hex encoded) frames))"

record level_refs =
  curr_ref :: string
  snap_ref :: string
  next_ref :: "string option"

record trace_step =
  step_sequence :: nat
  step_batch :: string
  step_root :: string
  step_continuation :: string
  step_database :: string
  step_levels :: "level_refs list"

record trace =
  trace_depth :: nat
  trace_profile :: string
  trace_steps :: "trace_step list"
  trace_aggregate :: string

definition remember_level :: "frames \<Rightarrow> rows level \<Rightarrow> (level_refs \<times> frames) result" where
  "remember_level frames l =
     bindE (remember frames (curr l)) (\<lambda>(c, frames).
     bindE (remember frames (snap l)) (\<lambda>(s, frames).
     bindE (case pending l of None \<Rightarrow> Inr (None, frames)
            | Some p \<Rightarrow> bindE (remember frames p) (\<lambda>(h, frames). Inr (Some h, frames))) (\<lambda>(p, frames).
       Inr (\<lparr>curr_ref = c, snap_ref = s, next_ref = p\<rparr>, frames))))"

fun remember_levels :: "frames \<Rightarrow> rows level list \<Rightarrow> (level_refs list \<times> frames) result" where
  "remember_levels frames [] = Inr ([], frames)"
| "remember_levels frames (l # ls) =
     bindE (remember_level frames l) (\<lambda>(r, frames).
     bindE (remember_levels frames ls) (\<lambda>(rs, frames). Inr (r # rs, frames)))"

text \<open>The variables of the inner loop: \<open>model\<close>, \<open>steps\<close>, \<open>history\<close>, and the shared \<open>frames\<close>.\<close>

record corpus_state =
  the_model :: model
  the_steps :: "trace_step list"
  the_history :: bytes
  the_frames :: frames

definition corpus_step :: "nat \<Rightarrow> corpus_state \<Rightarrow> corpus_state result" where
  "corpus_step n st =
     bindE (if n = 0 then Inr (the_model st, [])
            else bindE (operations (int n)) (advance (the_model st))) (\<lambda>(m, batch).
     bindE (hashes m) (\<lambda>h.
     bindE (remember (the_frames st) batch) (\<lambda>(batch_ref, frames).
     bindE (remember_levels frames (levels m)) (\<lambda>(refs, frames).
       Inr \<lparr>the_model = m,
            the_steps = the_steps st @ [\<lparr>step_sequence = n, step_batch = batch_ref,
              step_root = hex (root_hash h), step_continuation = hex (continuation_hash h),
              step_database = hex (database_hash h), step_levels = refs\<rparr>],
            the_history = the_history st @ database_hash h,
            the_frames = frames\<rparr>))))"

fun corpus_loop :: "nat list \<Rightarrow> corpus_state \<Rightarrow> corpus_state result" where
  "corpus_loop [] st = Inr st"
| "corpus_loop (n # ns) st = bindE (corpus_step n st) (corpus_loop ns)"

definition corpus_trace :: "nat \<Rightarrow> frames \<Rightarrow> (trace \<times> frames) result" where
  "corpus_trace d frames =
     bindE (model_init d) (\<lambda>m.
     bindE (corpus_loop [0..<ADVANCES + 1]
       \<lparr>the_model = m, the_steps = [], the_history = [], the_frames = frames\<rparr>) (\<lambda>st.
       Inr (\<lparr>trace_depth = d, trace_profile = hex (profile (the_model st)),
             trace_steps = the_steps st, trace_aggregate = hex (digest (the_history st))\<rparr>, the_frames st)))"

fun corpus_traces :: "nat list \<Rightarrow> frames \<Rightarrow> (trace list \<times> frames) result" where
  "corpus_traces [] frames = Inr ([], frames)"
| "corpus_traces (d # ds) frames =
     bindE (corpus_trace d frames) (\<lambda>(t, frames).
     bindE (corpus_traces ds frames) (\<lambda>(ts, frames). Inr (t # ts, frames)))"

record corpus_data =
  data_format :: string
  data_namespace :: string
  data_version :: int
  data_schema_descriptor :: string
  data_schema_hash :: string
  data_operations :: "operation list list"
  data_buckets :: "(string \<times> string) list"
  data_traces :: "trace list"

definition corpus :: "corpus_data result" where
  "corpus =
     bindE (corpus_traces [1, 2, 3, 11] []) (\<lambda>(traces, frames).
     bindE schema_descriptor (\<lambda>descriptor.
     bindE schema_hash (\<lambda>schema.
     bindE (mapE (\<lambda>n. operations (int n)) [1..<ADVANCES + 1]) (\<lambda>ops.
       Inr \<lparr>data_format = ''bucketlist-zig-independent-v1'',
            data_namespace = namespace,
            data_version = version,
            data_schema_descriptor = hex descriptor,
            data_schema_hash = hex schema,
            data_operations = [] # ops,
            data_buckets = sorted_items frames,
            data_traces = traces\<rparr>))))"

section \<open>The states of the workload\<close>

text \<open>The model of depth \<open>d\<close> after \<open>n\<close> advances of the workload, with the last batch.\<close>

fun model_at :: "nat \<Rightarrow> nat \<Rightarrow> model \<times> rows" where
  "model_at d 0 = (projr (model_init d), [])"
| "model_at d (Suc n) = projr (bindE (operations (int (Suc n))) (advance (fst (model_at d n))))"

definition workload :: "nat \<Rightarrow> operation list list" where
  "workload n = map (\<lambda>k. projr (operations (int k))) [1..<n + 1]"

abbreviation advance_bound :: nat where
  "advance_bound \<equiv> 92233720368547758"

lemma operations_projr:
  "n \<le> advance_bound \<Longrightarrow> operations (int n) = Inr (projr (operations (int n)))
    \<and> (\<forall>p \<in> set (projr (operations (int n))). op_encodes p) \<and> length (projr (operations (int n))) \<le> 4"
  using operations_encode [of "int n"] by auto

lemma workload_fits:
  assumes "n \<le> advance_bound"
  shows "history_fits (workload n)"
proof -
  have len: "length (concat (workload k)) \<le> 4 * k" if "k \<le> n" for k
    using that
  proof (induction k)
    case 0
    then show ?case by (simp add: workload_def)
  next
    case (Suc k)
    then show ?case
      using operations_projr [of "Suc k"] assms by (simp add: workload_def)
  qed
  have "\<forall>p \<in> set (concat (workload n)). op_encodes p"
  proof
    fix p assume "p \<in> set (concat (workload n))"
    then obtain k where "k \<le> n" "p \<in> set (projr (operations (int k)))"
      by (auto simp: workload_def dest: less_imp_le)
    then show "op_encodes p"
      using operations_projr [of k] assms by auto
  qed
  moreover have "length (concat (workload n)) < 2 ^ 64"
    using len [of n] assms by simp
  moreover have "length (workload n) < 2 ^ 64"
    using assms by (simp add: workload_def)
  ultimately show ?thesis
    by (simp add: history_fits_def)
qed

lemma model_at_Suc:
  assumes "0 < d" and "d < 2 ^ 32" and "Suc n \<le> advance_bound"
    and m: "reachable d (fst (model_at d n))"
  shows "operations (int (Suc n)) = Inr (projr (operations (int (Suc n))))"
    and "advance (fst (model_at d n)) (projr (operations (int (Suc n)))) = Inr (model_at d (Suc n))"
    and "reachable d (fst (model_at d (Suc n)))"
    and "sequence (fst (model_at d (Suc n))) = Suc (sequence (fst (model_at d n)))"
proof -
  show o: "operations (int (Suc n)) = Inr (projr (operations (int (Suc n))))"
    using operations_projr [OF assms(3)] by simp
  have ok: "model_ok (fst (model_at d n))"
    using reachable_ok m assms(1) by blast
  obtain e where e: "encode_operations (projr (operations (int (Suc n)))) = Inr e"
    using op_encodes_encode operations_projr [OF assms(3)] by blast
  note a = advance_step(1) [OF ok e]
  have "model_at d (Suc n) = projr (advance (fst (model_at d n)) (projr (operations (int (Suc n)))))"
    by (subst model_at.simps(2), subst o) simp
  then show s: "advance (fst (model_at d n)) (projr (operations (int (Suc n)))) = Inr (model_at d (Suc n))"
    and "sequence (fst (model_at d (Suc n))) = Suc (sequence (fst (model_at d n)))"
    by (simp_all only: a sum.sel fst_conv) simp
  show "reachable d (fst (model_at d (Suc n)))"
    using m s by (metis prod.collapse reachable.advanced)
qed

lemma model_at_reachable:
  assumes "0 < d" and "d < 2 ^ 32"
  shows "n \<le> advance_bound \<Longrightarrow> reachable d (fst (model_at d n)) \<and> sequence (fst (model_at d n)) = n
    \<and> run (fst (model_at d 0)) (workload n) = Inr (fst (model_at d n))"
proof (induction n)
  case 0
  obtain m where "model_init d = Inr m"
    using reachable_exists assms by blast
  then show ?case
    using model_init_ok [of d m] assms(1) by (simp add: workload_def reachable.start)
next
  case (Suc n)
  then have r: "reachable d (fst (model_at d n))" and n: "Suc n \<le> advance_bound" by simp_all
  note s = model_at_Suc [OF assms n r]
  have "run m (h @ [ops]) = bindE (run m h) (\<lambda>m. bindE (advance m ops) (\<lambda>(m, rows). Inr m))" for m h ops
    by (induction h arbitrary: m) (auto simp: bindE_assoc case_prod_unfold)
  moreover have "workload (Suc n) = workload n @ [projr (operations (int (Suc n)))]"
    by (simp add: workload_def)
  ultimately have "run (fst (model_at d 0)) (workload (Suc n)) = Inr (fst (model_at d (Suc n)))"
    using Suc s(2) by (simp del: model_at.simps of_nat_Suc add: case_prod_unfold)
  then show ?case
    using Suc s(3,4) by (simp del: model_at.simps)
qed

lemma model_at_fits:
  assumes "0 < d" and "d < 2 ^ 32" and "n \<le> advance_bound"
  shows "model_fits (fst (model_at d n))"
proof -
  obtain m where m: "model_init d = Inr m"
    using reachable_exists assms by blast
  then have "run m (workload n) = Inr (fst (model_at d n))"
    using model_at_reachable [OF assms] by simp
  with m assms(1) workload_fits [OF assms(3)] show ?thesis
    by (rule run_fits)
qed

section \<open>References and frames\<close>

text \<open>
  The dictionary of frames is consistent: every entry is a bucket frame under its own hash. A
  reference refers to \<open>rows\<close> when it is the hash of their frame and is present; the entry it finds
  then is that frame or the frame of other rows with the same digest.
\<close>

definition frames_ok :: "frames \<Rightarrow> bool" where
  "frames_ok frames \<longleftrightarrow> dict_ok frames \<and> (\<forall>(h, x) \<in> set frames.
     \<exists>rows. rows_fit rows \<and> x = hex (bucket_frame rows) \<and> h = hex (rows_digest rows))"

definition refers :: "frames \<Rightarrow> string \<Rightarrow> rows \<Rightarrow> bool" where
  "refers frames h rows \<longleftrightarrow> rows_fit rows \<and> h = hex (rows_digest rows)
     \<and> (\<exists>found. map_of frames h = Some (hex (bucket_frame found)) \<and> rows_fit found
          \<and> rows_digest found = rows_digest rows)"

definition level_refers :: "frames \<Rightarrow> rows level \<Rightarrow> level_refs \<Rightarrow> bool" where
  "level_refers frames l r \<longleftrightarrow> refers frames (curr_ref r) (curr l) \<and> refers frames (snap_ref r) (snap l)
     \<and> rel_option (refers frames) (next_ref r) (pending l)"

text \<open>Later entries keep what earlier references find, up to digest.\<close>

definition grows :: "frames \<Rightarrow> frames \<Rightarrow> bool" where
  "grows frames frames' \<longleftrightarrow> (\<forall>h rows. refers frames h rows \<longrightarrow> refers frames' h rows)"

lemma grows_refl [simp]: "grows f f"
  by (simp add: grows_def)

lemma grows_trans: "grows f g \<Longrightarrow> grows g h \<Longrightarrow> grows f h"
  by (simp add: grows_def)

lemma grows_level: "grows f g \<Longrightarrow> level_refers f l r \<Longrightarrow> level_refers g l r"
  unfolding level_refers_def grows_def by (metis (mono_tags, lifting) option.rel_mono_strong)

lemma remember_spec:
  assumes "rows_fit rows" and "frames_ok frames"
  shows "\<exists>h frames'. remember frames rows = Inr (h, frames') \<and> frames_ok frames'
    \<and> grows frames frames' \<and> refers frames' h rows"
proof -
  let ?h = "hex (rows_digest rows)"
  let ?f = "AList.update ?h (hex (bucket_frame rows)) frames"
  have "dict_ok rows" using assms(1) by (simp add: rows_fit_def)
  then have r: "remember frames rows = Inr (?h, ?f)"
    using assms(1) by (simp add: remember_def encode_bucket_eq Let_def rows_digest_def)
  have "set ?f \<subseteq> insert (?h, hex (bucket_frame rows)) (set frames)"
    using set_dict_update [of frames "[(?h, hex (bucket_frame rows))]"] by (auto simp: dict_update_def)
  then have "frames_ok ?f"
    using assms by (fastforce simp: frames_ok_def)
  moreover have "refers ?f ?h rows"
    using assms(1) by (auto simp: refers_def update_conv)
  moreover have "grows frames ?f"
    using assms(1) by (auto simp: grows_def refers_def update_conv)
  ultimately show ?thesis
    using r by blast
qed

lemma remember_level_spec:
  assumes l: "level_fits l" and f: "frames_ok frames"
  shows "\<exists>r frames'. remember_level frames l = Inr (r, frames') \<and> frames_ok frames'
    \<and> grows frames frames' \<and> level_refers frames' l r"
proof -
  have fit: "rows_fit (curr l)" "rows_fit (snap l)"
    using l by (simp_all add: level_fits_def)
  obtain c f1 where 1: "remember frames (curr l) = Inr (c, f1)" "frames_ok f1" "grows frames f1" "refers f1 c (curr l)"
    using remember_spec [OF fit(1) f] by blast
  obtain s f2 where 2: "remember f1 (snap l) = Inr (s, f2)" "frames_ok f2" "grows f1 f2" "refers f2 s (snap l)"
    using remember_spec [OF fit(2) 1(2)] by blast
  show ?thesis
  proof (cases "pending l")
    case None
    then show ?thesis
      using 1 2 by (auto simp: remember_level_def level_refers_def grows_def)
  next
    case (Some p)
    then have "rows_fit p" using l by (simp add: level_fits_def)
    then obtain h f3 where 3: "remember f2 p = Inr (h, f3)" "frames_ok f3" "grows f2 f3" "refers f3 h p"
      using remember_spec [OF _ 2(2)] by blast
    then show ?thesis
      using 1 2 Some by (auto simp: remember_level_def level_refers_def grows_def)
  qed
qed

lemma remember_levels_spec:
  "\<forall>l \<in> set lvs. level_fits l \<Longrightarrow> frames_ok frames \<Longrightarrow>
     \<exists>rs frames'. remember_levels frames lvs = Inr (rs, frames') \<and> frames_ok frames'
       \<and> grows frames frames' \<and> list_all2 (level_refers frames') lvs rs"
proof (induction lvs arbitrary: frames)
  case Nil
  then show ?case by simp
next
  case (Cons l lvs)
  obtain r f1 where 1: "remember_level frames l = Inr (r, f1)" "frames_ok f1" "grows frames f1" "level_refers f1 l r"
    using remember_level_spec [of l frames] Cons.prems by auto
  obtain rs f2 where 2: "remember_levels f1 lvs = Inr (rs, f2)" "frames_ok f2" "grows f1 f2"
    "list_all2 (level_refers f2) lvs rs"
    using Cons.IH [of f1] Cons.prems 1(2) by auto
  then show ?case
    using 1 by (auto intro: grows_trans grows_level)
qed

section \<open>The recorded steps\<close>

text \<open>Step \<open>n\<close> of the trace of depth \<open>d\<close> is what the model is and hashes to after \<open>n\<close> advances.\<close>

definition step_records :: "frames \<Rightarrow> nat \<Rightarrow> nat \<Rightarrow> trace_step \<Rightarrow> bool" where
  "step_records frames d n s \<longleftrightarrow> step_sequence s = n
     \<and> refers frames (step_batch s) (snd (model_at d n))
     \<and> (\<exists>h. hashes (fst (model_at d n)) = Inr h \<and> step_root s = hex (root_hash h)
          \<and> step_continuation s = hex (continuation_hash h) \<and> step_database s = hex (database_hash h))
     \<and> list_all2 (level_refers frames) (levels (fst (model_at d n))) (step_levels s)"

definition database_at :: "nat \<Rightarrow> nat \<Rightarrow> bytes" where
  "database_at d n = database_hash (projr (hashes (fst (model_at d n))))"

lemma step_records_grows: "step_records f d n s \<Longrightarrow> grows f g \<Longrightarrow> step_records g d n s"
  unfolding step_records_def
  by (auto simp: grows_def elim!: list_all2_mono) (metis grows_def grows_level)

lemma advance_batch_within:
  assumes m: "model_ok m" and a: "advance m ops = Inr (m', batch)"
  shows "within (op_rows ops) batch"
proof -
  obtain e where e: "encode_operations ops = Inr e"
    using advance_encodes [OF a] by blast
  then have "batch = normalize (logical m) e"
    using a advance_step(1) [OF m e] by simp
  then show ?thesis
    using encode_operations_within [OF e subset_refl] by (auto simp: within_def normalize_def)
qed

lemma batch_fits:
  assumes "0 < d" and "d < 2 ^ 32" and "n \<le> advance_bound"
  shows "rows_fit (snd (model_at d n))"
proof (cases n)
  case 0
  then show ?thesis by simp
next
  case (Suc k)
  let ?ops = "projr (operations (int n))"
  have r: "reachable d (fst (model_at d k))"
    using model_at_reachable [OF assms(1,2)] assms(3) Suc by simp
  then have "model_ok (fst (model_at d k))"
    using reachable_ok assms(1) by blast
  moreover have "advance (fst (model_at d k)) ?ops = Inr (fst (model_at d n), snd (model_at d n))"
    using model_at_Suc(2) [OF assms(1,2) _ r] assms(3) Suc by (simp del: model_at.simps of_nat_Suc)
  ultimately have "within (op_rows ?ops) (snd (model_at d n))"
    by (rule advance_batch_within)
  moreover have "\<forall>x \<in> op_rows ?ops. row_fits x"
    using operations_projr [OF assms(3)] unfolding op_rows_def op_encodes_def by fastforce
  moreover have "finite (op_rows ?ops)" "card (op_rows ?ops) < 2 ^ 64"
    using op_rows_card [of ?ops] operations_projr [OF assms(3)] by auto
  ultimately show ?thesis
    by (rule within_fits)
qed

text \<open>The state of the loop before the step of advance \<open>n\<close>.\<close>

definition before_step :: "nat \<Rightarrow> nat \<Rightarrow> corpus_state \<Rightarrow> bool" where
  "before_step d n st \<longleftrightarrow> the_model st = fst (model_at d (n - 1)) \<and> frames_ok (the_frames st)
     \<and> length (the_steps st) = n
     \<and> (\<forall>k < n. step_records (the_frames st) d k (the_steps st ! k))
     \<and> the_history st = concat (map (database_at d) [0..<n])"

lemma corpus_step_spec:
  assumes d: "0 < d" "d < 2 ^ 32" and n: "n \<le> advance_bound" and st: "before_step d n st"
  shows "\<exists>st'. corpus_step n st = Inr st' \<and> before_step d (Suc n) st' \<and> grows (the_frames st) (the_frames st')"
proof -
  let ?m = "fst (model_at d n)" and ?b = "snd (model_at d n)"
  have adv: "(if n = 0 then Inr (the_model st, [])
      else bindE (operations (int n)) (advance (the_model st))) = Inr (?m, ?b)"
  proof (cases n)
    case 0
    then show ?thesis using st by (simp add: before_step_def)
  next
    case (Suc k)
    then have r: "reachable d (fst (model_at d k))"
      using model_at_reachable [OF d] n by simp
    have "Suc k \<le> advance_bound"
      using n Suc by simp
    note s = model_at_Suc(1,2) [OF d this r]
    have "bindE (operations (int (Suc k))) (advance (fst (model_at d k))) = Inr (model_at d (Suc k))"
      using s by (metis bindE.simps(2))
    then show ?thesis
      using Suc st by (simp add: before_step_def del: model_at.simps of_nat_Suc)
  qed
  have fits: "model_fits ?m" and bf: "rows_fit ?b"
    using model_at_fits batch_fits d n by blast+
  obtain h where h: "hashes ?m = Inr h"
    using hashes_eq [OF fits schema_digest(1)] by blast
  have f0: "frames_ok (the_frames st)"
    using st by (simp add: before_step_def)
  obtain b f1 where 1: "remember (the_frames st) ?b = Inr (b, f1)" "frames_ok f1"
    "grows (the_frames st) f1" "refers f1 b ?b"
    using remember_spec [OF bf f0] by blast
  obtain rs f2 where 2: "remember_levels f1 (levels ?m) = Inr (rs, f2)" "frames_ok f2" "grows f1 f2"
    "list_all2 (level_refers f2) (levels ?m) rs"
    using remember_levels_spec [OF _ 1(2)] fits by (meson model_fits_def)
  let ?s = "\<lparr>step_sequence = n, step_batch = b, step_root = hex (root_hash h),
    step_continuation = hex (continuation_hash h), step_database = hex (database_hash h), step_levels = rs\<rparr>"
  have g: "grows (the_frames st) f2"
    using 1(3) 2(3) by (rule grows_trans)
  have new: "step_records f2 d n ?s"
    using h 1(4) 2(3,4) by (simp add: step_records_def grows_def)
  have "corpus_step n st = Inr \<lparr>the_model = ?m, the_steps = the_steps st @ [?s],
      the_history = the_history st @ database_hash h, the_frames = f2\<rparr>"
    unfolding corpus_step_def adv by (simp add: h 1 2 case_prod_unfold)
  moreover have "step_records f2 d k ((the_steps st @ [?s]) ! k)" if "k < Suc n" for k
    using that st new g by (auto simp: before_step_def nth_append less_Suc_eq intro: step_records_grows)
  ultimately show ?thesis
    using st g 2(2) h by (simp add: before_step_def database_at_def del: model_at.simps)
qed

lemma corpus_loop_spec:
  assumes d: "0 < d" "d < 2 ^ 32" and N: "N \<le> Suc advance_bound"
  shows "n \<le> N \<Longrightarrow> before_step d n st \<Longrightarrow> \<exists>st'. corpus_loop [n..<N] st = Inr st' \<and> before_step d N st'
    \<and> grows (the_frames st) (the_frames st')"
proof (induction "N - n" arbitrary: n st)
  case 0
  then show ?case by auto
next
  case (Suc k)
  then have n: "n < N" and k: "k = N - Suc n" by simp_all
  obtain st1 where 1: "corpus_step n st = Inr st1" "before_step d (Suc n) st1" "grows (the_frames st) (the_frames st1)"
    using corpus_step_spec [OF d _ Suc.prems(2)] n N by auto
  obtain st' where "corpus_loop [Suc n..<N] st1 = Inr st'" "before_step d N st'" "grows (the_frames st1) (the_frames st')"
    using Suc.hyps(1) [of "Suc n" st1] k n 1(2) by auto
  then show ?case
    using n 1 by (auto simp: upt_conv_Cons intro: grows_trans)
qed

text \<open>A trace is right when each of its steps records the model's state and the aggregate hashes them.\<close>

definition trace_records :: "frames \<Rightarrow> nat \<Rightarrow> trace \<Rightarrow> bool" where
  "trace_records frames d t \<longleftrightarrow> trace_depth t = d \<and> trace_profile t = hex (profile_of d)
     \<and> length (trace_steps t) = ADVANCES + 1
     \<and> (\<forall>n \<le> ADVANCES. step_records frames d n (trace_steps t ! n))
     \<and> trace_aggregate t = hex (digest (concat (map (database_at d) [0..<ADVANCES + 1])))"

lemma trace_records_grows: "trace_records f d t \<Longrightarrow> grows f g \<Longrightarrow> trace_records g d t"
  unfolding trace_records_def by (blast intro: step_records_grows)

lemma corpus_trace_spec:
  assumes d: "0 < d" "d < 2 ^ 32" and f: "frames_ok frames"
  shows "\<exists>t frames'. corpus_trace d frames = Inr (t, frames') \<and> frames_ok frames'
    \<and> grows frames frames' \<and> trace_records frames' d t"
proof -
  obtain m where m: "model_init d = Inr m"
    using reachable_exists [OF d] by blast
  let ?st = "\<lparr>the_model = m, the_steps = [], the_history = [], the_frames = frames\<rparr>"
  have "before_step d 0 ?st"
    using m f by (simp add: before_step_def)
  then obtain st where l: "corpus_loop [0..<ADVANCES + 1] ?st = Inr st" "before_step d (ADVANCES + 1) st"
    "grows frames (the_frames st)"
    using corpus_loop_spec [OF d, of "ADVANCES + 1" 0 ?st] by (auto simp: ADVANCES_def simp del: upt_rec_numeral)
  have "profile (the_model st) = profile_of d"
  proof -
    have "reachable d (fst (model_at d ADVANCES))"
      using model_at_reachable [OF d, of ADVANCES] by (simp add: ADVANCES_def)
    then show ?thesis
      using reachable_ok [OF _ d(1)] l(2) by (auto simp: before_step_def model_ok_def)
  qed
  then have "trace_records (the_frames st) d \<lparr>trace_depth = d, trace_profile = hex (profile (the_model st)),
      trace_steps = the_steps st, trace_aggregate = hex (digest (the_history st))\<rparr>"
    using l(2) by (simp add: trace_records_def before_step_def)
  moreover have "frames_ok (the_frames st)"
    using l(2) by (simp add: before_step_def)
  ultimately show ?thesis
    using m l(1,3) by (simp add: corpus_trace_def del: upt_Suc)
qed

lemma corpus_traces_spec:
  "\<forall>d \<in> set ds. 0 < d \<and> d < 2 ^ 32 \<Longrightarrow> frames_ok frames \<Longrightarrow>
     \<exists>ts frames'. corpus_traces ds frames = Inr (ts, frames') \<and> frames_ok frames'
       \<and> grows frames frames' \<and> list_all2 (trace_records frames') ds ts"
proof (induction ds arbitrary: frames)
  case Nil
  then show ?case by simp
next
  case (Cons d ds)
  obtain t f1 where 1: "corpus_trace d frames = Inr (t, f1)" "frames_ok f1" "grows frames f1" "trace_records f1 d t"
    using corpus_trace_spec [of d frames] Cons.prems by auto
  obtain ts f2 where 2: "corpus_traces ds f1 = Inr (ts, f2)" "frames_ok f2" "grows f1 f2"
    "list_all2 (trace_records f2) ds ts"
    using Cons.IH [of f1] Cons.prems 1(2) by auto
  then show ?case
    using 1 by (auto intro: grows_trans trace_records_grows)
qed

lemma corpus_spec:
  "\<exists>data. corpus = Inr data \<and> list_all2 (trace_records (data_buckets data)) [1, 2, 3, 11] (data_traces data)
    \<and> frames_ok (data_buckets data) \<and> sorted_wrt (<) (map fst (data_buckets data))
    \<and> data_operations data = [] # workload ADVANCES \<and> data_schema_hash data = hex schema_digest"
proof -
  have "frames_ok []" by (simp add: frames_ok_def)
  then obtain ts f where 1: "corpus_traces [1, 2, 3, 11] [] = Inr (ts, f)" "frames_ok f"
    "list_all2 (trace_records f) [1, 2, 3, 11] ts"
    using corpus_traces_spec [of "[1, 2, 3, 11]" "[]"] by auto
  have ok: "dict_ok f" using 1(2) by (simp add: frames_ok_def)
  then have "grows f (sorted_items f)"
    by (simp add: grows_def refers_def)
  then have "list_all2 (trace_records (sorted_items f)) [1, 2, 3, 11] ts"
    using 1(3) by (blast intro: list_all2_mono trace_records_grows)
  moreover have "frames_ok (sorted_items f)"
    using 1(2) by (auto simp: frames_ok_def dict_ok_def sorted_items_def distinct_map)
  moreover have ops: "mapE (\<lambda>n. operations (int n)) [1..<ADVANCES + 1] = Inr (workload ADVANCES)"
    unfolding workload_def using operations_projr by (intro mapE_total) (auto simp: ADVANCES_def)
  obtain descriptor where descriptor: "schema_descriptor = Inr descriptor"
    using schema_digest(1) by (auto simp: schema_hash_def bindE_Inr_iff)
  let ?data = "\<lparr>data_format = ''bucketlist-zig-independent-v1'', data_namespace = namespace,
      data_version = version, data_schema_descriptor = hex descriptor, data_schema_hash = hex schema_digest,
      data_operations = [] # workload ADVANCES, data_buckets = sorted_items f, data_traces = ts\<rparr>"
  have "corpus = Inr ?data"
    unfolding corpus_def 1(1) ops descriptor schema_digest(1) by simp
  ultimately show ?thesis
    using sorted_items_keys [OF ok] by (intro exI [of _ ?data]) simp
qed

section \<open>The oracle's view of the corpus\<close>

text \<open>The dictionary of decoded frames that \<open>main\<close> of \<open>tools/check-core-oracle.py\<close> builds.\<close>

definition decoded_frames :: "corpus_data \<Rightarrow> (string, (string, string option) dict) dict result" where
  "decoded_frames data =
     bindE (mapE (\<lambda>(h, x). bindE (rows_from_frame x) (\<lambda>rows. Inr (h, rows))) (data_buckets data)) (\<lambda>items.
       Inr (dict_update [] items))"

definition oracle_rows :: "rows \<Rightarrow> (string, string option) dict" where
  "oracle_rows rows = map oracle_row (sorted_items rows)"

lemma rows_from_bucket_frame: "rows_fit rows \<Longrightarrow> rows_from_frame (hex (bucket_frame rows)) = Inr (oracle_rows rows)"
  unfolding oracle_rows_def by (rule read_bucket_frame)

lemma decoded_frames_spec:
  assumes f: "frames_ok (data_buckets data)"
  shows "\<exists>frames. decoded_frames data = Inr frames
    \<and> (\<forall>h rows. refers (data_buckets data) h rows \<longrightarrow>
         (\<exists>found. map_of frames h = Some (oracle_rows found) \<and> rows_fit found \<and> rows_digest found = rows_digest rows))"
proof -
  let ?b = "data_buckets data"
  let ?g = "\<lambda>(h, x). (h, projr (rows_from_frame x))"
  have each: "\<exists>rows. rows_fit rows \<and> x = hex (bucket_frame rows)" if "(h, x) \<in> set ?b" for h x
    using f that by (fastforce simp: frames_ok_def)
  have "mapE (\<lambda>(h, x). bindE (rows_from_frame x) (\<lambda>rows. Inr (h, rows))) ?b = Inr (map ?g ?b)"
    using each by (intro mapE_total) (fastforce simp: rows_from_bucket_frame)
  then have d: "decoded_frames data = Inr (dict_update [] (map ?g ?b))"
    by (simp add: decoded_frames_def)
  have "dict_ok (map ?g ?b)"
    using f by (simp add: frames_ok_def dict_ok_def comp_def case_prod_unfold)
  then have look: "map_of (dict_update [] (map ?g ?b)) h = map_option (\<lambda>x. projr (rows_from_frame x)) (map_of ?b h)" for h
    by (simp add: map_of_dict_update map_of_map split: option.split)
  have "\<exists>found. map_of (dict_update [] (map ?g ?b)) h = Some (oracle_rows found) \<and> rows_fit found
      \<and> rows_digest found = rows_digest rows" if "refers ?b h rows" for h rows
    using that by (auto simp: refers_def look rows_from_bucket_frame)
  then show ?thesis
    using d by blast
qed

section \<open>Properties of the corpus\<close>

text \<open>
  C7: Fixture generation never raises, and what it writes is right: the traces have depths 1, 2, 3
  and 11; step \<open>n\<close> of each, for every \<open>n\<close> up to 128, records the sequence, the three hashes of the
  model after \<open>n\<close> advances of the workload, and references to its batch and to every current,
  snapshot and pending bucket that resolve in the bucket list; the aggregate hashes the database
  hashes in order; the bucket list is strictly sorted by hash and holds frames under their own
  hashes.
\<close>

theorem corpus_records:
  "\<exists>data. corpus = Inr data \<and> list_all2 (trace_records (data_buckets data)) [1, 2, 3, 11] (data_traces data)
    \<and> frames_ok (data_buckets data) \<and> sorted_wrt (<) (map fst (data_buckets data))
    \<and> data_operations data = [] # workload ADVANCES \<and> data_schema_hash data = hex schema_digest"
  by (rule corpus_spec)

text \<open>
  C9: The oracle decodes every frame of the corpus, and what it finds under a reference to a
  bucket is that bucket's rows, in hexadecimal, unless two different frames have one digest.
\<close>

theorem corpus_decodes:
  assumes "corpus = Inr data"
  shows "\<exists>frames. decoded_frames data = Inr frames
    \<and> (\<forall>h rows. refers (data_buckets data) h rows \<longrightarrow>
         map_of frames h = Some (oracle_rows rows)
         \<or> (\<exists>found. bucket_frame found \<noteq> bucket_frame rows \<and> digest (bucket_frame found) = digest (bucket_frame rows)))"
proof -
  have f: "frames_ok (data_buckets data)"
    using corpus_spec assms by (metis sum.inject(2))
  have "map_of frames h = Some (oracle_rows rows)
      \<or> (\<exists>found. bucket_frame found \<noteq> bucket_frame rows \<and> digest (bucket_frame found) = digest (bucket_frame rows))"
    if "refers (data_buckets data) h rows" and "map_of frames h = Some (oracle_rows found)" and "rows_fit found"
      and "rows_digest found = rows_digest rows" for h rows found frames
  proof (cases "bucket_frame found = bucket_frame rows")
    case True
    then have "sorted_items found = sorted_items rows"
      using that by (intro bucket_frame_inj) (auto simp: refers_def)
    with that show ?thesis by (simp add: oracle_rows_def)
  next
    case False
    with that show ?thesis by (auto simp: rows_digest_def)
  qed
  then show ?thesis
    using decoded_frames_spec [OF f] by metis
qed

theorem corpus_decodes_witness:
  "\<exists>data frames. corpus = Inr data \<and> decoded_frames data = Inr frames"
  using corpus_spec corpus_decodes by metis

end
