(* ===== verification/Py_Text.thy ===== *)
theory Py_Text
  imports Prelude "HOL-Library.Char_ord"
begin

text \<open>
  The string operations that the checkers of \<open>tools/\<close> read and write their text with:
  \<open>str.split()\<close>, \<open>str.splitlines()\<close>, \<open>str.join\<close> and \<open>int(text)\<close>, for strings whose characters are
  below 256. The lemmas give the round trips: an integer reads back from its decimal text, and
  words joined by spaces split into the same words.
\<close>

section \<open>Splitting and joining\<close>

text \<open>The white space of \<open>str.split()\<close> and the line boundaries of \<open>str.splitlines()\<close>.\<close>

definition py_space :: "char \<Rightarrow> bool" where
  "py_space c = (of_char c \<in> {9, 10, 11, 12, 13, 28, 29, 30, 31, 32, 133, 160 :: nat})"

definition line_break :: "char \<Rightarrow> bool" where
  "line_break c = (of_char c \<in> {10, 11, 12, 13, 28, 29, 30, 133 :: nat})"

fun split_from :: "string \<Rightarrow> string \<Rightarrow> string list" where
  "split_from w [] = (if w = [] then [] else [w])"
| "split_from w (c # cs) =
     (if py_space c then (if w = [] then split_from [] cs else w # split_from [] cs)
      else split_from (w @ [c]) cs)"

definition py_split :: "string \<Rightarrow> string list" where
  "py_split s = split_from [] s"

fun lines_from :: "string \<Rightarrow> string \<Rightarrow> string list" where
  "lines_from l [] = (if l = [] then [] else [l])"
| "lines_from l (c # cs) =
     (if c = CHR 13 \<and> cs \<noteq> [] \<and> hd cs = CHR 10 then l # lines_from [] (tl cs)
      else if line_break c then l # lines_from [] cs
      else lines_from (l @ [c]) cs)"

definition splitlines :: "string \<Rightarrow> string list" where
  "splitlines s = lines_from [] s"

fun join :: "string \<Rightarrow> string list \<Rightarrow> string" where
  "join sep [] = []"
| "join sep [w] = w"
| "join sep (w # v # ws) = w @ sep @ join sep (v # ws)"

section \<open>Searching and trimming\<close>

text \<open>\<open>w in s\<close>\<close>

fun occurs :: "string \<Rightarrow> string \<Rightarrow> bool" where
  "occurs w [] = (w = [])"
| "occurs w (c # s) = (take (length w) (c # s) = w \<or> occurs w s)"

lemma occurs_iff: "occurs w s \<longleftrightarrow> (\<exists>a b. s = a @ w @ b)"
proof (induction s)
  case (Cons c s)
  have "take (length w) (c # s) = w \<longleftrightarrow> (\<exists>b. c # s = w @ b)"
    by (metis append_eq_conv_conj append_take_drop_id)
  then show ?case
    unfolding occurs.simps Cons by (metis append_Cons append_Nil list.exhaust list.inject)
qed simp

text \<open>\<open>str.strip()\<close>\<close>

definition strip :: "string \<Rightarrow> string" where
  "strip s = rev (dropWhile py_space (rev (dropWhile py_space s)))"

section \<open>Text of a process and of a file\<close>

text \<open>Text mode: every line end is read as a newline.\<close>

fun newlines :: "string \<Rightarrow> string" where
  "newlines [] = []"
| "newlines [c] = (if c = CHR 13 then [CHR 10] else [c])"
| "newlines (c # d # s) =
     (if c = CHR 13 then if d = CHR 10 then CHR 10 # newlines s else CHR 10 # newlines (d # s)
      else c # newlines (d # s))"

record completed =
  stdout_text :: string
  stderr_text :: string
  exit_code :: int

lemma newlines_clean: "CHR 13 \<notin> set (newlines s)"
  by (induction s rule: newlines.induct) auto

lemma newlines_id: "CHR 13 \<notin> set s \<Longrightarrow> newlines s = s"
  by (induction s rule: newlines.induct) auto

section \<open>Decimal integers\<close>

definition digit_value :: "char \<Rightarrow> nat option" where
  "digit_value c = (let n = of_char c :: nat in if 48 \<le> n \<and> n \<le> 57 then Some (n - 48) else None)"

text \<open>Digits with single underscores between them; the flag says that the last one was a digit.\<close>

fun digits :: "nat \<Rightarrow> bool \<Rightarrow> string \<Rightarrow> nat option" where
  "digits acc after_digit [] = (if after_digit then Some acc else None)"
| "digits acc after_digit (c # cs) =
     (case digit_value c of
        Some d \<Rightarrow> digits (10 * acc + d) True cs
      | None \<Rightarrow> if c = CHR ''_'' \<and> after_digit then digits acc False cs else None)"

text \<open>\<open>int(word)\<close> of a word without white space.\<close>

definition py_int :: "string \<Rightarrow> int result" where
  "py_int s = (case (if s \<noteq> [] \<and> hd s \<in> {CHR ''-'', CHR ''+''} then digits 0 False (tl s) else digits 0 False s) of
     None \<Rightarrow> Inl (ValueError ''invalid literal for int()'')
   | Some n \<Rightarrow> Inr (if s \<noteq> [] \<and> hd s = CHR ''-'' then - int n else int n))"

lemma hex_digit_decimal_all:
  "\<forall>d \<in> set [0..<10]. digit_value (hex_digit d) = Some d \<and> \<not> py_space (hex_digit d) \<and> \<not> line_break (hex_digit d)
     \<and> hex_digit d \<notin> {CHR ''-'', CHR ''+'', CHR ''_''}"
  by (simp add: hex_digit_def digit_value_def py_space_def line_break_def upt_rec)

lemma hex_digit_decimal:
  assumes "d < 10"
  shows "digit_value (hex_digit d) = Some d" and "\<not> py_space (hex_digit d)" and "\<not> line_break (hex_digit d)"
    and "hex_digit d \<noteq> CHR ''-''" and "hex_digit d \<noteq> CHR ''+''"
  using hex_digit_decimal_all [THEN bspec, of d] assms by simp_all

lemma digits_append: "digits acc b xs = Some n \<Longrightarrow> xs \<noteq> [] \<Longrightarrow> digits acc b (xs @ ys) = digits n True ys"
proof (induction xs arbitrary: acc b)
  case Nil
  then show ?case by simp
next
  case (Cons x xs)
  show ?case
  proof (cases "digit_value x")
    case None
    then show ?thesis
      using Cons.prems Cons.IH [of acc False] by (cases "xs = []") (auto split: if_splits)
  next
    case (Some d)
    then show ?thesis
      using Cons.prems Cons.IH [of "10 * acc + d" True] by (cases "xs = []") auto
  qed
qed

text \<open>Decimal text is a non-empty string of digits that reads back.\<close>

definition decimal :: "string \<Rightarrow> bool" where
  "decimal s \<longleftrightarrow> s \<noteq> [] \<and> (\<forall>c \<in> set s. \<exists>d < 10. c = hex_digit d)"

lemma decimal_dec_nat: "decimal (dec_nat n)"
proof (induction n rule: dec_nat.induct)
  case (1 n)
  show ?case
  proof (cases "n < 10")
    case True
    then show ?thesis
      by (subst dec_nat.simps) (auto simp: decimal_def)
  next
    case False
    then show ?thesis
      using 1 by (subst dec_nat.simps) (auto simp: decimal_def intro: exI [of _ "n mod 10"])
  qed
qed

lemma digits_dec_nat: "digits 0 False (dec_nat n) = Some n"
proof (induction n rule: dec_nat.induct)
  case (1 n)
  show ?case
  proof (cases "n < 10")
    case True
    then show ?thesis
      by (subst dec_nat.simps) (simp add: hex_digit_decimal)
  next
    case False
    then have "digits 0 False (dec_nat (n div 10)) = Some (n div 10)"
      by (rule 1)
    moreover have "dec_nat (n div 10) \<noteq> []"
      using decimal_dec_nat by (simp add: decimal_def)
    ultimately have "digits 0 False (dec_nat (n div 10) @ [hex_digit (n mod 10)]) = Some n"
      by (subst digits_append) (auto simp: hex_digit_decimal)
    with False show ?thesis
      by (subst dec_nat.simps) simp
  qed
qed

lemma dec_nat_hd: "\<exists>d cs. d < 10 \<and> dec_nat n = hex_digit d # cs"
  using decimal_dec_nat [of n] by (cases "dec_nat n") (auto simp: decimal_def)

lemma py_int_dec [simp]: "py_int (dec n) = Inr n"
proof (cases "n < 0")
  case True
  then show ?thesis
    by (simp add: py_int_def dec_def digits_dec_nat)
next
  case False
  obtain d cs where d: "d < 10" "dec_nat (nat n) = hex_digit d # cs"
    using dec_nat_hd by blast
  have "digits 0 False (hex_digit d # cs) = Some (nat n)"
    using digits_dec_nat [of "nat n"] d(2) by simp
  then show ?thesis
    using False hex_digit_decimal [OF d(1)] by (simp add: py_int_def dec_def d(2) del: digits.simps)
qed

section \<open>Words\<close>

text \<open>A word that survives joining and splitting.\<close>

definition word_ok :: "string \<Rightarrow> bool" where
  "word_ok w \<longleftrightarrow> w \<noteq> [] \<and> (\<forall>c \<in> set w. \<not> py_space c)"

lemma split_from_word: "\<forall>c \<in> set w. \<not> py_space c \<Longrightarrow> split_from v (w @ s) = split_from (v @ w) s"
  by (induction w arbitrary: v) auto

lemma py_split_join: "\<forall>w \<in> set ws. word_ok w \<Longrightarrow> py_split (join '' '' ws) = ws"
proof (induction ws rule: induct_list012)
  case 1
  then show ?case by (simp add: py_split_def)
next
  case (2 w)
  then show ?case
    using split_from_word [of w "[]" "[]"] by (simp add: py_split_def word_ok_def)
next
  case (3 w v ws)
  have "py_split (join '' '' (w # v # ws)) = split_from w ('' '' @ join '' '' (v # ws))"
    using 3(3) split_from_word [of w "[]"] by (simp add: py_split_def word_ok_def)
  also have "\<dots> = w # v # ws"
    using 3 by (simp add: py_split_def word_ok_def py_space_def)
  finally show ?case .
qed

lemma word_ok_dec: "word_ok (dec n)"
proof -
  have "\<forall>c \<in> set (dec_nat k). \<not> py_space c" for k
    using decimal_dec_nat [of k] by (auto simp: decimal_def hex_digit_decimal)
  moreover have "dec_nat k \<noteq> []" for k
    using decimal_dec_nat [of k] by (simp add: decimal_def)
  ultimately show ?thesis
    by (simp add: word_ok_def dec_def py_space_def)
qed

lemma lines_from_line: "\<forall>c \<in> set w. \<not> line_break c \<Longrightarrow> lines_from l (w @ s) = lines_from (l @ w) s"
proof (induction w arbitrary: l)
  case Nil
  then show ?case by simp
next
  case (Cons c w)
  then have "c \<noteq> CHR 13" by (auto simp: line_break_def)
  with Cons show ?case by simp
qed

text \<open>Lines written with \<open>"\n".join(lines) + "\n"\<close> are the lines \<open>splitlines\<close> finds.\<close>

lemma splitlines_concat:
  "\<forall>l \<in> set ls. \<forall>c \<in> set l. \<not> line_break c \<Longrightarrow> splitlines (concat (map (\<lambda>l. l @ [CHR 10]) ls)) = ls"
proof (induction ls)
  case Nil
  then show ?case by (simp add: splitlines_def)
next
  case (Cons l ls)
  then show ?case
    using lines_from_line [of l "[]"] by (simp add: splitlines_def line_break_def)
qed

section \<open>JSON strings\<close>

abbreviation dq :: string where
  "dq \<equiv> [CHR 34]"

text \<open>The string literals \<open>json.dumps\<close> writes with \<open>ensure_ascii\<close>.\<close>

definition escape_char :: "char \<Rightarrow> string" where
  "escape_char c = (let n = of_char c :: nat in
     if n = 34 \<or> n = 92 then [CHR 92, c]
     else if 32 \<le> n \<and> n \<le> 126 then [c]
     else if n = 10 then [CHR 92, CHR ''n''] else if n = 13 then [CHR 92, CHR ''r'']
     else if n = 9 then [CHR 92, CHR ''t''] else if n = 12 then [CHR 92, CHR ''f'']
     else if n = 8 then [CHR 92, CHR ''b'']
     else [CHR 92, CHR ''u'', CHR ''0'', CHR ''0''] @ hex [of_nat n])"

definition json_string :: "string \<Rightarrow> string" where
  "json_string s = dq @ concat (map escape_char s) @ dq"

lemma hex_byte_code: "hex [a] @ s = hex [b] @ t \<Longrightarrow> a = b \<and> s = t"
  using hex_inj [of "[a]" "[b]"] by (auto simp: hex_def)

lemma char_eqI: "of_char c = (n :: nat) \<Longrightarrow> of_char d = n \<Longrightarrow> c = d"
  by (metis of_char_eq_iff)

lemma of_char_byte: "(of_nat (of_char c) :: byte) = of_nat (of_char d) \<longleftrightarrow> c = d"
proof -
  have "unat (of_nat (of_char c) :: byte) = of_char c" for c :: char
    by (cases c) (simp add: of_char_def unat_of_nat)
  then show ?thesis by (metis of_char_eq_iff)
qed

text \<open>The escapes are a prefix code in which no code word starts with the closing quote.\<close>

lemma escape_char_first: "escape_char c @ s \<noteq> dq @ t"
  by (auto simp: escape_char_def Let_def)

lemma escape_char_code:
  "escape_char c @ s = escape_char d @ t \<Longrightarrow> c = d \<and> s = t"
  by (auto simp: escape_char_def Let_def of_char_byte split: if_splits dest!: hex_byte_code intro: char_eqI)

lemma json_string_code: "json_string s @ x = json_string t @ y \<Longrightarrow> s = t \<and> x = y"
proof -
  have "concat (map escape_char s) @ dq @ x = concat (map escape_char t) @ dq @ y \<Longrightarrow> s = t \<and> x = y"
  proof (induction s arbitrary: t)
    case Nil
    then show ?case
      using escape_char_first [of "hd t" "concat (map escape_char (tl t)) @ dq @ y" x] by (cases t) auto
  next
    case (Cons c s)
    show ?case
    proof (cases t)
      case Nil
      then show ?thesis
        using Cons.prems escape_char_first [of c "concat (map escape_char s) @ dq @ x" y] by simp
    next
      case (Cons d t')
      then show ?thesis
        using Cons.prems Cons.IH [of t'] escape_char_code [of c "concat (map escape_char s) @ dq @ x" d] by auto
    qed
  qed
  then show "json_string s @ x = json_string t @ y \<Longrightarrow> s = t \<and> x = y"
    by (simp add: json_string_def)
qed

end
