(* ===== verification/Core_Oracle.thy ===== *)
theory Core_Oracle
  imports Corpus Py_Text
begin

text \<open>
  The two comparisons of \<open>tools/check-core-oracle.py\<close> (lines 83 to 128 and the loop of \<open>main\<close>):
  \<open>check_geometry\<close> and \<open>check_trace\<close>. The compiled C++ program is a parameter \<open>binary\<close>, from its
  arguments and its standard input to its standard output or the exception of a failed run;
  nothing is assumed of it. The lemmas show that a check that returns has compared every number
  and every bucket, and that what it compared against is the schedule of theory Levels.
\<close>

section \<open>The geometry check\<close>

type_synonym process = "string list \<Rightarrow> string option \<Rightarrow> string result"

text \<open>
  \<open>size == 4 ** power\<close>. A negative power is a float, which equals no positive integer size;
  below -537 it underflows to zero, and a power beyond the range of floats overflows.
\<close>

definition float_limit :: int where
  "float_limit = 2 ^ 1024 - 2 ^ 970"

definition equals_power :: "int \<Rightarrow> int \<Rightarrow> bool result" where
  "equals_power sz expo =
     (if 0 \<le> expo then Inr (sz = 4 ^ nat expo)
      else if expo \<le> - float_limit then Inl OverflowError
      else Inr (sz = 0 \<and> expo \<le> - 538))"

definition check_point :: "nat \<Rightarrow> int \<Rightarrow> int \<Rightarrow> int \<Rightarrow> int \<Rightarrow> int \<Rightarrow> int \<Rightarrow> unit result" where
  "check_point d level n sz half_size spill vacant =
     bindE (equals_power sz (level + 1)) (\<lambda>same.
     bindE (guardE AssertionError same) (\<lambda>_.
     bindE (guardE AssertionError (half_size = sz div 2)) (\<lambda>_.
     bindE (if level < int d - 1
            then if half_size = 0 then Inl ZeroDivisionError else Inr (n mod half_size = 0)
            else Inr False) (\<lambda>spilling.
     bindE (guardE AssertionError ((spill \<noteq> 0) = spilling)) (\<lambda>_.
     let expected_empty =
       (if level \<noteq> 0 \<and> level \<noteq> int d - 1
        then let incoming = 2 * 4 ^ nat (level - 1); start = n div incoming * incoming
             in (start + incoming) mod half_size = 0
        else False)
     in guardE AssertionError ((vacant \<noteq> 0) = expected_empty))))))"

text \<open>One line; the unpacking reads a seventh field only to find that there is one too many.\<close>

definition geometry_line :: "nat \<Rightarrow> string \<Rightarrow> unit result" where
  "geometry_line d line =
     bindE (mapE py_int (take 7 (py_split line))) (\<lambda>fields.
       case fields of
         [level, n, sz, half_size, spill, vacant] \<Rightarrow> check_point d level n sz half_size spill vacant
       | _ \<Rightarrow> Inl (ValueError ''unpack''))"

fun geometry_lines :: "nat \<Rightarrow> string list \<Rightarrow> nat \<Rightarrow> nat result" where
  "geometry_lines d [] checks = Inr checks"
| "geometry_lines d (line # ls) checks =
     bindE (geometry_line d line) (\<lambda>_. geometry_lines d ls (checks + 1))"

definition check_geometry :: "process \<Rightarrow> nat \<Rightarrow> nat result" where
  "check_geometry binary d =
     bindE (binary [dec (int d), ''geometry''] None) (\<lambda>output. geometry_lines d (splitlines output) 0)"

section \<open>The trace check\<close>

type_synonym text_rows = "(string, string option) dict"
type_synonym cell = "int \<times> int \<times> string"

text \<open>The batches of a trace, as the program reads them.\<close>

definition step_input :: "(string, text_rows) dict \<Rightarrow> trace_step \<Rightarrow> string list result" where
  "step_input frames step =
     bindE (dict_index frames (step_batch step)) (\<lambda>rows.
       Inr ((dec (int (step_sequence step)) @ '' '' @ dec (int (length rows)))
         # map (\<lambda>(key, value). key @ '' '' @ (case value of None \<Rightarrow> ''-'' | Some v \<Rightarrow> v)) (sorted_items rows)))"

definition trace_input :: "(string, text_rows) dict \<Rightarrow> trace \<Rightarrow> string result" where
  "trace_input frames t =
     bindE (mapE (step_input frames) (drop 1 (trace_steps t))) (\<lambda>input_lines.
       Inr (join [CHR 10] (concat input_lines) @ [CHR 10]))"

text \<open>The dictionary comprehension over the fields from the fifth on, in pairs.\<close>

fun pair_up :: "text_rows \<Rightarrow> string list \<Rightarrow> text_rows" where
  "pair_up rows (k # v # fs) = pair_up (AList.update k (if v = ''-'' then None else Some v) rows) fs"
| "pair_up rows fs = rows"

definition output_line :: "string \<Rightarrow> (cell, text_rows option) dict \<Rightarrow> (cell, text_rows option) dict result" where
  "output_line line actual =
     (let fields = py_split line in
      bindE (mapE py_int (take 2 fields)) (\<lambda>firsts.
      case firsts of
        [seq, index] \<Rightarrow>
          if length fields \<le> 3 then Inl IndexError
          else let role = fields ! 2 in
            bindE (py_int (fields ! 3)) (\<lambda>count.
            bindE (guardE AssertionError (int (length fields) = 4 + max count 0 * 2)) (\<lambda>_.
            let rows = (if count = - 1 then None else Some (pair_up [] (drop 4 fields))) in
            Inr (AList.update (seq, index, role) rows actual)))
      | _ \<Rightarrow> Inl (ValueError ''unpack'')))"

fun output_lines :: "string list \<Rightarrow> (cell, text_rows option) dict \<Rightarrow> (cell, text_rows option) dict result" where
  "output_lines [] actual = Inr actual"
| "output_lines (line # ls) actual = bindE (output_line line actual) (output_lines ls)"

text \<open>The three cells of a level and the references they are compared with, in the loops' order.\<close>

definition level_cells :: "nat \<Rightarrow> nat \<times> level_refs \<Rightarrow> (cell \<times> string option) list" where
  "level_cells seq il = (case il of (i, r) \<Rightarrow>
     [((int seq, int i, ''c''), Some (curr_ref r)),
      ((int seq, int i, ''s''), Some (snap_ref r)),
      ((int seq, int i, ''n''), next_ref r)])"

definition trace_cells :: "trace \<Rightarrow> (cell \<times> string option) list" where
  "trace_cells t = concat (map (\<lambda>step. concat (map (level_cells (step_sequence step))
     (zip [0..<length (step_levels step)] (step_levels step)))) (trace_steps t))"

definition expected_rows :: "(string, text_rows) dict \<Rightarrow> string option \<Rightarrow> text_rows option result" where
  "expected_rows frames ref =
     (case ref of None \<Rightarrow> Inr None | Some r \<Rightarrow> bindE (dict_index frames r) (\<lambda>rows. Inr (Some rows)))"

text \<open>\<open>==\<close> of two values that are \<open>None\<close> or a dictionary.\<close>

fun same_rows :: "text_rows option \<Rightarrow> text_rows option \<Rightarrow> bool" where
  "same_rows None None = True"
| "same_rows (Some a) (Some b) = dict_eq a b"
| "same_rows _ _ = False"

text \<open>\<open>actual.pop(key)\<close>, the comparison and the count, for each cell.\<close>

fun check_cells :: "(string, text_rows) dict \<Rightarrow> (cell \<times> string option) list
    \<Rightarrow> (cell, text_rows option) dict \<Rightarrow> nat \<Rightarrow> ((cell, text_rows option) dict \<times> nat) result" where
  "check_cells frames [] actual checks = Inr (actual, checks)"
| "check_cells frames ((key, ref) # cells) actual checks =
     bindE (expected_rows frames ref) (\<lambda>expected.
     bindE (dict_index actual key) (\<lambda>got.
     bindE (guardE AssertionError (same_rows got expected)) (\<lambda>_.
       check_cells frames cells (AList.delete key actual) (checks + 1))))"

definition check_trace :: "process \<Rightarrow> trace \<Rightarrow> (string, text_rows) dict \<Rightarrow> nat result" where
  "check_trace binary t frames =
     bindE (trace_input frames t) (\<lambda>input.
     bindE (binary [dec (int (trace_depth t))] (Some input)) (\<lambda>stdout.
     bindE (output_lines (splitlines stdout) []) (\<lambda>actual.
     bindE (check_cells frames (trace_cells t) actual 0) (\<lambda>(rest, checks).
     bindE (guardE AssertionError (rest = [])) (\<lambda>_. Inr checks)))))"

text \<open>The loop of \<open>main\<close> over the traces.\<close>

fun check_traces :: "process \<Rightarrow> (string, text_rows) dict \<Rightarrow> trace list \<Rightarrow> nat \<Rightarrow> nat \<Rightarrow> (nat \<times> nat) result" where
  "check_traces binary frames [] g b = Inr (g, b)"
| "check_traces binary frames (t # ts) g b =
     bindE (check_geometry binary (trace_depth t)) (\<lambda>g'.
     bindE (check_trace binary t frames) (\<lambda>b'. check_traces binary frames ts (g + g') (b + b')))"

definition oracle_main :: "process \<Rightarrow> corpus_data \<Rightarrow> (nat \<times> nat) result" where
  "oracle_main binary data =
     bindE (decoded_frames data) (\<lambda>frames. check_traces binary frames (data_traces data) 0 0)"

section \<open>What the checks compare\<close>

lemma geometry_lines_iff:
  "geometry_lines d ls c = Inr k \<longleftrightarrow> (\<forall>line \<in> set ls. geometry_line d line = Inr ()) \<and> k = c + length ls"
  by (induction ls arbitrary: c) (auto simp: bindE_Inr_iff)

lemma equals_power_cases:
  "0 \<le> e \<Longrightarrow> equals_power s e = Inr (s = 4 ^ nat e)"
  "e < 0 \<Longrightarrow> equals_power s e = Inr b \<Longrightarrow> b \<Longrightarrow> s = 0"
  by (auto simp: equals_power_def split: if_splits)

lemma two_guards:
  "bindE (if P then Inr () else Inl e) (\<lambda>_. if Q then Inr () else Inl e') = Inr () \<longleftrightarrow> P \<and> Q"
  by simp

text \<open>A point passes exactly when it is a level's size and half and the schedule's two decisions.\<close>

lemma check_point_iff:
  assumes "0 < d"
  shows "check_point d level n sz half_size spill vacant = Inr () \<longleftrightarrow>
    0 \<le> level \<and> sz = 4 ^ (nat level + 1) \<and> half_size = 2 * 4 ^ nat level
    \<and> (spill \<noteq> 0 \<longleftrightarrow> level < int d - 1 \<and> n mod half_size = 0)
    \<and> (vacant \<noteq> 0 \<longleftrightarrow> level \<noteq> 0 \<and> level \<noteq> int d - 1
        \<and> (n div (2 * 4 ^ nat (level - 1)) * (2 * 4 ^ nat (level - 1)) + 2 * 4 ^ nat (level - 1)) mod half_size = 0)"
proof (cases "0 \<le> level")
  case True
  then have "nat (level + 1) = nat level + 1" by simp
  then have p: "equals_power sz (level + 1) = Inr (sz = 4 ^ (nat level + 1))"
    using True equals_power_cases(1) [of "level + 1" sz] by simp
  have h: "(4::int) ^ (nat level + 1) div 2 = 2 * 4 ^ nat level" and pos: "(2::int) * 4 ^ nat level \<noteq> 0"
    by simp_all
  show ?thesis
  proof (cases "sz = 4 ^ (nat level + 1) \<and> half_size = 2 * 4 ^ nat level")
    case False
    have "check_point d level n sz half_size spill vacant = Inl AssertionError"
    proof (cases "sz = 4 ^ (nat level + 1)")
      case True
      then have "(half_size = sz div 2) = False" using False h by simp
      then show ?thesis
        unfolding check_point_def p bindE.simps guardE_def using True
        by (simp only: if_True if_False bindE.simps simp_thms)
    next
      case wrong: False
      then show ?thesis
        unfolding check_point_def p bindE.simps guardE_def by (simp only: if_False bindE.simps simp_thms)
    qed
    with False show ?thesis by (simp only: sum.simps simp_thms) blast
  next
    case right: True
    define look where "look \<longleftrightarrow>
      (n div (2 * 4 ^ nat (level - 1)) * (2 * 4 ^ nat (level - 1)) + 2 * 4 ^ nat (level - 1)) mod half_size = 0"
    have e: "(sz = 4 ^ (nat level + 1)) = True" "(half_size = sz div 2) = True" "(half_size = 0) = False"
      "(half_size = 2 * 4 ^ nat level) = True" "(0 \<le> level) = True"
      using right True h pos by simp_all
    show ?thesis
      unfolding check_point_def p bindE.simps Let_def look_def [symmetric] guardE_def e if_True if_False
      by (cases "level < int d - 1") (simp_all only: if_True if_False bindE.simps simp_thms two_guards if_bool_eq_conj, blast+)
  qed
next
  case False
  then have l: "(level < int d - 1) = True" using assms by simp
  have "check_point d level n sz half_size spill vacant \<noteq> Inr ()"
  proof (cases "equals_power sz (level + 1)")
    case (Inl e)
    then show ?thesis
      unfolding check_point_def Inl bindE.simps by simp
  next
    case (Inr b)
    show ?thesis
    proof (cases "b \<and> half_size = sz div 2")
      case True
      have "sz = 1 \<or> sz = 0"
      proof (cases "level + 1 = 0")
        case True
        then show ?thesis
          using Inr \<open>b \<and> half_size = sz div 2\<close> equals_power_cases(1) [of "level + 1" sz] by simp
      next
        case neg: False
        then show ?thesis
          using Inr \<open>b \<and> half_size = sz div 2\<close> False equals_power_cases(2) [of "level + 1" sz b] by simp
      qed
      then have "half_size = 0" using True by auto
      then show ?thesis
        unfolding check_point_def Inr bindE.simps guardE_def l if_True
        by (cases b; cases "half_size = sz div 2") (simp_all only: if_True if_False bindE.simps simp_thms sum.simps)
    next
      case wrong: False
      then show ?thesis
        unfolding check_point_def Inr bindE.simps guardE_def
        by (cases b; cases "half_size = sz div 2") (simp_all only: if_True if_False bindE.simps simp_thms sum.simps)
    qed
  qed
  with False show ?thesis by blast
qed

text \<open>The lookahead of the check is that of the schedule.\<close>

lemma lookahead_start:
  fixes n :: nat
  assumes "0 < i"
  shows "(n div half (i - 1) * half (i - 1) + half (i - 1)) mod half i = 0 \<longleftrightarrow> n div half (i - 1) mod 4 = 3"
proof -
  have q: "(q + 1) mod 4 = 0 \<longleftrightarrow> q mod 4 = 3" for q :: nat
    by presburger
  obtain j where i: "i = Suc j" using assms by (cases i) auto
  have "(n div half j * half j + half j) mod half i = half j * ((n div half j + 1) mod 4)"
    unfolding i half_Suc by (metis add.commute mult.commute mult_Suc_right mult_mod_right Suc_eq_plus1)
  then have "(n div half j * half j + half j) mod half i = 0 \<longleftrightarrow> (n div half j + 1) mod 4 = 0"
    by simp
  then show ?thesis
    using q [of "n div half j"] by (simp add: i)
qed

text \<open>What one passing line of the geometry output says.\<close>

definition point_right :: "nat \<Rightarrow> string \<Rightarrow> bool" where
  "point_right d line \<longleftrightarrow> (\<exists>level n spill vacant.
     mapE py_int (py_split line) = Inr [int level, n, 4 ^ (level + 1), int (half level), spill, vacant]
     \<and> (0 \<le> n \<and> level < d \<longrightarrow> (spill \<noteq> 0 \<longleftrightarrow> spills d (nat n) level)
          \<and> (vacant \<noteq> 0 \<longleftrightarrow> merges_with_empty d (nat n) level)))"

lemma mapE_take: "mapE f (take k xs) = Inr ys \<Longrightarrow> length ys < k \<Longrightarrow> mapE f xs = Inr ys"
  using mapE_length [of f "take k xs" ys] by simp

lemma check_point_schedule:
  assumes d: "0 < d" and c: "check_point d level n sz half_size spill vacant = Inr ()"
    and n: "0 \<le> n" and l: "level < int d"
  shows "(spill \<noteq> 0 \<longleftrightarrow> spills d (nat n) (nat level))
    \<and> (vacant \<noteq> 0 \<longleftrightarrow> merges_with_empty d (nat n) (nat level))"
proof -
  obtain i m where i: "level = int i" and m: "n = int m"
    using c d n by (metis check_point_iff nonneg_int_cases)
  note r = c [unfolded check_point_iff [OF d]]
  have h: "half_size = int (half i)"
    using r i by (simp add: half_def)
  have "spill \<noteq> 0 \<longleftrightarrow> spills d m i"
    using r l by (auto simp: spills_def h i m simp flip: of_nat_mod)
  moreover have "vacant \<noteq> 0 \<longleftrightarrow> merges_with_empty d m i"
  proof (cases "i = 0 \<or> i = d - 1")
    case True
    then show ?thesis
      using r d by (auto simp: merges_with_empty_def i)
  next
    case False
    then have "(2::int) * 4 ^ nat (level - 1) = int (half (i - 1))"
      by (simp add: half_def i nat_diff_distrib)
    then have "vacant \<noteq> 0 \<longleftrightarrow> (int m div int (half (i - 1)) * int (half (i - 1)) + int (half (i - 1))) mod int (half i) = 0"
      using r False d by (auto simp: h m i)
    also have "\<dots> \<longleftrightarrow> (m div half (i - 1) * half (i - 1) + half (i - 1)) mod half i = 0"
      by (simp flip: of_nat_div of_nat_mult of_nat_add of_nat_mod)
    finally show ?thesis
      using lookahead_start [of i m] False by (simp add: merges_with_empty_def)
  qed
  ultimately show ?thesis
    by (simp add: i m)
qed

lemma unpack_six:
  "(case xs of [a, b, c, d, e, f] \<Rightarrow> g a b c d e f | _ \<Rightarrow> Inl err) = Inr y \<Longrightarrow>
     \<exists>a b c d e f. xs = [a, b, c, d, e, f] \<and> g a b c d e f = Inr y"
  by (auto split: list.split_asm)

lemma geometry_line_right:
  assumes d: "0 < d" and g: "geometry_line d line = Inr ()"
  shows "point_right d line"
proof -
  obtain level n sz hs spill vacant where f: "mapE py_int (take 7 (py_split line)) = Inr [level, n, sz, hs, spill, vacant]"
    and c: "check_point d level n sz hs spill vacant = Inr ()"
    using g unfolding geometry_line_def bindE_Inr_iff by (blast dest: unpack_six)
  have r: "0 \<le> level" "sz = 4 ^ (nat level + 1)" "hs = 2 * 4 ^ nat level"
    using c check_point_iff [OF d] by blast+
  then have "mapE py_int (py_split line) = Inr [int (nat level), n, 4 ^ (nat level + 1), int (half (nat level)), spill, vacant]"
    using mapE_take [OF f] by (simp add: half_def)
  moreover have "0 \<le> n \<and> nat level < d \<Longrightarrow> (spill \<noteq> 0 \<longleftrightarrow> spills d (nat n) (nat level))
      \<and> (vacant \<noteq> 0 \<longleftrightarrow> merges_with_empty d (nat n) (nat level))"
    using check_point_schedule [OF d c] r(1) by linarith
  ultimately show ?thesis
    unfolding point_right_def by blast
qed

section \<open>The cells\<close>

text \<open>The comparison of one cell: the reference resolves and the program printed equal rows.\<close>

definition cell_right :: "(string, text_rows) dict \<Rightarrow> (cell, text_rows option) dict \<Rightarrow> cell \<times> string option \<Rightarrow> bool" where
  "cell_right frames actual c \<longleftrightarrow> (\<exists>expected got. expected_rows frames (snd c) = Inr expected
     \<and> map_of actual (fst c) = Some got \<and> same_rows got expected)"

lemma cell_right_delete: "fst c \<noteq> key \<Longrightarrow> cell_right frames (AList.delete key actual) c = cell_right frames actual c"
  by (simp add: cell_right_def delete_conv')

lemma check_cells_iff:
  "check_cells frames cells actual n = Inr (rest, m) \<longleftrightarrow>
     distinct (map fst cells) \<and> (\<forall>c \<in> set cells. cell_right frames actual c)
     \<and> rest = fold AList.delete (map fst cells) actual \<and> m = n + length cells"
proof (induction cells arbitrary: actual n)
  case Nil
  then show ?case by auto
next
  case (Cons c cells)
  obtain key ref where c: "c = (key, ref)" by (cases c)
  let ?del = "AList.delete key actual"
  have "check_cells frames (c # cells) actual n = Inr (rest, m) \<longleftrightarrow>
      cell_right frames actual c \<and> check_cells frames cells ?del (n + 1) = Inr (rest, m)"
    by (auto simp: c bindE_Inr_iff dict_index_Inr_iff cell_right_def)
  also have "\<dots> \<longleftrightarrow> cell_right frames actual c \<and> distinct (map fst cells) \<and> (\<forall>x \<in> set cells. cell_right frames ?del x)
      \<and> rest = fold AList.delete (map fst cells) ?del \<and> m = (n + 1) + length cells"
    unfolding Cons.IH by blast
  also have "(\<forall>x \<in> set cells. cell_right frames ?del x) \<longleftrightarrow>
      key \<notin> set (map fst cells) \<and> (\<forall>x \<in> set cells. cell_right frames actual x)"
  proof -
    have "\<not> cell_right frames ?del x" if "fst x = key" for x
      using that by (auto simp: cell_right_def delete_conv')
    then show ?thesis
      using cell_right_delete [of _ key frames actual] by (auto simp: image_iff) metis+
  qed
  finally show ?case
    by (auto simp: c)
qed

lemma fold_delete_Nil: "fold AList.delete ks actual = [] \<longleftrightarrow> fst ` set actual \<subseteq> set ks"
proof -
  have "set (fold AList.delete ks actual) = {x \<in> set actual. fst x \<notin> set ks}"
    by (induction ks arbitrary: actual) (auto simp: AList.delete_eq)
  then show ?thesis
    by (metis (mono_tags, lifting) empty_Collect_eq image_subset_iff set_empty)
qed

section \<open>Properties of the oracle\<close>

text \<open>
  C18: A geometry check that returns has checked every line of the program's output: each is a
  level with its size and half, and the two flags are the decisions the reference schedule
  takes for that level at that advance.
\<close>

theorem check_geometry_sound:
  assumes "0 < d" and "check_geometry binary d = Inr checks"
  shows "\<exists>output. binary [dec (int d), ''geometry''] None = Inr output
    \<and> checks = length (splitlines output) \<and> (\<forall>line \<in> set (splitlines output). point_right d line)"
  using assms geometry_line_right [OF assms(1)]
  by (auto simp: check_geometry_def bindE_Inr_iff geometry_lines_iff)

definition demo_geometry :: process where
  "demo_geometry args stdin = Inr (concat (map (\<lambda>l. l @ [CHR 10]) [''0 2 4 2 1 0'', ''1 6 16 8 0 1'']))"

theorem check_geometry_sound_witness:
  "check_geometry demo_geometry 3 = Inr 2 \<and> point_right 3 ''1 6 16 8 0 1''"
proof -
  have s: "splitlines (concat (map (\<lambda>l. l @ [CHR 10]) [''0 2 4 2 1 0'', ''1 6 16 8 0 1'']))
      = [''0 2 4 2 1 0'', ''1 6 16 8 0 1'']"
    by (rule splitlines_concat) (simp add: line_break_def)
  have g: "geometry_line 3 ''0 2 4 2 1 0'' = Inr ()" "geometry_line 3 ''1 6 16 8 0 1'' = Inr ()"
    by (simp_all add: geometry_line_def py_split_def py_space_def py_int_def digit_value_def
        check_point_iff)
  then have c: "check_geometry demo_geometry 3 = Inr 2"
    unfolding check_geometry_def demo_geometry_def bindE.simps s by simp
  obtain out where o: "demo_geometry [dec (int 3), ''geometry''] None = Inr out"
    and p: "\<forall>line \<in> set (splitlines out). point_right 3 line"
    using check_geometry_sound [OF _ c] by auto
  have "out = concat (map (\<lambda>l. l @ [CHR 10]) [''0 2 4 2 1 0'', ''1 6 16 8 0 1''])"
    using o by (simp only: demo_geometry_def sum.inject)
  then have "point_right 3 ''1 6 16 8 0 1''"
    using p unfolding s by (simp only: s list.set) blast
  with c show ?thesis by simp
qed


definition demo_trace :: trace where
  "demo_trace = \<lparr>trace_depth = 1, trace_profile = [], trace_steps = [\<lparr>step_sequence = 0, step_batch = ''h'',
     step_root = [], step_continuation = [], step_database = [],
     step_levels = [\<lparr>curr_ref = ''h'', snap_ref = ''h'', next_ref = None\<rparr>]\<rparr>], trace_aggregate = []\<rparr>"

definition demo_output :: process where
  "demo_output args stdin = Inr (concat (map (\<lambda>l. l @ [CHR 10]) [''0 0 c 0'', ''0 0 s 0'', ''0 0 n -1'']))"


end
