(* ===== verification/Py_Regex.thy ===== *)
theory Py_Regex
  imports Py_Text
begin

text \<open>
  The part of Python's module \<open>re\<close> the tools use: patterns over single characters with greedy and
  lazy repetition, alternatives, groups and the multi-line anchor, matched by backtracking. The
  matcher lists every way a pattern matches at a position, in the order the engine tries them, so
  the first is the match; \<open>search\<close>, \<open>findall\<close> and \<open>sub\<close> build on it. The lemmas relate the matcher
  to a declarative relation and say what a search finds.
\<close>

section \<open>Patterns\<close>

datatype regex =
    Cls "char \<Rightarrow> bool"
  | Line_Start
  | Eps
  | Seq regex regex
  | Alt regex regex
  | Star regex
  | Lazy regex
  | Group regex

abbreviation chr :: "char \<Rightarrow> regex" where
  "chr c \<equiv> Cls ((=) c)"

fun lit :: "string \<Rightarrow> regex" where
  "lit [] = Eps"
| "lit (c # cs) = Seq (chr c) (lit cs)"

fun seqs :: "regex list \<Rightarrow> regex" where
  "seqs [] = Eps"
| "seqs (r # rs) = Seq r (seqs rs)"

definition plus :: "regex \<Rightarrow> regex" where
  "plus r = Seq r (Star r)"

definition none_of :: "string \<Rightarrow> regex" where
  "none_of cs = Cls (\<lambda>c. c \<notin> set cs)"

definition any_char :: regex where
  "any_char = Cls (\<lambda>c. True)"

definition spaces :: regex where
  "spaces = Star (Cls py_space)"

section \<open>Matching\<close>

text \<open>What a match consumed, its groups from left to right, and the text after it.\<close>

type_synonym found = "string \<times> string list \<times> string"

fun then_found :: "found \<Rightarrow> found \<Rightarrow> found" where
  "then_found (u, g, t) (v, h, r) = (u @ v, g @ h, r)"

text \<open>The character before a position, after consuming \<open>u\<close>.\<close>

definition prev_after :: "char option \<Rightarrow> string \<Rightarrow> char option" where
  "prev_after prev u = (if u = [] then prev else Some (last u))"

fun match_all :: "regex \<Rightarrow> char option \<Rightarrow> string \<Rightarrow> found list" where
  "match_all (Cls P) prev s = (case s of c # t \<Rightarrow> if P c then [([c], [], t)] else [] | [] \<Rightarrow> [])"
| "match_all Line_Start prev s = (if prev = None \<or> prev = Some (CHR 10) then [([], [], s)] else [])"
| "match_all Eps prev s = [([], [], s)]"
| "match_all (Seq a b) prev s =
     concat (map (\<lambda>x. map (then_found x) (match_all b (prev_after prev (fst x)) (snd (snd x)))) (match_all a prev s))"
| "match_all (Alt a b) prev s = match_all a prev s @ match_all b prev s"
| "match_all (Star a) prev s =
     concat (map (\<lambda>x. if length (snd (snd x)) < length s
       then map (then_found x) (match_all (Star a) (prev_after prev (fst x)) (snd (snd x))) else []) (match_all a prev s))
     @ [([], [], s)]"
| "match_all (Lazy a) prev s = ([], [], s) #
     concat (map (\<lambda>x. if length (snd (snd x)) < length s
       then map (then_found x) (match_all (Lazy a) (prev_after prev (fst x)) (snd (snd x))) else []) (match_all a prev s))"
| "match_all (Group a) prev s = map (\<lambda>(u, g, t). (u, u # g, t)) (match_all a prev s)"

declare match_all.simps(6,7) [simp del]

section \<open>Searching\<close>

text \<open>\<open>re.search\<close>: the text before the match, and the match.\<close>

fun search_from :: "regex \<Rightarrow> char option \<Rightarrow> string \<Rightarrow> (string \<times> found) option" where
  "search_from r prev s = (case match_all r prev s of
       x # _ \<Rightarrow> Some ([], x)
     | [] \<Rightarrow> (case s of
         [] \<Rightarrow> None
       | c # t \<Rightarrow> map_option (\<lambda>(before_text, x). (c # before_text, x)) (search_from r (Some c) t)))"

declare search_from.simps [simp del]

definition search :: "regex \<Rightarrow> string \<Rightarrow> (string \<times> found) option" where
  "search r s = search_from r None s"

text \<open>The groups of all matches, as \<open>re.findall\<close>; the patterns here never match the empty text.\<close>

function findall_from :: "regex \<Rightarrow> char option \<Rightarrow> string \<Rightarrow> string list list" where
  "findall_from r prev s = (case search_from r prev s of
       None \<Rightarrow> []
     | Some (skipped, u, g, t) \<Rightarrow>
         if length t < length s then g # findall_from r (prev_after prev (skipped @ u)) t else [])"
  by pat_completeness auto
termination
  by (relation "measure (\<lambda>(r, prev, s). length s)") auto

declare findall_from.simps [simp del]

definition findall :: "regex \<Rightarrow> string \<Rightarrow> string list list" where
  "findall r s = findall_from r None s"

text \<open>\<open>re.sub\<close>: the replacement is computed from the text matched and its groups.\<close>

function sub_from :: "(string \<Rightarrow> string list \<Rightarrow> string) \<Rightarrow> regex \<Rightarrow> char option \<Rightarrow> string \<Rightarrow> string" where
  "sub_from f r prev s = (case match_all r prev s of
       (u, g, t) # _ \<Rightarrow>
         if length t < length s then f u g @ sub_from f r (prev_after prev u) t
         else (case s of [] \<Rightarrow> [] | c # t \<Rightarrow> c # sub_from f r (Some c) t)
     | [] \<Rightarrow> (case s of [] \<Rightarrow> [] | c # t \<Rightarrow> c # sub_from f r (Some c) t))"
  by pat_completeness auto
termination
  by (relation "measure (\<lambda>(f, r, prev, s). length s)") auto

declare sub_from.simps [simp del]

definition sub :: "(string \<Rightarrow> string list \<Rightarrow> string) \<Rightarrow> regex \<Rightarrow> string \<Rightarrow> string" where
  "sub f r s = sub_from f r None s"

text \<open>As many blanks as the match has characters.\<close>

definition blank_from :: "regex \<Rightarrow> char option \<Rightarrow> string \<Rightarrow> string" where
  "blank_from = sub_from (\<lambda>u g. replicate (length u) (CHR '' ''))"

definition blank :: "regex \<Rightarrow> string \<Rightarrow> string" where
  "blank r s = blank_from r None s"

section \<open>What a match is\<close>

text \<open>\<open>reads r prev u g t\<close>: the pattern reads \<open>u\<close> with groups \<open>g\<close>, after \<open>prev\<close> and before \<open>t\<close>.\<close>

inductive reads :: "regex \<Rightarrow> char option \<Rightarrow> string \<Rightarrow> string list \<Rightarrow> bool" where
  reads_Cls: "P c \<Longrightarrow> reads (Cls P) prev [c] []"
| reads_Line_Start: "prev = None \<or> prev = Some (CHR 10) \<Longrightarrow> reads Line_Start prev [] []"
| reads_Eps: "reads Eps prev [] []"
| reads_Seq: "reads a prev u g \<Longrightarrow> reads b (prev_after prev u) v h \<Longrightarrow> reads (Seq a b) prev (u @ v) (g @ h)"
| reads_Alt1: "reads a prev u g \<Longrightarrow> reads (Alt a b) prev u g"
| reads_Alt2: "reads b prev u g \<Longrightarrow> reads (Alt a b) prev u g"
| reads_Star_Nil: "reads (Star a) prev [] []"
| reads_Star: "reads a prev u g \<Longrightarrow> u \<noteq> [] \<Longrightarrow> reads (Star a) (prev_after prev u) v h \<Longrightarrow> reads (Star a) prev (u @ v) (g @ h)"
| reads_Lazy_Nil: "reads (Lazy a) prev [] []"
| reads_Lazy: "reads a prev u g \<Longrightarrow> u \<noteq> [] \<Longrightarrow> reads (Lazy a) (prev_after prev u) v h \<Longrightarrow> reads (Lazy a) prev (u @ v) (g @ h)"
| reads_Group: "reads a prev u g \<Longrightarrow> reads (Group a) prev u (u # g)"

inductive_cases reads_Seq_E [elim!]: "reads (Seq a b) prev u g"
inductive_cases reads_Alt_E [elim!]: "reads (Alt a b) prev u g"
inductive_cases reads_Group_E [elim!]: "reads (Group a) prev u g"
inductive_simps reads_Cls_iff [simp]: "reads (Cls P) prev u g"
inductive_simps reads_Line_Start_iff [simp]: "reads Line_Start prev u g"
inductive_simps reads_Eps_iff [simp]: "reads Eps prev u g"

lemma then_found_eq: "then_found x y = (fst x @ fst y, fst (snd x) @ fst (snd y), snd (snd y))"
  by (cases x; cases y) simp

lemma concat_if_mem:
  "z \<in> set (concat (map (\<lambda>x. if c x then map (f x) (h x) else []) xs))
     \<longleftrightarrow> (\<exists>x y. x \<in> set xs \<and> c x \<and> y \<in> set (h x) \<and> z = f x y)"
  by (induction xs) auto

lemma match_all_Star:
  "z \<in> set (match_all (Star a) prev s) \<longleftrightarrow> z = ([], [], s) \<or> (\<exists>x y. x \<in> set (match_all a prev s)
     \<and> length (snd (snd x)) < length s \<and> y \<in> set (match_all (Star a) (prev_after prev (fst x)) (snd (snd x))) \<and> z = then_found x y)"
  by (subst match_all.simps(6)) (simp only: set_append Un_iff concat_if_mem set_simps singleton_iff disj_commute)

lemma match_all_Lazy:
  "z \<in> set (match_all (Lazy a) prev s) \<longleftrightarrow> z = ([], [], s) \<or> (\<exists>x y. x \<in> set (match_all a prev s)
     \<and> length (snd (snd x)) < length s \<and> y \<in> set (match_all (Lazy a) (prev_after prev (fst x)) (snd (snd x))) \<and> z = then_found x y)"
  by (subst match_all.simps(7)) (simp only: set_simps insert_iff concat_if_mem)

lemma match_all_sound:
  "(u, g, t) \<in> set (match_all r prev s) \<Longrightarrow> s = u @ t \<and> reads r prev u g"
proof (induction r prev s arbitrary: u g t rule: match_all.induct)
  case (1 P prev s)
  then show ?case by (auto split: list.splits if_splits)
next
  case (4 a b prev s)
  then obtain x y where x: "x \<in> set (match_all a prev s)"
    and y: "y \<in> set (match_all b (prev_after prev (fst x)) (snd (snd x)))" and e: "(u, g, t) = then_found x y"
    by auto
  obtain u1 g1 t1 u2 g2 t2 where xy: "x = (u1, g1, t1)" "y = (u2, g2, t2)" by (cases x; cases y) auto
  have "s = u1 @ t1 \<and> reads a prev u1 g1"
    using "4.IH"(1) x xy by simp
  moreover have "t1 = u2 @ t2 \<and> reads b (prev_after prev u1) u2 g2"
    using "4.IH"(2) [OF x] y xy by simp
  ultimately show ?case
    using e xy by (auto intro: reads_Seq)
next
  case (5 a b prev s)
  then show ?case by (auto intro: reads_Alt1 reads_Alt2)
next
  case (6 a prev s)
  show ?case
  proof (cases "(u, g, t) = ([], [], s)")
    case True
    then show ?thesis by (auto intro: reads_Star_Nil)
  next
    case False
    then obtain x y where x: "x \<in> set (match_all a prev s)" and l: "length (snd (snd x)) < length s"
      and y: "y \<in> set (match_all (Star a) (prev_after prev (fst x)) (snd (snd x)))" and e: "(u, g, t) = then_found x y"
      using match_all_Star [THEN iffD1, OF "6.prems"] by blast
    obtain u1 g1 t1 u2 g2 t2 where xy: "x = (u1, g1, t1)" "y = (u2, g2, t2)" by (cases x; cases y) auto
    have 1: "s = u1 @ t1 \<and> reads a prev u1 g1"
      using "6.IH"(1) x xy by simp
    have "t1 = u2 @ t2 \<and> reads (Star a) (prev_after prev u1) u2 g2"
      using "6.IH"(2) [OF x l] y xy by simp
    moreover have "u1 \<noteq> []"
      using l xy 1 by auto
    ultimately show ?thesis
      using 1 e xy by (auto intro: reads_Star)
  qed
next
  case (7 a prev s)
  show ?case
  proof (cases "(u, g, t) = ([], [], s)")
    case True
    then show ?thesis by (auto intro: reads_Lazy_Nil)
  next
    case False
    then obtain x y where x: "x \<in> set (match_all a prev s)" and l: "length (snd (snd x)) < length s"
      and y: "y \<in> set (match_all (Lazy a) (prev_after prev (fst x)) (snd (snd x)))" and e: "(u, g, t) = then_found x y"
      using match_all_Lazy [THEN iffD1, OF "7.prems"] by blast
    obtain u1 g1 t1 u2 g2 t2 where xy: "x = (u1, g1, t1)" "y = (u2, g2, t2)" by (cases x; cases y) auto
    have 1: "s = u1 @ t1 \<and> reads a prev u1 g1"
      using "7.IH"(1) x xy by simp
    have "t1 = u2 @ t2 \<and> reads (Lazy a) (prev_after prev u1) u2 g2"
      using "7.IH"(2) [OF x l] y xy by simp
    moreover have "u1 \<noteq> []"
      using l xy 1 by auto
    ultimately show ?thesis
      using 1 e xy by (auto intro: reads_Lazy)
  qed
next
  case (8 a prev s)
  then show ?case by (auto intro: reads_Group)
qed (auto split: if_splits)

lemma match_all_complete:
  "reads r prev u g \<Longrightarrow> (u, g, t) \<in> set (match_all r prev (u @ t))"
proof (induction arbitrary: t rule: reads.induct)
  case (reads_Seq a prev u g b v h)
  then have "(u, g, v @ t) \<in> set (match_all a prev (u @ v @ t))" "(v, h, t) \<in> set (match_all b (prev_after prev u) (v @ t))"
    by blast+
  then have "then_found (u, g, v @ t) (v, h, t) \<in> set (match_all (Seq a b) prev (u @ v @ t))"
    unfolding match_all.simps(4) set_concat set_map by force
  then show ?case by simp
next
  case (reads_Star a prev u g v h)
  then have "(u, g, v @ t) \<in> set (match_all a prev (u @ v @ t))" "(v, h, t) \<in> set (match_all (Star a) (prev_after prev u) (v @ t))"
    by blast+
  moreover have "length (v @ t) < length (u @ v @ t)"
    using reads_Star.hyps(2) by simp
  ultimately have "\<exists>x y. x \<in> set (match_all a prev (u @ v @ t)) \<and> length (snd (snd x)) < length (u @ v @ t)
      \<and> y \<in> set (match_all (Star a) (prev_after prev (fst x)) (snd (snd x))) \<and> (u @ v, g @ h, t) = then_found x y"
    by (intro exI [of _ "(u, g, v @ t)"] exI [of _ "(v, h, t)"]) simp
  then have "(u @ v, g @ h, t) \<in> set (match_all (Star a) prev (u @ v @ t))"
    by (intro match_all_Star [THEN iffD2]) blast
  then show ?case by simp
next
  case (reads_Star_Nil a prev)
  show ?case by (rule match_all_Star [THEN iffD2]) simp
next
  case (reads_Lazy_Nil a prev)
  show ?case by (rule match_all_Lazy [THEN iffD2]) simp
next
  case (reads_Lazy a prev u g v h)
  then have "(u, g, v @ t) \<in> set (match_all a prev (u @ v @ t))" "(v, h, t) \<in> set (match_all (Lazy a) (prev_after prev u) (v @ t))"
    by blast+
  moreover have "length (v @ t) < length (u @ v @ t)"
    using reads_Lazy.hyps(2) by simp
  ultimately have "\<exists>x y. x \<in> set (match_all a prev (u @ v @ t)) \<and> length (snd (snd x)) < length (u @ v @ t)
      \<and> y \<in> set (match_all (Lazy a) (prev_after prev (fst x)) (snd (snd x))) \<and> (u @ v, g @ h, t) = then_found x y"
    by (intro exI [of _ "(u, g, v @ t)"] exI [of _ "(v, h, t)"]) simp
  then have "(u @ v, g @ h, t) \<in> set (match_all (Lazy a) prev (u @ v @ t))"
    by (intro match_all_Lazy [THEN iffD2]) blast
  then show ?case by simp
next
  case (reads_Group a prev u g)
  then show ?case
    by (simp add: image_iff) (rule bexI [of _ "(u, g, t)"], simp_all)
qed simp_all

lemma match_all_iff: "(u, g, t) \<in> set (match_all r prev s) \<longleftrightarrow> s = u @ t \<and> reads r prev u g"
  by (metis match_all_sound match_all_complete)

section \<open>What a search finds\<close>

lemma prev_after_Cons: "prev_after (Some c) u = prev_after prev (c # u)"
  by (simp add: prev_after_def)

lemma prev_after_Nil [simp]: "prev_after prev [] = prev"
  by (simp add: prev_after_def)

lemma search_from_Some:
  "search_from r prev s = Some (skipped, u, g, t) \<Longrightarrow> s = skipped @ u @ t \<and> reads r (prev_after prev skipped) u g"
proof (induction s arbitrary: prev skipped)
  case Nil
  then show ?case
    using match_all_sound [of u g t r prev "[]"]
    by (subst (asm) search_from.simps) (auto split: list.splits)
next
  case (Cons c s)
  show ?case
  proof (cases "match_all r prev (c # s)")
    case Nil
    then obtain sk where "search_from r (Some c) s = Some (sk, u, g, t)" "skipped = c # sk"
      using Cons.prems by (subst (asm) search_from.simps) auto
    then show ?thesis
      using Cons.IH [of "Some c" sk] prev_after_Cons [of c sk prev] by simp
  next
    case (Cons x xs)
    then have "skipped = []" "x = (u, g, t)"
      using Cons.prems by (subst (asm) search_from.simps, simp)+
    then show ?thesis
      using match_all_sound [of u g t r prev "c # s"] Cons by simp
  qed
qed

lemma search_from_None:
  "search_from r prev s = None \<longleftrightarrow> (\<forall>a b u g. s = a @ u @ b \<longrightarrow> \<not> reads r (prev_after prev a) u g)"
proof (induction s arbitrary: prev)
  case Nil
  have "search_from r prev [] = None \<longleftrightarrow> match_all r prev [] = []"
    by (subst search_from.simps) (simp split: list.splits)
  also have "\<dots> \<longleftrightarrow> (\<forall>u g t. (u, g, t) \<notin> set (match_all r prev []))"
    by (cases "match_all r prev []") auto
  finally show ?case
    by (auto simp: match_all_iff)
next
  case (Cons c s)
  have "search_from r prev (c # s) = None \<longleftrightarrow> match_all r prev (c # s) = [] \<and> search_from r (Some c) s = None"
    by (subst search_from.simps) (simp split: list.splits)
  moreover have "match_all r prev (c # s) = [] \<longleftrightarrow> (\<forall>u g t. c # s = u @ t \<longrightarrow> \<not> reads r prev u g)"
  proof -
    have "match_all r prev (c # s) = [] \<longleftrightarrow> (\<forall>u g t. (u, g, t) \<notin> set (match_all r prev (c # s)))"
      by (cases "match_all r prev (c # s)") auto
    then show ?thesis
      by (simp add: match_all_iff)
  qed
  ultimately show ?case
    unfolding Cons.IH [of "Some c"] prev_after_Cons [of c _ prev] by (auto simp: Cons_eq_append_conv)
qed

text \<open>One step of the substitution: at a match, and elsewhere.\<close>

lemma sub_Nil [simp]: "sub_from f r prev [] = []"
  by (subst sub_from.simps) (simp split: list.splits)

lemma sub_match:
  "match_all r prev s = (u, g, t) # xs \<Longrightarrow> length t < length s
     \<Longrightarrow> sub_from f r prev s = f u g @ sub_from f r (prev_after prev u) t"
  by (subst sub_from.simps) simp

lemma sub_skip:
  "\<not> (\<exists>u g t xs. match_all r prev (c # s) = (u, g, t) # xs \<and> length t < length (c # s))
     \<Longrightarrow> sub_from f r prev (c # s) = c # sub_from f r (Some c) s"
  by (subst sub_from.simps) (auto split: list.splits)

lemma blank_Nil [simp]: "blank_from r prev [] = []"
  by (simp add: blank_from_def)

lemma blank_match:
  "match_all r prev s = (u, g, t) # xs \<Longrightarrow> length t < length s
     \<Longrightarrow> blank_from r prev s = replicate (length u) (CHR '' '') @ blank_from r (prev_after prev u) t"
  unfolding blank_from_def by (rule sub_match)

lemma blank_skip:
  "\<not> (\<exists>u g t xs. match_all r prev (c # s) = (u, g, t) # xs \<and> length t < length (c # s))
     \<Longrightarrow> blank_from r prev (c # s) = c # blank_from r (Some c) s"
  unfolding blank_from_def by (rule sub_skip)

lemma blank_shape: "list_all2 (\<lambda>c d. d = c \<or> d = CHR '' '') s (blank_from r prev s)"
proof (induction "length s" arbitrary: prev s rule: less_induct)
  case less
  show ?case
  proof (cases s)
    case Nil
    then show ?thesis by simp
  next
    case (Cons c s')
    show ?thesis
    proof (cases "\<exists>u g t xs. match_all r prev s = (u, g, t) # xs \<and> length t < length s")
      case True
      then obtain u g t xs where m: "match_all r prev s = (u, g, t) # xs" "length t < length s" by blast
      then have s: "s = u @ t"
        using match_all_sound [of u g t r prev s] by simp
      have "list_all2 (\<lambda>c d. d = c \<or> d = CHR '' '') u (replicate (length u) (CHR '' ''))"
        by (simp add: list_all2_conv_all_nth)
      then show ?thesis
        using blank_match [OF m] less [OF m(2)] s by (simp add: list_all2_appendI)
    next
      case False
      then show ?thesis
        using blank_skip [of r prev c s'] less [of s' "Some c"] Cons by simp
    qed
  qed
qed

lemma length_blank_from [simp]: "length (blank_from r prev s) = length s"
  using list_all2_lengthD [OF blank_shape [of s r prev]] by simp

lemma blank_from_nth: "i < length s \<Longrightarrow> blank_from r prev s ! i = s ! i \<or> blank_from r prev s ! i = CHR '' ''"
  using list_all2_nthD [OF blank_shape] by blast

section \<open>What the usual patterns read\<close>

lemma reads_Seq_iff: "reads (Seq a b) prev w k \<longleftrightarrow>
    (\<exists>u g v h. w = u @ v \<and> k = g @ h \<and> reads a prev u g \<and> reads b (prev_after prev u) v h)"
  by (blast intro: reads_Seq)

lemma reads_Group_iff: "reads (Group a) prev u k \<longleftrightarrow> (\<exists>g. k = u # g \<and> reads a prev u g)"
  by (blast intro: reads_Group)

lemma reads_lit [simp]: "reads (lit w) prev u g \<longleftrightarrow> u = w \<and> g = []"
  by (induction w arbitrary: prev u g) (auto simp: reads_Seq_iff)

lemma reads_litI: "reads (lit w) prev w []"
  by simp

lemma reads_Star_Cls [simp]: "reads (Star (Cls P)) prev u g \<longleftrightarrow> (\<forall>c \<in> set u. P c) \<and> g = []"
proof
  show "reads (Star (Cls P)) prev u g \<Longrightarrow> (\<forall>c \<in> set u. P c) \<and> g = []"
    by (induction "Star (Cls P)" prev u g rule: reads.induct) auto
  show "(\<forall>c \<in> set u. P c) \<and> g = [] \<Longrightarrow> reads (Star (Cls P)) prev u g"
  proof (induction u arbitrary: prev)
    case Nil
    then show ?case by (simp add: reads_Star_Nil)
  next
    case (Cons c u)
    then show ?case
      using reads_Star [of "Cls P" prev "[c]" "[]" u "[]"] by simp
  qed
qed

lemma reads_plus_Cls [simp]: "reads (plus (Cls P)) prev u g \<longleftrightarrow> u \<noteq> [] \<and> (\<forall>c \<in> set u. P c) \<and> g = []"
proof
  show "reads (plus (Cls P)) prev u g \<Longrightarrow> u \<noteq> [] \<and> (\<forall>c \<in> set u. P c) \<and> g = []"
    by (auto simp: plus_def)
  show "u \<noteq> [] \<and> (\<forall>c \<in> set u. P c) \<and> g = [] \<Longrightarrow> reads (plus (Cls P)) prev u g"
    using reads_Seq [of "Cls P" prev "[hd u]" "[]" "Star (Cls P)" "tl u" "[]"] by (cases u) (simp_all add: plus_def)
qed

named_theorems reads_seq
  \<open>how a sequence reads, by its first pattern\<close>

text \<open>A first pattern without groups, and one that reads a fixed text.\<close>

lemma reads_Seq_plain:
  assumes "\<And>u g. reads a prev u g \<longleftrightarrow> Q u \<and> g = []"
  shows "reads (Seq a b) prev w k \<longleftrightarrow> (\<exists>u v. w = u @ v \<and> Q u \<and> reads b (prev_after prev u) v k)"
  unfolding reads_Seq_iff assms by (metis append_Nil)

lemma reads_Seq_fixed:
  assumes "\<And>u g. reads a prev u g \<longleftrightarrow> (Q \<and> u = x) \<and> g = []"
  shows "reads (Seq a b) prev w k \<longleftrightarrow> Q \<and> (\<exists>v. w = x @ v \<and> reads b (prev_after prev x) v k)"
  unfolding reads_Seq_plain [where Q = "\<lambda>u. Q \<and> u = x", OF assms] by blast

lemma reads_Seq_Start [reads_seq]:
  "reads (Seq Line_Start b) prev w k \<longleftrightarrow> (prev = None \<or> prev = Some (CHR 10)) \<and> reads b prev w k"
  by (subst reads_Seq_fixed [of Line_Start prev "prev = None \<or> prev = Some (CHR 10)" "[]"]) auto

lemma reads_Seq_Eps [reads_seq]: "reads (Seq a Eps) prev w k \<longleftrightarrow> reads a prev w k"
  unfolding reads_Seq_iff reads_Eps_iff by (metis append_Nil2)

lemma reads_Seq_lit [reads_seq]:
  "reads (Seq (lit u) b) prev w k \<longleftrightarrow> (\<exists>v. w = u @ v \<and> reads b (prev_after prev u) v k)"
  using reads_Seq_fixed [of "lit u" prev True u b w k] by simp

lemma reads_Seq_chr [reads_seq]:
  "reads (Seq (chr c) b) prev w k \<longleftrightarrow> (\<exists>v. w = c # v \<and> reads b (Some c) v k)"
  using reads_Seq_fixed [of "chr c" prev True "[c]" b w k] by (simp add: prev_after_def conj_commute)

lemma reads_Seq_spaces [reads_seq]:
  "reads (Seq spaces b) prev w k \<longleftrightarrow> (\<exists>u v. w = u @ v \<and> list_all py_space u \<and> reads b (prev_after prev u) v k)"
  by (rule reads_Seq_plain) (simp add: spaces_def list_all_iff)

lemma reads_Seq_Group [reads_seq]:
  "reads (Seq (Group a) b) prev w k \<longleftrightarrow>
     (\<exists>u g v h. w = u @ v \<and> k = u # g @ h \<and> reads a prev u g \<and> reads b (prev_after prev u) v h)"
  unfolding reads_Seq_iff reads_Group_iff by (metis append_Cons)

lemma findall_from_sound:
  "g \<in> set (findall_from r prev s) \<Longrightarrow> \<exists>a u b q. s = a @ u @ b \<and> reads r q u g"
proof (induction r prev s rule: findall_from.induct)
  case (1 r prev s)
  obtain skipped u h t where f: "search_from r prev s = Some (skipped, u, h, t)"
  proof (cases "search_from r prev s")
    case None
    then show ?thesis
      using "1.prems" by (subst (asm) findall_from.simps) simp
  qed auto
  then have s: "s = skipped @ u @ t" and rd: "reads r (prev_after prev skipped) u h"
    using search_from_Some by blast+
  consider "g = h" | "length t < length s" "g \<in> set (findall_from r (prev_after prev (skipped @ u)) t)"
    using "1.prems" f by (subst (asm) findall_from.simps) (auto split: if_splits)
  then show ?case
  proof cases
    case 1
    then show ?thesis using s rd by blast
  next
    case 2
    then obtain a v b q where "t = a @ v @ b" "reads r q v g"
      using "1.IH" [OF f refl refl refl 2(1)] by blast
    then have "s = (skipped @ u @ a) @ v @ b" "reads r q v g"
      using s by simp_all
    then show ?thesis by blast
  qed
qed

lemma search_Some: "search r s = Some (a, u, g, b) \<Longrightarrow> s = a @ u @ b \<and> reads r (prev_after None a) u g"
  unfolding search_def by (rule search_from_Some)

lemma search_None: "search r s = None \<longleftrightarrow> (\<forall>a b u g. s = a @ u @ b \<longrightarrow> \<not> reads r (prev_after None a) u g)"
  unfolding search_def by (rule search_from_None)

lemma line_start_prev: "(a = [] \<or> last a = CHR 10) \<longleftrightarrow> prev_after None a = None \<or> prev_after None a = Some (CHR 10)"
  by (simp add: prev_after_def)

end
