(* ===== verification/Core_Extract.thy ===== *)
theory Core_Extract
  imports Py_Regex
begin

text \<open>
  The source extraction of \<open>tools/check-core-oracle.py\<close>: \<open>extract\<close> (lines 37 to 54) and the header
  \<open>main\<close> assembles from the extracted functions (lines 135 to 137). The text of the pinned C++ file,
  which \<open>git show\<close> prints, is a parameter. The lemmas show that what is extracted is a slice of
  the file, byte for byte, and where it starts and ends.
\<close>

section \<open>Searching text\<close>

text \<open>\<open>s.rfind(pat, 0, end)\<close> and \<open>s.index(c, start)\<close>; not found is \<open>None\<close>.\<close>

definition rfind :: "string \<Rightarrow> string \<Rightarrow> nat \<Rightarrow> nat option" where
  "rfind s pat limit = (case filter (\<lambda>i. i + length pat \<le> limit \<and> take (length pat) (drop i s) = pat) [0..<limit + 1] of
       [] \<Rightarrow> None
     | found \<Rightarrow> Some (last found))"

definition index_from :: "string \<Rightarrow> char \<Rightarrow> nat \<Rightarrow> nat result" where
  "index_from s c start = (case filter (\<lambda>i. s ! i = c) [start..<length s] of
       [] \<Rightarrow> Inl (ValueError ''substring not found'')
     | i # _ \<Rightarrow> Inr i)"

section \<open>Extraction\<close>

definition FUNCTIONS :: "(string \<times> string) list" where
  "FUNCTIONS = [(''BucketListBase'', ''shouldMergeWithEmptyCurr''), (''BucketListBase'', ''levelSize''),
     (''BucketListBase'', ''levelHalf''), (''BucketListBase'', ''levelShouldSpill''),
     (''BucketListBase'', ''keepTombstoneEntries''), (''BucketLevel'', ''snap''),
     (''BucketLevel'', ''prepare''), (''BucketListBase'', ''addBatchInternal'')]"

text \<open>\<open>r"^" + cls + r"<BucketT>::" + method + r"\("\<close>, for names that are identifiers.\<close>

definition marker_text :: "string \<Rightarrow> string \<Rightarrow> string" where
  "marker_text cls method = cls @ ''<BucketT>::'' @ method @ ''(''"

definition marker_pattern :: "string \<Rightarrow> string \<Rightarrow> regex" where
  "marker_pattern cls method = seqs [Line_Start, lit (marker_text cls method)]"

definition template_prefix :: string where
  "template_prefix = ''template <typename BucketT>''"

text \<open>Line comments, block comments, and the two kinds of quoted literals.\<close>

definition quoted :: "char \<Rightarrow> regex" where
  "quoted q = seqs [chr q, Star (Alt (Seq (chr (CHR 92)) (none_of [CHR 10])) (none_of [q, CHR 92])), chr q]"

definition mask_pattern :: regex where
  "mask_pattern =
     Alt (seqs [lit ''//'', Star (none_of [CHR 10])])
    (Alt (seqs [lit ''/*'', Lazy any_char, lit ''*/''])
    (Alt (quoted (CHR 34)) (quoted (CHR 39))))"

text \<open>The position of the brace that closes the first one, counting from depth \<open>d\<close>.\<close>

definition brace_step :: "char \<Rightarrow> int" where
  "brace_step c = (if c = CHR ''{'' then 1 else 0) - (if c = CHR ''}'' then 1 else 0)"

fun close_from :: "nat \<Rightarrow> int \<Rightarrow> string \<Rightarrow> nat option" where
  "close_from pos d [] = None"
| "close_from pos d (c # s) =
     (let d' = d + brace_step c in if d' = 0 then Some pos else close_from (pos + 1) d' s)"

definition extract_function :: "string \<Rightarrow> string \<Rightarrow> string \<Rightarrow> string result" where
  "extract_function source cls method = (case search (marker_pattern cls method) source of
       None \<Rightarrow> Inl (RuntimeError ''Pinned Core function not found'')
     | Some (skipped, matched, groups, rest) \<Rightarrow>
         (case rfind source template_prefix (length skipped) of
            None \<Rightarrow> Inl (RuntimeError ''Template prefix missing'')
          | Some start \<Rightarrow>
              let masked = blank mask_pattern source in
              bindE (index_from masked (CHR ''{'') (length skipped + length matched)) (\<lambda>brace.
              case close_from brace 0 (drop brace masked) of
                None \<Rightarrow> Inl (RuntimeError ''Unbalanced source'')
              | Some pos \<Rightarrow> Inr (drop start (take (pos + 1) source)))))"

definition notice :: "string \<Rightarrow> string" where
  "notice source = join [CHR 10] (take 4 (splitlines source)) @ [CHR 10, CHR 10]"

definition extracted_header :: "string \<Rightarrow> string result" where
  "extracted_header source =
     bindE (mapE (\<lambda>(cls, method). extract_function source cls method) FUNCTIONS) (\<lambda>bodies.
       Inr (notice source @ join [CHR 10, CHR 10] bodies @ [CHR 10]))"

section \<open>Positions\<close>

lemma sorted_le_last: "sorted xs \<Longrightarrow> x \<in> set xs \<Longrightarrow> x \<le> last xs" for x :: nat
  by (cases xs rule: rev_cases) (auto simp: sorted_append)

lemma rfind_Some:
  assumes "rfind s pat limit = Some i"
  shows "i + length pat \<le> limit" and "take (length pat) (drop i s) = pat"
    and "\<forall>j. i < j \<and> j + length pat \<le> limit \<longrightarrow> take (length pat) (drop j s) \<noteq> pat"
proof -
  let ?P = "\<lambda>i. i + length pat \<le> limit \<and> take (length pat) (drop i s) = pat"
  let ?is = "filter ?P [0..<limit + 1]"
  have is_i: "?is \<noteq> []" "i = last ?is"
    using assms by (cases ?is; simp only: rfind_def list.simps option.simps; simp)+
  then have "i \<in> set ?is"
    using last_in_set by metis
  then show "i + length pat \<le> limit" "take (length pat) (drop i s) = pat"
    by (simp_all only: set_filter mem_Collect_eq)
  show "\<forall>j. i < j \<and> j + length pat \<le> limit \<longrightarrow> take (length pat) (drop j s) \<noteq> pat"
  proof (intro allI impI notI)
    fix j assume j: "i < j \<and> j + length pat \<le> limit" "take (length pat) (drop j s) = pat"
    then have "j < limit + 1" by simp
    with j have m: "j \<in> set ?is"
      by (simp only: set_filter set_upt mem_Collect_eq atLeastLessThan_iff) simp
    have "sorted ?is"
      by (intro sorted_wrt_filter sorted_upt)
    then have "j \<le> last ?is"
      using m by (rule sorted_le_last)
    then show False
      using is_i(2) j(1) by simp
  qed
qed

lemma index_from_Inr:
  assumes "index_from s c start = Inr i"
  shows "start \<le> i" "i < length s" "s ! i = c" "\<forall>j. start \<le> j \<and> j < i \<longrightarrow> s ! j \<noteq> c"
proof -
  obtain xs where f: "filter (\<lambda>i. s ! i = c) [start..<length s] = i # xs"
    using assms by (auto simp: index_from_def split: list.splits)
  then have "i \<in> set (filter (\<lambda>i. s ! i = c) [start..<length s])" by simp
  then show "start \<le> i" "i < length s" "s ! i = c" by auto
  have "sorted (i # xs)"
    using f by (metis sorted_upt sorted_wrt_filter)
  moreover have "j \<in> set (i # xs)" if "start \<le> j" "j < length s" "s ! j = c" for j
    using that f [symmetric] by (simp del: set_simps)
  ultimately show "\<forall>j. start \<le> j \<and> j < i \<longrightarrow> s ! j \<noteq> c"
    using \<open>i < length s\<close> by fastforce
qed

text \<open>The depth after a piece of text.\<close>

definition braces :: "string \<Rightarrow> int" where
  "braces s = sum_list (map brace_step s)"

lemma braces_simps [simp]: "braces [] = 0" "braces (c # s) = brace_step c + braces s" "braces (s @ t) = braces s + braces t"
  by (simp_all add: braces_def)

lemma close_from_Some:
  "close_from pos d s = Some p \<Longrightarrow> \<exists>k < length s. p = pos + k \<and> d + braces (take (k + 1) s) = 0
     \<and> (\<forall>j < k. d + braces (take (j + 1) s) \<noteq> 0)"
proof (induction pos d s rule: close_from.induct)
  case (1 pos d)
  then show ?case by simp
next
  case (2 pos d c s)
  show ?case
  proof (cases "d + brace_step c = 0")
    case True
    then show ?thesis using "2.prems" by (intro exI [of _ 0]) simp
  next
    case False
    then obtain k where k: "k < length s" "p = pos + 1 + k" "d + brace_step c + braces (take (k + 1) s) = 0"
      "\<forall>j < k. d + brace_step c + braces (take (j + 1) s) \<noteq> 0"
      using "2.IH" [OF refl] "2.prems" by (auto simp: Let_def)
    have "d + braces (take (j + 1) (c # s)) \<noteq> 0" if "j < Suc k" for j
      using that k(4) False by (cases j) (auto simp: add.assoc)
    then show ?thesis
      using k by (intro exI [of _ "Suc k"]) (simp add: add.assoc)
  qed
qed

lemma brace_step_bound: "brace_step c = - 1 \<or> brace_step c = 0 \<or> brace_step c = 1"
  by (simp add: brace_step_def)

text \<open>Until the depth returns to zero it stays positive, and it returns at a closing brace.\<close>

lemma first_return:
  assumes "s ! 0 = CHR ''{''" and "k < length s" and "braces (take (k + 1) s) = 0"
    and "\<forall>j < k. braces (take (j + 1) s) \<noteq> 0"
  shows "\<forall>j < k. 0 < braces (take (j + 1) s)" and "s ! k = CHR ''}''" and "0 < k"
proof -
  have step: "braces (take (j + 1) s) = braces (take j s) + brace_step (s ! j)" if "j < length s" for j
    using that by (simp add: take_Suc_conv_app_nth)
  show pos: "\<forall>j < k. 0 < braces (take (j + 1) s)"
  proof (intro allI impI)
    fix j show "j < k \<Longrightarrow> 0 < braces (take (j + 1) s)"
    proof (induction j)
      case 0
      then show ?case using step [of 0] assms(1,2) by (cases s) (simp_all add: brace_step_def)
    next
      case (Suc j)
      then have "0 < braces (take (Suc j) s)" by simp
      moreover have "braces (take (Suc j + 1) s) \<noteq> 0"
        using assms(4) Suc.prems by blast
      ultimately show ?case
        using step [of "Suc j"] Suc.prems assms(2) brace_step_bound [of "s ! Suc j"] by linarith
    qed
  qed
  show k: "0 < k"
    using assms(1,2,3) step [of 0] by (cases k) (simp_all add: brace_step_def)
  then have "0 < braces (take k s)"
    using pos [rule_format, of "k - 1"] by simp
  then have "brace_step (s ! k) < 0"
    using step [OF assms(2)] assms(3) by linarith
  then show "s ! k = CHR ''}''"
    by (simp add: brace_step_def split: if_splits)
qed

section \<open>What is extracted\<close>

lemma slice_split: "i \<le> j \<Longrightarrow> j \<le> k \<Longrightarrow> drop i (take k s) = drop i (take j s) @ drop j (take k s)"
proof -
  assume "i \<le> j" "j \<le> k"
  moreover have "drop i x = drop i (take j x) @ drop j x" if "i \<le> j" for x :: "'a list"
    using that append_take_drop_id [of j x] drop_append [of i "take j x" "drop j x"] by (cases "j \<le> length x") auto
  from this [of "take k s"] have "i \<le> j \<Longrightarrow> drop i (take k s) = drop i (take j (take k s)) @ drop j (take k s)" .
  ultimately show ?thesis by (simp add: min_absorb1)
qed

text \<open>A masked slice of the source, and what makes a masked body complete.\<close>

definition masked_slice :: "string \<Rightarrow> nat \<Rightarrow> nat \<Rightarrow> string" where
  "masked_slice source i n = take n (drop i (blank mask_pattern source))"

definition balanced_body :: "string \<Rightarrow> bool" where
  "balanced_body m \<longleftrightarrow> (\<exists>inner. m = ''{'' @ inner @ ''}'') \<and> braces m = 0
     \<and> (\<forall>j. 0 < j \<and> j < length m \<longrightarrow> 0 < braces (take j m))"

definition function_slice :: "string \<Rightarrow> string \<Rightarrow> string \<Rightarrow> string \<Rightarrow> bool" where
  "function_slice source cls method text \<longleftrightarrow> (\<exists>a mid sig body b.
     source = a @ text @ b \<and> text = template_prefix @ mid @ marker_text cls method @ sig @ body
     \<and> mid \<noteq> [] \<and> last mid = CHR 10
     \<and> (\<forall>u v. mid = u @ v \<longrightarrow> take (length template_prefix) v \<noteq> template_prefix)
     \<and> (let i = length (a @ template_prefix @ mid @ marker_text cls method) in
          CHR ''{'' \<notin> set (masked_slice source i (length sig))
          \<and> balanced_body (masked_slice source (i + length sig) (length body)))
     \<and> last body = CHR ''}'')"

lemma length_blank [simp]: "length (blank r s) = length s"
  by (simp add: blank_def)

lemma masked_brace: "i < length source \<Longrightarrow> blank mask_pattern source ! i = CHR ''}'' \<Longrightarrow> source ! i = CHR ''}''"
  using blank_from_nth [of i source mask_pattern None] by (auto simp: blank_def)

lemma reads_marker: "reads (marker_pattern cls method) prev u g \<longleftrightarrow>
    (prev = None \<or> prev = Some (CHR 10)) \<and> u = marker_text cls method \<and> g = []"
  unfolding marker_pattern_def seqs.simps reads_seq by simp

text \<open>From the first brace of a masked text to where the count returns.\<close>

lemma close_balanced:
  assumes "m ! 0 = CHR ''{''" and "close_from pos 0 m = Some p"
  shows "\<exists>k < length m. p = pos + k \<and> balanced_body (take (k + 1) m) \<and> m ! k = CHR ''}''"
proof -
  obtain k where k: "k < length m" "p = pos + k" "braces (take (k + 1) m) = 0" "\<forall>j < k. braces (take (j + 1) m) \<noteq> 0"
    using close_from_Some [OF assms(2)] by auto
  note r = first_return [OF assms(1) k(1,3,4)]
  obtain c s where m: "m = c # s" using k(1) by (cases m) auto
  have "take (k + 1) m = ''{'' @ take (k - 1) s @ ''}''"
    using r(2,3) assms(1) k(1) m take_Suc_conv_app_nth [of "k - 1" s] by (cases k) auto
  moreover have "0 < braces (take j (take (k + 1) m))" if "0 < j \<and> j < length (take (k + 1) m)" for j
    using that r(1) [rule_format, of "j - 1"] k(1) by (cases j) (simp_all add: min_absorb1)
  ultimately show ?thesis
    using k r(2) unfolding balanced_body_def by blast
qed

lemma template_prefix_last: "template_prefix \<noteq> []" "last template_prefix \<noteq> CHR 10" "0 < length template_prefix"
  by (simp_all add: template_prefix_def)

lemma extract_slice:
  assumes "extract_function source cls method = Inr result"
  shows "function_slice source cls method result"
proof -
  let ?masked = "blank mask_pattern source"
  obtain skipped matched groups rest where f: "search (marker_pattern cls method) source = Some (skipped, matched, groups, rest)"
    using assms by (auto simp: extract_function_def split: option.splits)
  let ?p = "length skipped" and ?e = "length skipped + length matched" and ?tp = "length template_prefix"
  have src: "source = skipped @ matched @ rest" and matched: "matched = marker_text cls method"
    and prev: "prev_after None skipped = None \<or> prev_after None skipped = Some (CHR 10)"
    using search_Some [OF f] by (auto simp: reads_marker)
  obtain start where start: "rfind source template_prefix ?p = Some start"
    using assms f by (auto simp: extract_function_def split: option.splits)
  note t = rfind_Some [OF start]
  obtain brace pos where brace: "index_from ?masked (CHR ''{'') ?e = Inr brace"
    and pos: "close_from brace 0 (drop brace ?masked) = Some pos" and res: "result = drop start (take (pos + 1) source)"
    using assms f start by (auto simp: extract_function_def Let_def bindE_Inr_iff split: option.splits)
  note b = index_from_Inr [OF brace]
  obtain k where k: "k < length source - brace" "pos = brace + k"
    "balanced_body (take (k + 1) (drop brace ?masked))" "?masked ! pos = CHR ''}''"
    using close_balanced [OF _ pos] b by auto
  let ?mid = "drop (start + ?tp) (take ?p source)" and ?sig = "drop ?e (take brace source)"
    and ?body = "drop brace (take (pos + 1) source)"
  have tp: "drop start (take (start + ?tp) source) = template_prefix"
    using t(2) by (simp add: take_drop add.commute)
  have mk: "drop ?p (take ?e source) = marker_text cls method"
    unfolding src matched by simp
  have le: "start + ?tp \<le> ?p" "?e \<le> brace" "brace \<le> pos + 1" "pos < length source"
    using t(1) b k by auto
  have result: "result = template_prefix @ ?mid @ marker_text cls method @ ?sig @ ?body"
    unfolding res using le slice_split [of start "start + ?tp" "pos + 1" source] slice_split [of "start + ?tp" ?p "pos + 1" source]
      slice_split [of ?p ?e "pos + 1" source] slice_split [of ?e brace "pos + 1" source] tp mk by simp
  have len: "length (take start source) = start"
    using le by simp
  have pre: "skipped = take start source @ template_prefix @ ?mid"
    using le(1) tp slice_split [of start "start + ?tp" ?p source] append_take_drop_id [of start "take ?p source"]
    by (simp add: src min_absorb1)
  have "skipped \<noteq> []"
    using pre template_prefix_last by (metis append_is_Nil_conv)
  then have "last skipped = CHR 10"
    using prev by (simp add: prev_after_def)
  then have last: "last (template_prefix @ ?mid) = CHR 10"
    using pre template_prefix_last by (metis append_is_Nil_conv last_appendR)
  then have mid: "?mid \<noteq> []" "last ?mid = CHR 10"
    using template_prefix_last by (metis append_Nil2, metis append_Nil2 last_appendR)
  have late: "take ?tp v \<noteq> template_prefix" if "?mid = u @ v" for u v
  proof
    assume v: "take ?tp v = template_prefix"
    then have l: "?tp \<le> length v"
      by (metis length_take min.cobounded1)
    have s: "source = (take start source @ template_prefix @ u) @ v @ matched @ rest"
      using src pre that by simp
    have "drop (start + ?tp + length u) source = v @ matched @ rest"
      using arg_cong [OF s, of "drop (start + ?tp + length u)"] len by simp
    then have "take ?tp (drop (start + ?tp + length u) source) = template_prefix"
      using v l by simp
    moreover have "?p = start + ?tp + length u + length v"
      using arg_cong [OF pre, of length] len that by simp
    ultimately show False
      using t(3) [rule_format, of "start + ?tp + length u"] l template_prefix_last by simp
  qed
  have i: "length (take start source @ template_prefix @ ?mid @ marker_text cls method) = ?e"
    using arg_cong [OF pre, of length] len matched by simp
  have sig: "length ?sig = brace - ?e" and body: "length ?body = k + 1"
    using le k(2) by simp_all
  have nob: "CHR ''{'' \<notin> set (masked_slice source ?e (length ?sig))"
    unfolding masked_slice_def sig using b(4) le by (auto simp: in_set_conv_nth)
  have bal: "balanced_body (masked_slice source (?e + length ?sig) (length ?body))"
    unfolding masked_slice_def body sig using k(3) le(2) by simp
  have end_brace: "last ?body = CHR ''}''"
    using masked_brace [OF le(4) k(4)] le(3,4) k(2) by (simp add: last_conv_nth)
  have "start \<le> pos + 1"
    using le by linarith
  then have whole: "source = take start source @ result @ drop (pos + 1) source"
    unfolding res using slice_split [of 0 start "pos + 1" source] by (simp flip: append_assoc)
  show ?thesis
    unfolding function_slice_def Let_def
    by (intro exI [of _ "take start source"] exI [of _ ?mid] exI [of _ ?sig] exI [of _ ?body] exI [of _ "drop (pos + 1) source"] conjI allI impI)
      (fact whole | fact result | fact mid | fact end_brace | simp only: i, fact nob | simp only: i, fact bal | erule late)+
qed

section \<open>Properties of the extraction\<close>

definition demo_body :: string where
  "demo_body = template_prefix @ [CHR 10] @ ''A<BucketT>::f(){//}'' @ [CHR 10] @ ''{}}''"

lemma demo_extracted: "extract_function (demo_body @ '';'') ''A'' ''f'' = Inr demo_body"
  by code_simp

text \<open>
  C33: What the oracle compiles is the pinned source, verbatim: an extracted function is a slice of
  the file that starts at the last template prefix before the function's name at the start of a
  line, has no opening brace between the name and its body, and ends at the closing brace where
  the braces outside comments and literals first balance; the header is the notice of the file
  and the eight slices in order.
\<close>

theorem extract_verbatim:
  "(extract_function source cls method = Inr result \<longrightarrow> function_slice source cls method result)
   \<and> (extracted_header source = Inr header \<longrightarrow> (\<exists>bodies. header = notice source @ join [CHR 10, CHR 10] bodies @ [CHR 10]
        \<and> list_all2 (\<lambda>(cls, method) body. function_slice source cls method body) FUNCTIONS bodies))"
proof (intro conjI impI)
  show "extract_function source cls method = Inr result \<Longrightarrow> function_slice source cls method result"
    by (rule extract_slice)
  assume "extracted_header source = Inr header"
  then obtain bodies where b: "mapE (\<lambda>(cls, method). extract_function source cls method) FUNCTIONS = Inr bodies"
    and h: "header = notice source @ join [CHR 10, CHR 10] bodies @ [CHR 10]"
    unfolding extracted_header_def by (auto simp: bindE_Inr_iff simp del: mapE_Cons)
  have "list_all2 (\<lambda>(cls, method) body. function_slice source cls method body) FUNCTIONS bodies"
    using b unfolding mapE_Inr_iff by (rule list_all2_mono) (auto intro: extract_slice)
  with h show "\<exists>bodies. header = notice source @ join [CHR 10, CHR 10] bodies @ [CHR 10]
      \<and> list_all2 (\<lambda>(cls, method) body. function_slice source cls method body) FUNCTIONS bodies"
    by blast
qed

theorem extract_verbatim_witness: "function_slice (demo_body @ '';'') ''A'' ''f'' demo_body"
  using extract_verbatim [of "demo_body @ '';''" "''A''" "''f''" demo_body undefined] demo_extracted by blast

end
