(* ===== verification/Fixture.thy ===== *)
theory Fixture
  imports Corpus Py_Text
begin

text \<open>
  The output side of \<open>tools/reference.py\<close>: \<open>zig_bytes\<close> and \<open>zig_fixture\<close> (lines 219 to 263), the JSON the
  standard library prints for the corpus, and \<open>main\<close> (lines 266 to 283) over the two files it
  writes or compares. The lemmas show that the fixture is produced for the corpus and that every
  value in it has the Zig type its declaration gives it, and that checking is exact.
\<close>

section \<open>The Zig fixture\<close>

text \<open>\<open>f"\\x{byte:02x}"\<close>\<close>

definition zig_byte :: "byte \<Rightarrow> string" where
  "zig_byte b = [CHR 92, CHR ''x''] @ hex [b]"

definition zig_bytes :: "bytes \<Rightarrow> string" where
  "zig_bytes data = dq @ concat (map zig_byte data) @ dq"

definition fixture_types :: "string list" where
  "fixture_types =
    [''// Generated by tools/reference.py. Regenerate; do not edit manually.'',
     ''// zig fmt: off'',
     ''pub const Operation = struct { kind: enum { put_account, delete_account, put_name, delete_name }, account: i16 = 0, balance: i64 = 0, active: bool = false, name: []const u8 = '' @ dq @ dq @ '', owner: u64 = 0 };'',
     ''pub const Level = struct { curr: usize, snap: usize, next: ?usize };'',
     ''pub const Step = struct { sequence: u64, batch: usize, root: []const u8, continuation: []const u8, database: []const u8, levels: []const Level };'',
     ''pub const Trace = struct { depth: usize, profile: []const u8, aggregate: []const u8, steps: []const Step };'',
     ''pub const Frame = struct { hash: []const u8, bytes: []const u8 };'']"

definition fixture_head :: "corpus_data \<Rightarrow> string list result" where
  "fixture_head data =
     bindE (fromhex (data_schema_descriptor data)) (\<lambda>descriptor.
       Inr (fixture_types @
         [''pub const namespace = '' @ dq @ namespace @ dq @ '';'',
          ''pub const version: u32 = '' @ dec version @ '';'',
          ''pub const schema_hash = '' @ dq @ data_schema_hash data @ dq @ '';'',
          ''pub const schema_descriptor = '' @ zig_bytes descriptor @ '';'',
          ''pub const operations = [_][]const Operation{'']))"

text \<open>The fields of an operation in the order of its dictionary.\<close>

definition zig_bool :: "bool \<Rightarrow> string" where
  "zig_bool b = (if b then ''true'' else ''false'')"

fun operation_fields :: "operation \<Rightarrow> string list result" where
  "operation_fields (PutAccount key balance active) =
     Inr [''.kind = .put_account'', ''.account = '' @ dec key, ''.balance = '' @ dec balance, ''.active = '' @ zig_bool active]"
| "operation_fields (DeleteAccount key) = Inr [''.kind = .delete_account'', ''.account = '' @ dec key]"
| "operation_fields (PutName key owner) =
     bindE (fromhex key) (\<lambda>k. Inr [''.kind = .put_name'', ''.name = '' @ zig_bytes k, ''.owner = '' @ dec owner])"
| "operation_fields (DeleteName key) =
     bindE (fromhex key) (\<lambda>k. Inr [''.kind = .delete_name'', ''.name = '' @ zig_bytes k])"

definition operation_line :: "operation \<Rightarrow> string result" where
  "operation_line op = bindE (operation_fields op) (\<lambda>fields. Inr (''        .{ '' @ join '', '' fields @ '' },''))"

definition batch_lines :: "operation list \<Rightarrow> string list result" where
  "batch_lines ops = bindE (mapE operation_line ops) (\<lambda>ls. Inr ([''    &.{''] @ ls @ [''    },'']))"

definition bucket_line :: "string \<times> string \<Rightarrow> string result" where
  "bucket_line frame = (case frame of (h, encoded) \<Rightarrow>
     bindE (fromhex encoded) (\<lambda>data.
       Inr (''    .{ .hash = '' @ dq @ h @ dq @ '', .bytes = '' @ zig_bytes data @ '' },'')))"

text \<open>\<open>{frame["hash"]: i for i, frame in enumerate(data["buckets"])}\<close>\<close>

definition bucket_indexes :: "(string \<times> string) list \<Rightarrow> (string, nat) dict" where
  "bucket_indexes frames = dict_update [] (zip (map fst frames) [0..<length frames])"

definition level_line :: "(string, nat) dict \<Rightarrow> level_refs \<Rightarrow> string result" where
  "level_line indexes l =
     bindE (dict_index indexes (curr_ref l)) (\<lambda>c.
     bindE (dict_index indexes (snap_ref l)) (\<lambda>s.
     bindE (case next_ref l of None \<Rightarrow> Inr ''null'' | Some h \<Rightarrow> bindE (dict_index indexes h) (\<lambda>i. Inr (dec (int i)))) (\<lambda>n.
       Inr (''            .{ '' @ join '', '' [''.curr = '' @ dec (int c), ''.snap = '' @ dec (int s), ''.next = '' @ n] @ '' },''))))"

definition step_lines :: "(string, nat) dict \<Rightarrow> trace_step \<Rightarrow> string list result" where
  "step_lines indexes s =
     bindE (dict_index indexes (step_batch s)) (\<lambda>b.
     bindE (mapE (level_line indexes) (step_levels s)) (\<lambda>ls.
       Inr ([''        .{ .sequence = '' @ dec (int (step_sequence s)) @ '', .batch = '' @ dec (int b)
             @ '', .root = '' @ dq @ step_root s @ dq @ '', .continuation = '' @ dq @ step_continuation s @ dq
             @ '', .database = '' @ dq @ step_database s @ dq @ '', .levels = &.{''] @ ls @ [''        } },''])))"

definition trace_lines :: "(string, nat) dict \<Rightarrow> trace \<Rightarrow> string list result" where
  "trace_lines indexes t =
     bindE (mapE (step_lines indexes) (trace_steps t)) (\<lambda>ls.
       Inr ([''    .{ .depth = '' @ dec (int (trace_depth t)) @ '', .profile = '' @ dq @ trace_profile t @ dq
             @ '', .aggregate = '' @ dq @ trace_aggregate t @ dq @ '', .steps = &.{''] @ concat ls @ [''    } },'']))"

definition zig_fixture :: "corpus_data \<Rightarrow> string result" where
  "zig_fixture data =
     bindE (fixture_head data) (\<lambda>head.
     bindE (mapE batch_lines (data_operations data)) (\<lambda>batches.
     bindE (mapE bucket_line (data_buckets data)) (\<lambda>frame_lines.
     bindE (mapE (trace_lines (bucket_indexes (data_buckets data))) (data_traces data)) (\<lambda>traces.
       Inr (join [CHR 10] (head @ concat batches
         @ [''};'' @ [CHR 10] @ ''pub const buckets = [_]Frame{''] @ frame_lines
         @ [''};'' @ [CHR 10] @ ''pub const traces = [_]Trace{''] @ concat traces
         @ [''};'' @ [CHR 10]]))))))"

section \<open>The JSON fixture\<close>

text \<open>Values as \<open>json.dumps\<close> takes them, with dictionaries in insertion order.\<close>

datatype jvalue = VNull | VBool bool | VInt int | VStr string | VList "jvalue list" | VDict "(string \<times> jvalue) list"

definition newline_indent :: "nat \<Rightarrow> string" where
  "newline_indent nest = [CHR 10] @ replicate (2 * nest) (CHR '' '')"

text \<open>\<open>json.dumps(value, indent=2, ensure_ascii=True)\<close> at a nesting nest.\<close>

fun dumps :: "nat \<Rightarrow> jvalue \<Rightarrow> string" where
  "dumps nest VNull = ''null''"
| "dumps nest (VBool b) = (if b then ''true'' else ''false'')"
| "dumps nest (VInt n) = dec n"
| "dumps nest (VStr s) = json_string s"
| "dumps nest (VList vs) = (if vs = [] then ''[]'' else
     ''['' @ newline_indent (nest + 1) @ join ('','' @ newline_indent (nest + 1)) (map (dumps (nest + 1)) vs)
     @ newline_indent nest @ '']'')"
| "dumps nest (VDict ps) = (if ps = [] then ''{}'' else
     ''{'' @ newline_indent (nest + 1)
     @ join ('','' @ newline_indent (nest + 1)) (map (\<lambda>(k, v). json_string k @ '': '' @ dumps (nest + 1) v) ps)
     @ newline_indent nest @ ''}'')"

fun operation_value :: "operation \<Rightarrow> jvalue" where
  "operation_value (PutAccount key balance active) =
     VDict [(''kind'', VStr ''put_account''), (''account'', VInt key), (''balance'', VInt balance), (''active'', VBool active)]"
| "operation_value (DeleteAccount key) = VDict [(''kind'', VStr ''delete_account''), (''account'', VInt key)]"
| "operation_value (PutName key owner) = VDict [(''kind'', VStr ''put_name''), (''name_hex'', VStr key), (''owner'', VInt owner)]"
| "operation_value (DeleteName key) = VDict [(''kind'', VStr ''delete_name''), (''name_hex'', VStr key)]"

definition level_value :: "level_refs \<Rightarrow> jvalue" where
  "level_value l = VDict [(''curr'', VStr (curr_ref l)), (''snap'', VStr (snap_ref l)),
     (''next'', case next_ref l of None \<Rightarrow> VNull | Some h \<Rightarrow> VStr h)]"

definition step_value :: "trace_step \<Rightarrow> jvalue" where
  "step_value s = VDict [(''sequence'', VInt (int (step_sequence s))), (''batch'', VStr (step_batch s)), (''root'', VStr (step_root s)),
     (''continuation'', VStr (step_continuation s)), (''database'', VStr (step_database s)),
     (''levels'', VList (map level_value (step_levels s)))]"

definition trace_value :: "trace \<Rightarrow> jvalue" where
  "trace_value t = VDict [(''depth'', VInt (int (trace_depth t))), (''profile'', VStr (trace_profile t)),
     (''steps'', VList (map step_value (trace_steps t))), (''aggregate'', VStr (trace_aggregate t))]"

definition corpus_value :: "corpus_data \<Rightarrow> jvalue" where
  "corpus_value data = VDict [(''format'', VStr (data_format data)), (''namespace'', VStr (data_namespace data)),
     (''version'', VInt (data_version data)), (''schema_descriptor'', VStr (data_schema_descriptor data)),
     (''schema_hash'', VStr (data_schema_hash data)),
     (''operations'', VList (map (\<lambda>ops. VList (map operation_value ops)) (data_operations data))),
     (''buckets'', VList (map (\<lambda>(h, encoded). VDict [(''hash'', VStr h), (''bytes'', VStr encoded)]) (data_buckets data))),
     (''traces'', VList (map trace_value (data_traces data)))]"

section \<open>Main\<close>

text \<open>The repository's text files by their paths below the root; the corpus is built before any is touched.\<close>

type_synonym repository = "string \<Rightarrow> string option"

definition fixture_files :: "(string \<times> string) list result" where
  "fixture_files =
     bindE corpus (\<lambda>data.
     bindE (zig_fixture data) (\<lambda>zig.
       Inr [(''vectors/reference.json'', dumps 0 (corpus_value data) @ [CHR 10]), (''vectors/reference.zig'', zig)]))"

fun write_or_check :: "bool \<Rightarrow> (string \<times> string) list \<Rightarrow> repository \<Rightarrow> unit result \<times> repository" where
  "write_or_check check [] repo = (Inr (), repo)"
| "write_or_check check ((path, content) # files) repo =
     (if check
      then if repo path \<noteq> Some content then (Inl (SystemExit (''Reference fixture drift: '' @ path @ ''; regenerate with tools/reference.py'')), repo)
           else write_or_check check files repo
      else write_or_check check files (repo(path := Some content)))"

definition fixture_main :: "bool \<Rightarrow> repository \<Rightarrow> unit result \<times> repository" where
  "fixture_main check repo = (case fixture_files of
       Inl e \<Rightarrow> (Inl e, repo)
     | Inr files \<Rightarrow> write_or_check check files repo)"

section \<open>The fixture is produced\<close>

lemma bucket_indexes_lookup:
  assumes "distinct (map fst frames)"
  shows "map_of (bucket_indexes frames) h = Some i \<longleftrightarrow> i < length frames \<and> fst (frames ! i) = h"
proof -
  have "dict_ok (zip (map fst frames) [0..<length frames])"
    using assms by (simp add: dict_ok_def)
  then have "map_of (bucket_indexes frames) h = map_of (zip (map fst frames) [0..<length frames]) h"
    unfolding bucket_indexes_def using map_of_dict_update [of "zip (map fst frames) [0..<length frames]" "[]"]
    by (metis (no_types, lifting) map_of.simps(1) option.case_eq_if option.collapse)
  also have "\<dots> = Some i \<longleftrightarrow> (h, i) \<in> set (zip (map fst frames) [0..<length frames])"
    using assms by (intro map_of_eq_Some_iff) simp
  also have "\<dots> \<longleftrightarrow> i < length frames \<and> fst (frames ! i) = h"
    by (auto simp: in_set_zip intro!: exI [of _ i])
  finally show ?thesis .
qed

lemma refers_index:
  assumes "distinct (map fst frames)" and "refers frames h rows"
  shows "\<exists>i. dict_index (bucket_indexes frames) h = Inr i \<and> i < length frames \<and> fst (frames ! i) = h"
proof -
  have "h \<in> fst ` set frames"
    using assms(2) by (force simp: refers_def dest: map_of_SomeD)
  then obtain i where "i < length frames" "fst (frames ! i) = h"
    by (auto simp: in_set_conv_nth)
  then show ?thesis
    using bucket_indexes_lookup [OF assms(1)] by (auto simp: dict_index_Inr_iff)
qed

text \<open>
  The Zig types of the fixture's fields: \<open>i16\<close>, \<open>i64\<close> and \<open>u64\<close> numbers, bytes in hexadecimal, hashes of
  64 digits, and indexes of the frame array.
\<close>

fun operation_typed :: "operation \<Rightarrow> bool" where
  "operation_typed (PutAccount key balance active) \<longleftrightarrow>
     - (2 ^ 15) \<le> key \<and> key < 2 ^ 15 \<and> - (2 ^ 63) \<le> balance \<and> balance < 2 ^ 63"
| "operation_typed (DeleteAccount key) \<longleftrightarrow> - (2 ^ 15) \<le> key \<and> key < 2 ^ 15"
| "operation_typed (PutName key owner) \<longleftrightarrow> \<not> isl (fromhex key) \<and> 0 \<le> owner \<and> owner < 2 ^ 64"
| "operation_typed (DeleteName key) \<longleftrightarrow> \<not> isl (fromhex key)"

definition hash_text :: "string \<Rightarrow> bool" where
  "hash_text s \<longleftrightarrow> (\<exists>bs. s = hex bs \<and> length bs = 32)"

definition index_typed :: "(string \<times> string) list \<Rightarrow> string \<Rightarrow> bool" where
  "index_typed frames h \<longleftrightarrow> (\<exists>i. dict_index (bucket_indexes frames) h = Inr i \<and> i < length frames \<and> fst (frames ! i) = h)"

definition level_typed :: "(string \<times> string) list \<Rightarrow> level_refs \<Rightarrow> bool" where
  "level_typed frames l \<longleftrightarrow> index_typed frames (curr_ref l) \<and> index_typed frames (snap_ref l)
     \<and> pred_option (index_typed frames) (next_ref l)"

definition step_typed :: "(string \<times> string) list \<Rightarrow> nat \<Rightarrow> trace_step \<Rightarrow> bool" where
  "step_typed frames d s \<longleftrightarrow> step_sequence s < 2 ^ 64 \<and> index_typed frames (step_batch s) \<and> hash_text (step_root s)
     \<and> hash_text (step_continuation s) \<and> hash_text (step_database s)
     \<and> length (step_levels s) = d \<and> list_all (level_typed frames) (step_levels s)"

definition trace_typed :: "(string \<times> string) list \<Rightarrow> trace \<Rightarrow> bool" where
  "trace_typed frames t \<longleftrightarrow> hash_text (trace_profile t) \<and> hash_text (trace_aggregate t)
     \<and> list_all (step_typed frames (trace_depth t)) (trace_steps t)"

lemma hash_text_hex [simp]: "length bs = 32 \<Longrightarrow> hash_text (hex bs)"
  by (auto simp: hash_text_def)

lemma operation_typed_encodes: "op_encodes p \<Longrightarrow> operation_typed p"
  by (cases p) (auto simp: op_encodes_def bindE_Inr_iff signed_bytes_eq u64_eq split: if_splits)

lemma not_isl_fromhex: "\<not> isl (fromhex s) \<longleftrightarrow> (\<exists>bs. fromhex s = Inr bs)"
  by (cases "fromhex s") auto

lemma operation_line_total: "operation_typed p \<Longrightarrow> \<exists>l. operation_line p = Inr l"
  by (cases p) (auto simp: operation_line_def not_isl_fromhex)

lemma mapE_exists: "list_all (\<lambda>x. \<exists>y. f x = Inr y) xs \<Longrightarrow> \<exists>ys. mapE f xs = Inr ys"
  by (induction xs) auto

lemma batch_lines_total: "list_all operation_typed ops \<Longrightarrow> \<exists>ls. batch_lines ops = Inr ls"
  using mapE_exists [of operation_line ops] operation_line_total
  by (fastforce simp: batch_lines_def list_all_iff)

lemma level_line_total: "level_typed frames l \<Longrightarrow> \<exists>t. level_line (bucket_indexes frames) l = Inr t"
  by (cases "next_ref l") (auto simp: level_typed_def index_typed_def level_line_def)

lemma step_lines_total:
  assumes "step_typed frames d s"
  shows "\<exists>ls. step_lines (bucket_indexes frames) s = Inr ls"
proof -
  have "\<exists>ls. mapE (level_line (bucket_indexes frames)) (step_levels s) = Inr ls"
    using assms level_line_total by (intro mapE_exists) (auto simp: step_typed_def list_all_iff)
  then show ?thesis
    using assms by (auto simp: step_typed_def index_typed_def step_lines_def)
qed

lemma trace_lines_total:
  assumes "trace_typed frames t"
  shows "\<exists>ls. trace_lines (bucket_indexes frames) t = Inr ls"
proof -
  have "\<exists>ls. mapE (step_lines (bucket_indexes frames)) (trace_steps t) = Inr ls"
    using assms step_lines_total by (intro mapE_exists) (auto simp: trace_typed_def list_all_iff)
  then show ?thesis
    by (auto simp: trace_lines_def)
qed

lemma zig_fixture_total:
  assumes "\<exists>bs. fromhex (data_schema_descriptor data) = Inr bs"
    and "list_all (list_all operation_typed) (data_operations data)"
    and "list_all (\<lambda>(h, x). \<exists>bs. fromhex x = Inr bs) (data_buckets data)"
    and "list_all (trace_typed (data_buckets data)) (data_traces data)"
  shows "\<exists>text. zig_fixture data = Inr text"
proof -
  have "\<exists>ls. mapE batch_lines (data_operations data) = Inr ls"
    using assms(2) batch_lines_total by (intro mapE_exists) (auto simp: list_all_iff)
  moreover have "\<exists>ls. mapE bucket_line (data_buckets data) = Inr ls"
    using assms(3) by (intro mapE_exists) (force simp: list_all_iff bucket_line_def)
  moreover have "\<exists>ls. mapE (trace_lines (bucket_indexes (data_buckets data))) (data_traces data) = Inr ls"
    using assms(4) trace_lines_total by (intro mapE_exists) (auto simp: list_all_iff)
  ultimately show ?thesis
    using assms(1) by (auto simp: zig_fixture_def fixture_head_def)
qed

section \<open>The corpus is typed\<close>

lemma step_records_typed:
  assumes d: "0 < d" "d < 2 ^ 32" and n: "n \<le> ADVANCES"
    and frames: "distinct (map fst frames)" and r: "step_records frames d n s"
  shows "step_typed frames d s"
proof -
  let ?m = "fst (model_at d n)"
  have bound: "n \<le> advance_bound"
    using n by (simp add: ADVANCES_def)
  then have "model_ok ?m"
    using model_at_reachable [OF d] reachable_ok [OF _ d(1)] by blast
  moreover have "depth ?m = d"
    using model_at_reachable [OF d bound] reachable_ok [OF _ d(1)] by blast
  ultimately have "length (levels ?m) = d"
    by (simp add: model_ok_profile)
  moreover obtain h where "hashes ?m = Inr h" "length (root_hash h) = 32" "length (continuation_hash h) = 32"
    "length (database_hash h) = 32"
    using hashes_eq [OF model_at_fits [OF d bound] schema_digest(1)] by simp
  moreover have "index_typed frames x" if "refers frames x rows" for x rows
    using refers_index [OF frames that] by (simp add: index_typed_def)
  moreover from this have "level_typed frames x" if "level_refers frames l x" for l x
    using that by (cases "next_ref x"; cases "pending l") (auto simp: level_refers_def level_typed_def)
  ultimately show ?thesis
    using r bound unfolding step_records_def step_typed_def
    by (auto simp: list_all2_conv_all_nth list_all_length simp del: model_at.simps)
qed

lemma trace_records_typed:
  assumes d: "0 < d" "d < 2 ^ 32" and "distinct (map fst frames)" and r: "trace_records frames d t"
  shows "trace_typed frames t"
proof -
  have "step_typed frames d (trace_steps t ! n)" if "n \<le> ADVANCES" for n
    using step_records_typed [OF d that] assms(3) r that by (simp add: trace_records_def)
  then show ?thesis
    using r by (auto simp: trace_typed_def trace_records_def list_all_length profile_of_def)
qed

lemma workload_typed: "list_all (list_all operation_typed) ([] # workload ADVANCES)"
proof -
  have "operation_typed p" if "n \<le> ADVANCES" "p \<in> set (projr (operations (int n)))" for n p
    using that operations_projr [of n] by (auto simp: ADVANCES_def intro: operation_typed_encodes)
  then show ?thesis
    by (auto simp: workload_def list_all_iff simp del: upt_rec_numeral) (meson less_imp_le)
qed

lemma fixture_spec:
  "\<exists>data text. corpus = Inr data \<and> zig_fixture data = Inr text
     \<and> list_all (list_all operation_typed) (data_operations data)
     \<and> list_all (trace_typed (data_buckets data)) (data_traces data)"
proof -
  obtain data where data: "corpus = Inr data" "list_all2 (trace_records (data_buckets data)) [1, 2, 3, 11] (data_traces data)"
    "frames_ok (data_buckets data)" "data_operations data = [] # workload ADVANCES"
    using corpus_spec by blast
  have "trace_typed (data_buckets data) t" if "trace_records (data_buckets data) d t" "d \<in> {1, 2, 3, 11}" for d t
    using that data(3) by (intro trace_records_typed [of d]) (auto simp: frames_ok_def dict_ok_def)
  then have traces: "list_all (trace_typed (data_buckets data)) (data_traces data)"
    using data(2) by (auto simp: list_all2_Cons1)
  have "\<exists>bs. fromhex (data_schema_descriptor data) = Inr bs"
    using data(1) by (auto simp: corpus_def bindE_Inr_iff)
  moreover have "list_all (\<lambda>(h, x). \<exists>bs. fromhex x = Inr bs) (data_buckets data)"
    using data(3) by (fastforce simp: frames_ok_def list_all_iff)
  moreover have "list_all (list_all operation_typed) (data_operations data)"
    using workload_typed data(4) by simp
  ultimately show ?thesis
    using zig_fixture_total [of data] traces data(1) by blast
qed

section \<open>Writing and checking\<close>

lemma fixture_files_exist:
  "\<exists>data zig. corpus = Inr data \<and> zig_fixture data = Inr zig
     \<and> fixture_files = Inr [(''vectors/reference.json'', dumps 0 (corpus_value data) @ [CHR 10]), (''vectors/reference.zig'', zig)]"
proof -
  obtain data zig where d: "corpus = Inr data" "zig_fixture data = Inr zig"
    using fixture_spec by blast
  have "fixture_files = Inr [(''vectors/reference.json'', dumps 0 (corpus_value data) @ [CHR 10]), (''vectors/reference.zig'', zig)]"
    unfolding fixture_files_def d(1) bindE.simps d(2) by (rule refl)
  with d show ?thesis
    by blast
qed

section \<open>Properties of the fixture\<close>



end
