(* ===== verification/Py_Json.thy ===== *)
theory Py_Json
  imports Py_Text
begin

text \<open>
  Parsed JSON values as the tools use them. Booleans are the integers 0 and 1, which they equal in
  Python; a number is an integer, as the files of the repository have them, and arithmetic on
  anything else is a \<open>TypeError\<close>. The items of an object are kept sorted by key, so that equal
  objects are equal values.
\<close>

section \<open>Values\<close>

datatype json = JNull | JInt int | JStr string | JList "json list" | JObj "(string \<times> json) list"

fun as_int :: "json \<Rightarrow> int result" where
  "as_int (JInt n) = Inr n"
| "as_int _ = Inl TypeError"

fun truthy :: "json \<Rightarrow> bool" where
  "truthy JNull = False"
| "truthy (JInt n) = (n \<noteq> 0)"
| "truthy (JStr s) = (s \<noteq> [])"
| "truthy (JList xs) = (xs \<noteq> [])"
| "truthy (JObj d) = (d \<noteq> [])"

text \<open>Lists and objects cannot be dictionary keys.\<close>

fun hashable :: "json \<Rightarrow> bool" where
  "hashable (JList xs) = False"
| "hashable (JObj d) = False"
| "hashable _ = True"

text \<open>
  \<open>value[key]\<close> with a string key, and what a \<open>for\<close> loop over the value yields: an object yields its
  keys and a string its characters.
\<close>

fun json_index :: "json \<Rightarrow> string \<Rightarrow> json result" where
  "json_index (JObj d) k = dict_index d k"
| "json_index _ k = Inl TypeError"

fun json_items :: "json \<Rightarrow> json list result" where
  "json_items (JList xs) = Inr xs"
| "json_items (JObj d) = Inr (map (\<lambda>x. JStr (fst x)) d)"
| "json_items (JStr s) = Inr (map (\<lambda>c. JStr [c]) s)"
| "json_items _ = Inl TypeError"

section \<open>Checks in sequence\<close>

text \<open>\<open>if not condition: raise ValueError(message)\<close>\<close>

definition require :: "bool \<Rightarrow> string \<Rightarrow> unit result" where
  "require condition message = guardE (ValueError message) condition"

fun forE :: "('a \<Rightarrow> unit result) \<Rightarrow> 'a list \<Rightarrow> unit result" where
  "forE f [] = Inr ()"
| "forE f (x # xs) = bindE (f x) (\<lambda>_. forE f xs)"

lemma require_Inr_iff [simp]: "require c m = Inr u \<longleftrightarrow> c"
  by (simp add: require_def)

lemma forE_Inr_iff: "forE f xs = Inr u \<longleftrightarrow> (\<forall>x \<in> set xs. f x = Inr ())"
  by (induction xs) (auto simp: bindE_Inr_iff)

end
