(* ===== verification/Disk_Bench.thy ===== *)
theory Disk_Bench
  imports Py_Json
begin

text \<open>
  The benchmark comparison of \<open>tools/compare-disk-bench.py\<close>: \<open>expected_phases\<close>, \<open>read\<close> and the
  checks of \<open>compare\<close> (lines 8 to 96). A file is the list of its parsed rows; reading and parsing
  the text are the standard library's, and values are as theory Py_Json has them. The lemmas show that the phase list a run must have is consistent with the
  number of advances the commits must have, and that a file \<open>read\<close> accepts is a complete history
  on which both worker counts agree.
\<close>

section \<open>Rows\<close>

type_synonym brow = "(string, json) dict"

definition int_field :: "brow \<Rightarrow> string \<Rightarrow> int result" where
  "int_field row k = bindE (dict_index row k) as_int"

text \<open>\<open>row.get("phase") == name\<close>\<close>

definition phase_is :: "string \<Rightarrow> brow \<Rightarrow> bool" where
  "phase_is name row = (map_of row ''phase'' = Some (JStr name))"

section \<open>The phases of a run\<close>

type_synonym phase_row = "json \<times> json \<times> json \<times> json"

definition phase_row :: "string \<Rightarrow> string \<Rightarrow> int \<Rightarrow> int \<Rightarrow> phase_row" where
  "phase_row phase name n ops = (JStr phase, JStr name, JInt n, JInt ops)"

text \<open>\<open>range(i, count, step)\<close> for a step other than zero.\<close>

function range_from :: "int \<Rightarrow> int \<Rightarrow> int \<Rightarrow> int list" where
  "range_from i count step =
     (if 0 < step \<and> i < count \<or> step < 0 \<and> count < i then i # range_from (i + step) count step else [])"
  by pat_completeness auto

termination
  by (relation "measure (\<lambda>(i, count, step). nat \<bar>count - i\<bar> + (if 0 < step \<and> i < count \<or> step < 0 \<and> count < i then nat \<bar>step\<bar> else 0))") auto

declare range_from.simps [simp del]

text \<open>The body of the inner loop, on \<open>phases\<close> and \<open>advance\<close>.\<close>

definition batch_phases :: "string \<Rightarrow> int \<Rightarrow> int \<Rightarrow> int \<Rightarrow> phase_row list \<times> int \<Rightarrow> phase_row list \<times> int" where
  "batch_phases name count batch off st = (case st of (phases, n) \<Rightarrow>
     let ops = min batch (count - off);
         phases = phases @ [phase_row ''stage'' name n ops];
         n = n + 1
     in (phases @ map (\<lambda>phase. phase_row phase name n ops) [''prepare'', ''commit'', ''cleanup''], n))"

definition workload_phases :: "int \<Rightarrow> int \<Rightarrow> string \<Rightarrow> phase_row list \<times> int \<Rightarrow> phase_row list \<times> int" where
  "workload_phases records batch name st =
     (let count = (if name = ''load'' then records else records div 4)
      in fold (batch_phases name count batch) (range_from 0 count batch) st)"

text \<open>A batch size of zero makes \<open>range\<close> raise.\<close>

definition expected_phases :: "brow \<Rightarrow> phase_row list result" where
  "expected_phases config =
     bindE (int_field config ''records'') (\<lambda>records.
     bindE (int_field config ''batch_rows'') (\<lambda>batch.
     if batch = 0 then Inl (ValueError ''range() arg 3 must not be zero'')
     else let (phases, n) = fold (workload_phases records batch)
            [''load'', ''update'', ''noop'', ''delete'', ''insert''] ([phase_row ''open'' ''genesis'' 0 0], 0) in
     bindE (int_field config ''read_samples_per_phase'') (\<lambda>samples.
       Inr (phases @
         [phase_row ''get'' ''verify_formula'' n samples,
          phase_row ''close'' ''before_reopen'' n 0,
          phase_row ''reopen'' ''authenticated_warm_cache'' n 0,
          phase_row ''get_reopened'' ''verify_formula'' n samples,
          phase_row ''collect'' ''current_root'' n 0,
          phase_row ''get_after_collect'' ''verify_formula'' n samples,
          phase_row ''close'' ''final'' n 0]))))"

section \<open>Reading a file\<close>

type_synonym proof_key = "json \<times> json \<times> json"
type_synonym summary_key = "json \<times> json"
type_synonym proofs = "(proof_key, json \<times> json) dict"
type_synonym summaries = "(summary_key, brow) dict"

text \<open>The \<open>commit\<close> and \<open>summary\<close> branches of the first loop.\<close>

definition commit_row :: "brow \<Rightarrow> proofs \<Rightarrow> proofs result" where
  "commit_row row proofs =
     bindE (dict_index row ''trial'') (\<lambda>trial.
     bindE (dict_index row ''merge_workers'') (\<lambda>workers.
     bindE (dict_index row ''advance'') (\<lambda>n.
     bindE (guardE TypeError (hashable trial \<and> hashable workers \<and> hashable n)) (\<lambda>_.
     bindE (require (map_of proofs (trial, workers, n) = None) ''duplicate advance'') (\<lambda>_.
     bindE (dict_index row ''digest'') (\<lambda>h.
     bindE (dict_index row ''reference_manifest_hash'') (\<lambda>reference.
       Inr (AList.update (trial, workers, n) (h, reference) proofs))))))))"

definition summary_row :: "brow \<Rightarrow> brow \<Rightarrow> summaries \<Rightarrow> summaries result" where
  "summary_row config row summaries =
     bindE (dict_index row ''trial'') (\<lambda>trial.
     bindE (dict_index row ''merge_workers'') (\<lambda>workers.
     bindE (guardE TypeError (hashable trial \<and> hashable workers)) (\<lambda>_.
     bindE (require (map_of summaries (trial, workers) = None) ''duplicate summary'') (\<lambda>_.
     bindE (dict_index row ''live_allocation_bytes'') (\<lambda>live_bytes.
     bindE (require (live_bytes = JInt 0) ''live allocations at close'') (\<lambda>_.
     bindE (dict_index row ''logical_bytes'') (\<lambda>logical_bytes.
     bindE (int_field config ''mib'') (\<lambda>mib.
     bindE (require (logical_bytes = JInt (mib * 1024 ^ 2)) ''wrong live size'') (\<lambda>_.
     bindE (dict_index row ''records'') (\<lambda>records.
     bindE (dict_index config ''records'') (\<lambda>config_records.
     bindE (require (records = config_records) ''wrong live record count'') (\<lambda>_.
     bindE (if workers = JInt 2
            then bindE (dict_index row ''all_advance_digests_and_references_match'') (\<lambda>v.
                   require (truthy v) ''worker comparison failed'')
            else Inr ()) (\<lambda>_.
       Inr (AList.update (trial, workers) row summaries))))))))))))))"

fun scan_rows :: "brow \<Rightarrow> brow list \<Rightarrow> proofs \<times> summaries \<Rightarrow> (proofs \<times> summaries) result" where
  "scan_rows config [] st = Inr st"
| "scan_rows config (row # rows) (proofs, summaries) =
     bindE (if phase_is ''commit'' row
            then bindE (commit_row row proofs) (\<lambda>proofs. Inr (proofs, summaries))
            else if phase_is ''summary'' row
            then bindE (summary_row config row summaries) (\<lambda>summaries. Inr (proofs, summaries))
            else Inr (proofs, summaries)) (scan_rows config rows)"

text \<open>The checks of the configuration, with Python's short circuits.\<close>

definition check_config :: "brow \<Rightarrow> unit result" where
  "check_config config =
     bindE (dict_index config ''format'') (\<lambda>fmt.
     bindE (require (fmt = JStr ''bucketlist-disk-bench-v1'') ''unsupported format'') (\<lambda>_.
     bindE (int_field config ''trials'') (\<lambda>trials.
     bindE (if 0 < trials then bindE (int_field config ''batch_rows'') (\<lambda>batch. Inr (0 < batch)) else Inr False) (\<lambda>ok.
     bindE (require ok ''invalid workload'') (\<lambda>_.
     bindE (int_field config ''records'') (\<lambda>records.
     bindE (if records mod 4 = 0
            then bindE (int_field config ''value_bytes'') (\<lambda>value_bytes.
                 bindE (int_field config ''mib'') (\<lambda>mib. Inr (records * value_bytes = mib * 1024 ^ 2)))
            else Inr False) (\<lambda>ok.
       require ok ''invalid record count'')))))))"

definition advance_count :: "int \<Rightarrow> int \<Rightarrow> int" where
  "advance_count count batch = (count + batch - 1) div batch + 4 * ((count div 4 + batch - 1) div batch)"

text \<open>The second pair of loops: both worker counts committed the same at every advance.\<close>

definition check_workers :: "int \<Rightarrow> int \<Rightarrow> proofs \<Rightarrow> unit result" where
  "check_workers trials advances proofs =
     forE (\<lambda>trial. forE (\<lambda>n.
       bindE (dict_index proofs (JInt trial, JInt 1, JInt n)) (\<lambda>one.
       bindE (dict_index proofs (JInt trial, JInt 2, JInt n)) (\<lambda>two.
         require (one = two) ''worker reference mismatch''))) [1..advances]) [0..trials - 1]"

text \<open>The rows with a measurement of one trial and worker count.\<close>

fun measured :: "summary_key \<Rightarrow> brow list \<Rightarrow> brow list result" where
  "measured key [] = Inr []"
| "measured key (row # rows) =
     bindE (if map_of row ''measurement'' = None then Inr False
            else bindE (dict_index row ''trial'') (\<lambda>trial.
                 bindE (dict_index row ''merge_workers'') (\<lambda>workers. Inr ((trial, workers) = key)))) (\<lambda>keep.
     bindE (measured key rows) (\<lambda>rest. Inr (if keep then row # rest else rest)))"

definition phase_of :: "brow \<Rightarrow> phase_row result" where
  "phase_of r =
     bindE (dict_index r ''phase'') (\<lambda>p. bindE (dict_index r ''workload'') (\<lambda>w.
     bindE (dict_index r ''advance'') (\<lambda>a. bindE (dict_index r ''operations'') (\<lambda>ops. Inr (p, w, a, ops)))))"

text \<open>\<open>row["measurement"][field]\<close>\<close>

definition measure_of :: "string \<Rightarrow> brow \<Rightarrow> int result" where
  "measure_of field r =
     bindE (dict_index r ''measurement'') (\<lambda>v.
     case v of JObj d \<Rightarrow> bindE (dict_index d field) as_int | _ \<Rightarrow> Inl TypeError)"

definition check_summary :: "brow \<Rightarrow> brow list \<Rightarrow> int \<Rightarrow> proofs \<Rightarrow> summary_key \<times> brow \<Rightarrow> unit result" where
  "check_summary config rows advances proofs ks = (case ks of (key, summary) \<Rightarrow>
     bindE (measured key rows) (\<lambda>phases.
     bindE (mapE phase_of phases) (\<lambda>actual.
     bindE (expected_phases config) (\<lambda>expected.
     bindE (require (actual = expected) ''incomplete phase history'') (\<lambda>_.
     bindE (dict_index summary ''advance'') (\<lambda>n.
     bindE (if n = JInt advances
            then bindE (dict_index summary ''digest'') (\<lambda>h.
                 bindE (dict_index summary ''reference_manifest_hash'') (\<lambda>reference.
                 bindE (dict_index proofs (fst key, snd key, JInt advances)) (\<lambda>last_proof.
                   Inr ((h, reference) = last_proof))))
            else Inr False) (\<lambda>ok.
     bindE (require ok ''summary identity mismatch'') (\<lambda>_.
     bindE (dict_index summary ''measured_elapsed_ns'') (\<lambda>elapsed.
     bindE (mapE (measure_of ''elapsed_ns'') phases) (\<lambda>times.
     bindE (require (elapsed = JInt (sum_list times)) ''elapsed total mismatch'') (\<lambda>_.
     bindE (dict_index summary ''positional_read_bytes'') (\<lambda>total_read.
     bindE (mapE (measure_of ''positional_read_bytes'') phases) (\<lambda>reads.
     bindE (require (total_read = JInt (sum_list reads)) ''read total mismatch'') (\<lambda>_.
     bindE (dict_index summary ''peak_allocation_bytes'') (\<lambda>peak.
     bindE (mapE (measure_of ''peak_allocation_bytes'') phases) (\<lambda>peaks.
     bindE (if peaks = [] then Inl (ValueError ''max() iterable argument is empty'') else Inr (Max (set peaks))) (\<lambda>most.
       require (peak = JInt most) ''allocation peak mismatch'')))))))))))))))))"

definition optimize_modes :: "(string, string) dict" where
  "optimize_modes = [(''Debug'', ''debug''), (''ReleaseSafe'', ''safe''), (''ReleaseFast'', ''fast''), (''ReleaseSmall'', ''small'')]"

text \<open>\<open>modes.get(v)\<close>; only a string is found, and \<open>None\<close> is a value of its own.\<close>

definition mode_of :: "json \<Rightarrow> json result" where
  "mode_of v = (if \<not> hashable v then Inl TypeError
     else Inr (case v of JStr s \<Rightarrow> (case map_of optimize_modes s of None \<Rightarrow> JNull | Some m \<Rightarrow> JStr m) | _ \<Rightarrow> JNull))"

record bench =
  bench_rows :: "brow list"
  bench_config :: brow
  bench_proofs :: proofs
  bench_summaries :: summaries
  bench_source :: brow

definition worker_keys :: "int \<Rightarrow> summary_key set" where
  "worker_keys trials = set (concat (map (\<lambda>trial. map (\<lambda>worker. (JInt trial, JInt worker)) [1, 2]) [0..trials - 1]))"

definition proof_keys :: "int \<Rightarrow> int \<Rightarrow> proof_key set" where
  "proof_keys trials advances = set (concat (map (\<lambda>trial. concat (map (\<lambda>worker.
     map (\<lambda>n. (JInt trial, JInt worker, JInt n)) [1..advances]) [1, 2])) [0..trials - 1]))"

definition bench_read :: "brow list \<Rightarrow> bench result" where
  "bench_read rows =
     (let configs = filter (phase_is ''configuration'') rows in
     bindE (require (length configs = 1) ''expected one configuration'') (\<lambda>_.
     let config = hd configs in
     bindE (check_config config) (\<lambda>_.
     bindE (scan_rows config rows ([], [])) (\<lambda>(proofs, summaries).
     bindE (int_field config ''batch_rows'') (\<lambda>batch.
     bindE (int_field config ''records'') (\<lambda>count.
     bindE (int_field config ''trials'') (\<lambda>trials.
     let advances = advance_count count batch in
     bindE (require (fst ` set summaries = worker_keys trials) ''incomplete summaries'') (\<lambda>_.
     bindE (require (fst ` set proofs = proof_keys trials advances) ''incomplete advance history'') (\<lambda>_.
     bindE (check_workers trials advances proofs) (\<lambda>_.
     bindE (forE (check_summary config rows advances proofs) summaries) (\<lambda>_.
     let provenance = filter (phase_is ''provenance'') rows in
     bindE (require (length provenance = 1) ''expected one provenance record'') (\<lambda>_.
     bindE (dict_index (hd provenance) ''optimize'') (\<lambda>optimize.
     bindE (mode_of optimize) (\<lambda>mode.
     bindE (dict_index config ''optimize'') (\<lambda>expected.
     bindE (require (mode = expected) ''optimization provenance mismatch'') (\<lambda>_.
       Inr \<lparr>bench_rows = rows, bench_config = config, bench_proofs = proofs,
            bench_summaries = summaries, bench_source = hd provenance\<rparr>))))))))))))))))"

section \<open>Comparing two files\<close>

definition compared_fields :: "string list" where
  "compared_fields = [''format'', ''zig'', ''optimize'', ''cpu'', ''os'', ''mib'', ''records'', ''value_bytes'',
     ''batch_rows'', ''read_samples_per_phase'', ''trials'']"

text \<open>The measured rows' identities, in file order.\<close>

definition bench_trace :: "brow list \<Rightarrow> (json \<times> json \<times> phase_row) list result" where
  "bench_trace rows = mapE (\<lambda>r. bindE (dict_index r ''trial'') (\<lambda>t. bindE (dict_index r ''merge_workers'') (\<lambda>w.
     bindE (phase_of r) (\<lambda>p. Inr (t, w, p))))) (filter (\<lambda>r. map_of r ''measurement'' \<noteq> None) rows)"

text \<open>The checks of \<open>compare\<close>, and the first number it reports.\<close>

definition compare_checks :: "brow list \<Rightarrow> brow list \<Rightarrow> nat result" where
  "compare_checks rows1 rows2 =
     bindE (bench_read rows1) (\<lambda>earlier.
     bindE (bench_read rows2) (\<lambda>later.
     bindE (forE (\<lambda>k. bindE (dict_index (bench_config earlier) k) (\<lambda>a. bindE (dict_index (bench_config later) k) (\<lambda>b.
       require (a = b) ''configuration mismatch''))) compared_fields) (\<lambda>_.
     bindE (dict_index (bench_source earlier) ''benchmark_sha256'') (\<lambda>a.
     bindE (dict_index (bench_source later) ''benchmark_sha256'') (\<lambda>b.
     bindE (require (a = b) ''benchmark source mismatch'') (\<lambda>_.
     bindE (require (dict_eq (bench_proofs earlier) (bench_proofs later)) ''committed database digest or manifest reference mismatch'') (\<lambda>_.
     bindE (bench_trace rows1) (\<lambda>s.
     bindE (bench_trace rows2) (\<lambda>t.
     bindE (require (s = t) ''measurement phase history mismatch'') (\<lambda>_.
       Inr (length (bench_proofs earlier))))))))))))"

section \<open>The phase list\<close>

lemma range_from_done: "count \<le> i \<Longrightarrow> 0 < step \<Longrightarrow> range_from i count step = []"
  by (subst range_from.simps) simp

lemma range_from_step: "i < count \<Longrightarrow> 0 < step \<Longrightarrow> range_from i count step = i # range_from (i + step) count step"
  by (subst range_from.simps) simp

text \<open>A range of positive step: its length, and the sizes of the batches that start at its members.\<close>

lemma range_batches:
  assumes "0 < step"
  shows "i \<le> count + step - 1 \<Longrightarrow> int (length (range_from i count step)) = (count - i + step - 1) div step
    \<and> sum_list (map (\<lambda>off. min step (count - off)) (range_from i count step)) = max 0 (count - i)"
proof (induction "nat (count - i)" arbitrary: i rule: less_induct)
  case less
  show ?case
  proof (cases "i < count")
    case True
    have ih: "int (length (range_from (i + step) count step)) = (count - (i + step) + step - 1) div step
        \<and> sum_list (map (\<lambda>off. min step (count - off)) (range_from (i + step) count step)) = max 0 (count - (i + step))"
      using True assms by (intro less.hyps) auto
    have "(count - i + step - 1) div step = (count - (i + step) + step - 1) div step + 1"
      using assms div_add_self2 [of step "count - (i + step) + step - 1"] by (simp add: algebra_simps)
    then show ?thesis
      using ih True assms by (simp add: range_from_step)
  next
    case False
    then have "0 \<le> count - i + step - 1" "count - i + step - 1 < step"
      using less.prems by auto
    then have "(count - i + step - 1) div step = 0"
      by (rule div_pos_pos_trivial)
    then show ?thesis
      using False assms by (simp add: range_from_done)
  qed
qed

text \<open>The rows of one workload, as a list of blocks of four.\<close>

fun blocks :: "string \<Rightarrow> int \<Rightarrow> int \<Rightarrow> int list \<Rightarrow> int \<Rightarrow> phase_row list" where
  "blocks name count batch [] n = []"
| "blocks name count batch (off # offs) n =
     (let ops = min batch (count - off) in
      [phase_row ''stage'' name n ops, phase_row ''prepare'' name (n + 1) ops,
       phase_row ''commit'' name (n + 1) ops, phase_row ''cleanup'' name (n + 1) ops])
     @ blocks name count batch offs (n + 1)"

lemma fold_batch_phases:
  "fold (batch_phases name count batch) offs (ps, n) = (ps @ blocks name count batch offs n, n + int (length offs))"
  by (induction offs arbitrary: ps n) (simp_all add: batch_phases_def Let_def)

definition staged :: "phase_row \<Rightarrow> bool" where
  "staged p = (fst p = JStr ''stage'')"

definition committed :: "phase_row \<Rightarrow> bool" where
  "committed p = (fst p = JStr ''commit'')"

definition phase_ops :: "phase_row \<Rightarrow> int" where
  "phase_ops p = (case p of (_, _, _, ops) \<Rightarrow> projr (as_int ops))"

definition phase_advance :: "phase_row \<Rightarrow> json" where
  "phase_advance p = (case p of (_, _, n, _) \<Rightarrow> n)"

lemmas phase_simps = phase_row_def staged_def committed_def phase_ops_def phase_advance_def

lemma upto_snoc: "m \<le> n \<Longrightarrow> [m..n] = [m..n - 1] @ [n]"
  by (metis upto_rec2)

text \<open>What a list of phases has committed and staged so far: the invariant of the loops.\<close>

definition phases_upto :: "phase_row list \<Rightarrow> int \<Rightarrow> int \<Rightarrow> bool" where
  "phases_upto ps n amount \<longleftrightarrow> 0 \<le> n \<and> map phase_advance (filter committed ps) = map JInt [1..n]
     \<and> sum_list (map phase_ops (filter staged ps)) = amount \<and> length ps = 4 * nat n + 1"

lemma phases_upto_blocks:
  "phases_upto ps n amount \<Longrightarrow> phases_upto (ps @ blocks name count batch offs n) (n + int (length offs))
     (amount + sum_list (map (\<lambda>off. min batch (count - off)) offs))"
proof (induction offs arbitrary: ps n amount)
  case Nil
  then show ?case by simp
next
  case (Cons off offs)
  let ?ops = "min batch (count - off)"
  let ?four = "[phase_row ''stage'' name n ?ops, phase_row ''prepare'' name (n + 1) ?ops,
    phase_row ''commit'' name (n + 1) ?ops, phase_row ''cleanup'' name (n + 1) ?ops]"
  have "phases_upto (ps @ ?four) (n + 1) (amount + ?ops)"
    using Cons.prems upto_snoc [of 1 "n + 1"] by (simp add: phases_upto_def phase_simps nat_add_distrib)
  from Cons.IH [OF this] show ?case
    by (simp add: Let_def add.assoc)
qed

lemma phases_upto_workload:
  assumes "0 < batch" and "0 \<le> records" and "phases_upto ps n amount"
  shows "\<exists>ps'. workload_phases records batch name (ps, n) =
      (ps', n + ((if name = ''load'' then records else records div 4) + batch - 1) div batch)
    \<and> phases_upto ps' (n + ((if name = ''load'' then records else records div 4) + batch - 1) div batch)
        (amount + (if name = ''load'' then records else records div 4))"
proof -
  let ?c = "if name = ''load'' then records else records div 4"
  have c: "0 \<le> ?c" using assms(2) by (simp add: pos_imp_zdiv_nonneg_iff)
  then have r: "int (length (range_from 0 ?c batch)) = (?c + batch - 1) div batch"
    "sum_list (map (\<lambda>off. min batch (?c - off)) (range_from 0 ?c batch)) = ?c"
    using range_batches [OF assms(1), of 0 ?c] assms(1) by simp_all
  have "workload_phases records batch name (ps, n)
      = (ps @ blocks name ?c batch (range_from 0 ?c batch) n, n + (?c + batch - 1) div batch)"
    by (simp only: workload_phases_def Let_def fold_batch_phases r)
  then show ?thesis
    using phases_upto_blocks [OF assms(3), of name ?c batch "range_from 0 ?c batch"] unfolding r by blast
qed

lemma expected_phases_upto:
  assumes e: "expected_phases config = Inr ps" and f: "int_field config ''records'' = Inr records"
    "int_field config ''batch_rows'' = Inr batch" and pos: "0 < batch" "0 \<le> records"
  shows "map phase_advance (filter committed ps) = map JInt [1..advance_count records batch]
    \<and> sum_list (map phase_ops (filter staged ps)) = records + 4 * (records div 4)
    \<and> length ps = 4 * nat (advance_count records batch) + 8"
proof -
  let ?w = "workload_phases records batch" and ?q = "(records div 4 + batch - 1) div batch"
  have "phases_upto [phase_row ''open'' ''genesis'' 0 0] 0 0"
    by (simp add: phases_upto_def phase_simps)
  then obtain p1 where 1: "?w ''load'' ([phase_row ''open'' ''genesis'' 0 0], 0) = (p1, (records + batch - 1) div batch)"
    "phases_upto p1 ((records + batch - 1) div batch) records"
    using phases_upto_workload [OF pos, of _ 0 0 "''load''"] by auto
  let ?n = "(records + batch - 1) div batch"
  obtain p2 where 2: "?w ''update'' (p1, ?n) = (p2, ?n + ?q)" "phases_upto p2 (?n + ?q) (records + records div 4)"
    using phases_upto_workload [OF pos 1(2), of "''update''"] by auto
  obtain p3 where 3: "?w ''noop'' (p2, ?n + ?q) = (p3, ?n + ?q + ?q)"
    "phases_upto p3 (?n + ?q + ?q) (records + records div 4 + records div 4)"
    using phases_upto_workload [OF pos 2(2), of "''noop''"] by auto
  obtain p4 where 4: "?w ''delete'' (p3, ?n + ?q + ?q) = (p4, ?n + ?q + ?q + ?q)"
    "phases_upto p4 (?n + ?q + ?q + ?q) (records + records div 4 + records div 4 + records div 4)"
    using phases_upto_workload [OF pos 3(2), of "''delete''"] by auto
  obtain p5 where 5: "?w ''insert'' (p4, ?n + ?q + ?q + ?q) = (p5, ?n + ?q + ?q + ?q + ?q)"
    "phases_upto p5 (?n + ?q + ?q + ?q + ?q) (records + records div 4 + records div 4 + records div 4 + records div 4)"
    using phases_upto_workload [OF pos 4(2), of "''insert''"] by auto
  have n: "?n + ?q + ?q + ?q + ?q = advance_count records batch"
    by (simp add: advance_count_def)
  have fd: "fold ?w [''load'', ''update'', ''noop'', ''delete'', ''insert''] ([phase_row ''open'' ''genesis'' 0 0], 0)
      = (p5, advance_count records batch)"
    by (simp only: fold_simps 1(1) 2(1) 3(1) 4(1) 5(1) n)
  obtain samples where "ps = p5 @
      [phase_row ''get'' ''verify_formula'' (advance_count records batch) samples,
       phase_row ''close'' ''before_reopen'' (advance_count records batch) 0,
       phase_row ''reopen'' ''authenticated_warm_cache'' (advance_count records batch) 0,
       phase_row ''get_reopened'' ''verify_formula'' (advance_count records batch) samples,
       phase_row ''collect'' ''current_root'' (advance_count records batch) 0,
       phase_row ''get_after_collect'' ''verify_formula'' (advance_count records batch) samples,
       phase_row ''close'' ''final'' (advance_count records batch) 0]"
    using e pos(1) unfolding expected_phases_def f bindE.simps fd Let_def prod.case
    by (auto simp: bindE_Inr_iff)
  then show ?thesis
    using 5(2) unfolding n by (simp add: phases_upto_def phase_simps)
qed

section \<open>What an accepted file holds\<close>

text \<open>A commit row of a file and the entry it makes.\<close>

definition commit_entry :: "brow \<Rightarrow> proof_key \<Rightarrow> json \<times> json \<Rightarrow> bool" where
  "commit_entry row key p \<longleftrightarrow> (case key of (t, w, n) \<Rightarrow> map_of row ''trial'' = Some t \<and> map_of row ''merge_workers'' = Some w
     \<and> map_of row ''advance'' = Some n) \<and> map_of row ''digest'' = Some (fst p)
     \<and> map_of row ''reference_manifest_hash'' = Some (snd p)"

lemma commit_row_entry:
  assumes "commit_row row proofs = Inr proofs'"
  shows "\<exists>key p. commit_entry row key p \<and> map_of proofs key = None \<and> proofs' = proofs @ [(key, p)]"
proof -
  obtain t w n h r where f: "map_of row ''trial'' = Some t" "map_of row ''merge_workers'' = Some w"
    "map_of row ''advance'' = Some n" "map_of row ''digest'' = Some h" "map_of row ''reference_manifest_hash'' = Some r"
    and new: "map_of proofs (t, w, n) = None" and p: "proofs' = AList.update (t, w, n) (h, r) proofs"
    using assms by (auto simp: commit_row_def bindE_Inr_iff dict_index_Inr_iff)
  have "proofs' = proofs @ [((t, w, n), (h, r))]"
    using new p by (simp add: update_new_key map_of_eq_None_iff)
  then show ?thesis
    using f new by (intro exI [of _ "(t, w, n)"] exI [of _ "(h, r)"]) (simp add: commit_entry_def)
qed

text \<open>After the scan the proofs are the commit rows, one entry each.\<close>

lemma scan_rows_proofs:
  "scan_rows config rows (proofs, summaries) = Inr (proofs', summaries') \<Longrightarrow> dict_ok proofs \<Longrightarrow>
     dict_ok proofs' \<and> (\<exists>new. proofs' = proofs @ new
       \<and> list_all2 (\<lambda>row kp. commit_entry row (fst kp) (snd kp)) (filter (phase_is ''commit'') rows) new)"
proof (induction rows arbitrary: proofs summaries)
  case Nil
  then show ?case by simp
next
  case (Cons row rows)
  show ?case
  proof (cases "phase_is ''commit'' row")
    case True
    then obtain p1 where c: "commit_row row proofs = Inr p1" and s: "scan_rows config rows (p1, summaries) = Inr (proofs', summaries')"
      using Cons.prems(1) by (auto simp: bindE_Inr_iff)
    obtain key p where kp: "commit_entry row key p" "map_of proofs key = None" "p1 = proofs @ [(key, p)]"
      using commit_row_entry [OF c] by blast
    have "dict_ok p1"
      using kp Cons.prems(2) by (auto simp: dict_ok_def map_of_eq_None_iff)
    from Cons.IH [OF s this] show ?thesis
      using True kp by auto
  next
    case False
    then obtain s1 where "scan_rows config rows (proofs, s1) = Inr (proofs', summaries')"
      using Cons.prems(1) by (auto simp: bindE_Inr_iff split: if_splits)
    from Cons.IH [OF this Cons.prems(2)] False show ?thesis by simp
  qed
qed

lemma proof_keys_image: "proof_keys trials advances =
    (\<lambda>(t, w, n). (JInt t, JInt w, JInt n)) ` ({0..trials - 1} \<times> {1, 2} \<times> {1..advances})"
  by (auto simp: proof_keys_def image_iff)

lemma card_proof_keys: "card (proof_keys trials advances) = nat trials * 2 * nat advances"
proof -
  have "inj_on (\<lambda>(t, w, n). (JInt t, JInt w, JInt n)) ({0..trials - 1} \<times> {1, 2} \<times> {1..advances})"
    by (auto simp: inj_on_def)
  then show ?thesis
    unfolding proof_keys_image by (simp add: card_image card_cartesian_product)
qed

lemma check_config_Inr:
  assumes "check_config config = Inr u"
  obtains trials batch records where "int_field config ''trials'' = Inr trials" "0 < trials"
    "int_field config ''batch_rows'' = Inr batch" "0 < batch"
    "int_field config ''records'' = Inr records" "records mod 4 = 0"
  using assms by (auto simp: check_config_def bindE_Inr_iff split: if_splits)

lemma check_workers_Inr:
  "check_workers trials advances proofs = Inr u \<longleftrightarrow>
     (\<forall>t \<in> {0..trials - 1}. \<forall>n \<in> {1..advances}. \<exists>p. map_of proofs (JInt t, JInt 1, JInt n) = Some p
        \<and> map_of proofs (JInt t, JInt 2, JInt n) = Some p)"
  by (auto simp: check_workers_def forE_Inr_iff bindE_Inr_iff dict_index_Inr_iff)

text \<open>The contents of a file that \<open>read\<close> accepts.\<close>

definition complete_history :: "brow list \<Rightarrow> bench \<Rightarrow> bool" where
  "complete_history rows b \<longleftrightarrow> (\<exists>trials batch records.
     int_field (bench_config b) ''trials'' = Inr trials \<and> 0 < trials
     \<and> int_field (bench_config b) ''batch_rows'' = Inr batch \<and> 0 < batch
     \<and> int_field (bench_config b) ''records'' = Inr records \<and> records mod 4 = 0
     \<and> dict_ok (bench_proofs b)
     \<and> fst ` set (bench_proofs b) = proof_keys trials (advance_count records batch)
     \<and> list_all2 (\<lambda>row kp. commit_entry row (fst kp) (snd kp)) (filter (phase_is ''commit'') rows) (bench_proofs b)
     \<and> length (bench_proofs b) = nat trials * 2 * nat (advance_count records batch)
     \<and> (\<forall>t \<in> {0..trials - 1}. \<forall>n \<in> {1..advance_count records batch}. \<exists>p.
          map_of (bench_proofs b) (JInt t, JInt 1, JInt n) = Some p
          \<and> map_of (bench_proofs b) (JInt t, JInt 2, JInt n) = Some p)
     \<and> (\<forall>t \<in> {0..trials - 1}. \<forall>w \<in> {1, 2}. \<exists>phases expected.
          measured (JInt t, JInt w) rows = Inr phases \<and> expected_phases (bench_config b) = Inr expected
          \<and> mapE phase_of phases = Inr expected))"

lemma bench_read_rows: "bench_read rows = Inr b \<Longrightarrow> bench_rows b = rows"
  by (auto simp: bench_read_def Let_def bindE_Inr_iff)

lemma bench_read_complete:
  assumes "bench_read rows = Inr b"
  shows "complete_history rows b"
proof -
  let ?config = "bench_config b" and ?proofs = "bench_proofs b"
  obtain summaries batch count trials u v w where cfg: "check_config ?config = Inr u"
    and scan: "scan_rows ?config rows ([], []) = Inr (?proofs, summaries)"
    and f: "int_field ?config ''batch_rows'' = Inr batch" "int_field ?config ''records'' = Inr count"
      "int_field ?config ''trials'' = Inr trials"
    and keys: "fst ` set summaries = worker_keys trials" "fst ` set ?proofs = proof_keys trials (advance_count count batch)"
    and workers: "check_workers trials (advance_count count batch) ?proofs = Inr v"
    and sums: "forE (check_summary ?config rows (advance_count count batch) ?proofs) summaries = Inr w"
    using assms by (auto simp: bench_read_def Let_def bindE_Inr_iff)
  have pos: "0 < trials" "0 < batch" "count mod 4 = 0"
    using check_config_Inr [OF cfg] f by (metis sum.inject(2))+
  have p: "dict_ok ?proofs"
    "list_all2 (\<lambda>row kp. commit_entry row (fst kp) (snd kp)) (filter (phase_is ''commit'') rows) ?proofs"
    using scan_rows_proofs [OF scan] by auto
  have "length ?proofs = card (fst ` set ?proofs)"
    using p(1) by (metis dict_ok_def distinct_card length_map set_map)
  then have len: "length ?proofs = nat trials * 2 * nat (advance_count count batch)"
    unfolding keys(2) card_proof_keys .
  have m: "\<exists>phases expected. measured (JInt t, JInt k) rows = Inr phases \<and> expected_phases ?config = Inr expected
      \<and> mapE phase_of phases = Inr expected" if t: "t \<in> {0..trials - 1}" "k \<in> {1, 2}" for t k
  proof -
    have "(JInt t, JInt k) \<in> fst ` set summaries"
      unfolding keys(1) worker_keys_def using t by auto
    then obtain s where "((JInt t, JInt k), s) \<in> set summaries" by force
    then have "check_summary ?config rows (advance_count count batch) ?proofs ((JInt t, JInt k), s) = Inr ()"
      using sums by (simp add: forE_Inr_iff)
    then show ?thesis
      by (auto simp: check_summary_def bindE_Inr_iff)
  qed
  then show ?thesis
    unfolding complete_history_def
    by (intro exI [of _ trials] exI [of _ batch] exI [of _ count] conjI ballI f pos p keys(2) len m
        workers [unfolded check_workers_Inr, rule_format])
qed

section \<open>A small complete file\<close>

text \<open>
  One trial of four records in one batch, so five advances; two files like it are compared in
  the witnesses.
\<close>

definition demo_config :: brow where
  "demo_config = [(''phase'', JStr ''configuration''), (''format'', JStr ''bucketlist-disk-bench-v1''),
     (''zig'', JStr ''z''), (''optimize'', JStr ''fast''), (''cpu'', JStr ''c''), (''os'', JStr ''o''),
     (''mib'', JInt 1), (''records'', JInt 4), (''value_bytes'', JInt 262144), (''batch_rows'', JInt 4),
     (''read_samples_per_phase'', JInt 2), (''trials'', JInt 1)]"

definition demo_row :: "int \<Rightarrow> phase_row \<Rightarrow> brow" where
  "demo_row w x = (case x of (p, l, n, ops) \<Rightarrow>
     [(''phase'', p), (''trial'', JInt 0), (''merge_workers'', JInt w), (''workload'', l),
      (''advance'', n), (''operations'', ops), (''digest'', n), (''reference_manifest_hash'', n),
      (''measurement'', JObj [(''elapsed_ns'', JInt 1), (''peak_allocation_bytes'', JInt 1),
         (''positional_read_bytes'', JInt 1)])])"

definition demo_summary :: "int \<Rightarrow> brow" where
  "demo_summary w = [(''phase'', JStr ''summary''), (''trial'', JInt 0), (''merge_workers'', JInt w),
     (''live_allocation_bytes'', JInt 0), (''logical_bytes'', JInt 1048576), (''records'', JInt 4),
     (''all_advance_digests_and_references_match'', JInt 1), (''advance'', JInt 5), (''digest'', JInt 5),
     (''reference_manifest_hash'', JInt 5), (''measured_elapsed_ns'', JInt 28),
     (''positional_read_bytes'', JInt 28), (''peak_allocation_bytes'', JInt 1)]"

definition demo_file :: "brow list" where
  "demo_file = demo_config # map (demo_row 1) (projr (expected_phases demo_config))
     @ map (demo_row 2) (projr (expected_phases demo_config))
     @ [demo_summary 1, demo_summary 2,
        [(''phase'', JStr ''provenance''), (''optimize'', JStr ''ReleaseFast''), (''benchmark_sha256'', JStr ''b'')]]"

lemma compare_checks_same:
  assumes "bench_read rows = Inr b" and "bench_trace rows = Inr s"
    and "list_all (\<lambda>k. map_of (bench_config b) k \<noteq> None) compared_fields"
    and "map_of (bench_source b) ''benchmark_sha256'' \<noteq> None"
    and "dict_eq (bench_proofs b) (bench_proofs b)"
  shows "compare_checks rows rows = Inr (length (bench_proofs b))"
proof -
  have "forE (\<lambda>k. bindE (dict_index (bench_config b) k) (\<lambda>x. bindE (dict_index (bench_config b) k) (\<lambda>y.
      require (x = y) ''configuration mismatch''))) compared_fields = Inr ()"
    using assms(3) by (auto simp: forE_Inr_iff bindE_Inr_iff dict_index_Inr_iff list_all_iff)
  moreover obtain h where "dict_index (bench_source b) ''benchmark_sha256'' = Inr h"
    using assms(4) by (auto simp: dict_index_Inr_iff)
  ultimately show ?thesis
    using assms(1,2,5) by (simp add: compare_checks_def require_def)
qed

text \<open>One evaluation of the reader on the demonstration file carries the witnesses.\<close>

lemma demo_read:
  "case bench_read demo_file of Inl e \<Rightarrow> False
   | Inr b \<Rightarrow> length (bench_proofs b) = 10 \<and> list_all (\<lambda>k. map_of (bench_config b) k \<noteq> None) compared_fields
       \<and> map_of (bench_source b) ''benchmark_sha256'' \<noteq> None \<and> dict_eq (bench_proofs b) (bench_proofs b)
       \<and> \<not> isl (bench_trace demo_file)
       \<and> bench_summaries b = [((JInt 0, JInt 1), demo_summary 1), ((JInt 0, JInt 2), demo_summary 2)]
       \<and> bench_config b = demo_config"
  by code_simp

lemma demo_bench:
  "\<exists>b s. bench_read demo_file = Inr b \<and> bench_trace demo_file = Inr s \<and> length (bench_proofs b) = 10
     \<and> bench_summaries b = [((JInt 0, JInt 1), demo_summary 1), ((JInt 0, JInt 2), demo_summary 2)]
     \<and> bench_config b = demo_config \<and> compare_checks demo_file demo_file = Inr (length (bench_proofs b))"
proof -
  obtain b where b: "bench_read demo_file = Inr b"
    using demo_read by (cases "bench_read demo_file") simp_all
  note read = demo_read [unfolded b sum.case]
  obtain s where s: "bench_trace demo_file = Inr s"
    using read by (cases "bench_trace demo_file") simp_all
  have "compare_checks demo_file demo_file = Inr (length (bench_proofs b))"
    using read by (intro compare_checks_same [OF b s]) blast+
  then show ?thesis
    using b s read by blast
qed

lemma demo_compare: "compare_checks demo_file demo_file = Inr 10"
  using demo_bench by (elim exE conjE) simp

lemma demo_fields:
  "int_field demo_config ''records'' = Inr 4" "int_field demo_config ''batch_rows'' = Inr 4"
  "int_field demo_config ''trials'' = Inr 1" "int_field demo_config ''read_samples_per_phase'' = Inr 2"
  by (simp_all add: int_field_def demo_config_def dict_index_def)

lemma compare_checks_Inr:
  assumes "compare_checks rows1 rows2 = Inr k"
  shows "\<exists>a b. bench_read rows1 = Inr a \<and> bench_read rows2 = Inr b
    \<and> (\<forall>f \<in> set compared_fields. map_of (bench_config a) f = map_of (bench_config b) f)
    \<and> map_of (bench_proofs a) = map_of (bench_proofs b) \<and> k = length (bench_proofs a)"
proof -
  obtain a b u where ab: "bench_read rows1 = Inr a" "bench_read rows2 = Inr b"
    and fields: "forE (\<lambda>k. bindE (dict_index (bench_config a) k) (\<lambda>x. bindE (dict_index (bench_config b) k) (\<lambda>y.
       require (x = y) ''configuration mismatch''))) compared_fields = Inr u"
    and eq: "dict_eq (bench_proofs a) (bench_proofs b)" and k: "k = length (bench_proofs a)"
    using assms by (auto simp: compare_checks_def bindE_Inr_iff)
  have "dict_ok (bench_proofs a)" "dict_ok (bench_proofs b)"
    using bench_read_complete [OF ab(1)] bench_read_complete [OF ab(2)] unfolding complete_history_def by blast+
  then have "map_of (bench_proofs a) = map_of (bench_proofs b)"
    using eq by (simp add: dict_eq_map_of)
  moreover have "\<forall>f \<in> set compared_fields. map_of (bench_config a) f = map_of (bench_config b) f"
    using fields unfolding forE_Inr_iff by (auto simp: bindE_Inr_iff dict_index_Inr_iff)
  ultimately show ?thesis
    using ab k by blast
qed

section \<open>Properties of the comparison\<close>

text \<open>
  The two ways the tool counts advances agree: the phase list \<open>expected_phases\<close> demands commits
  exactly the advances 1 to the number \<open>read\<close> computes from the configuration, stages every record
  of every workload once, and has four rows per advance and eight others.
\<close>

theorem expected_phases_advances:
  assumes "expected_phases config = Inr ps" and "int_field config ''records'' = Inr records"
    and "int_field config ''batch_rows'' = Inr batch" and "0 < batch" and "0 \<le> records"
  shows "map phase_advance (filter committed ps) = map JInt [1..advance_count records batch]
    \<and> sum_list (map phase_ops (filter staged ps)) = records + 4 * (records div 4)
    \<and> length ps = 4 * nat (advance_count records batch) + 8"
  by (rule expected_phases_upto [OF assms])

theorem expected_phases_advances_witness:
  "\<exists>ps. expected_phases demo_config = Inr ps \<and> length ps = 28
    \<and> sum_list (map phase_ops (filter staged ps)) = 8"
proof -
  obtain ps where ps: "expected_phases demo_config = Inr ps"
    using demo_fields by (simp add: expected_phases_def Let_def case_prod_unfold)
  from expected_phases_advances [OF ps demo_fields(1,2)] ps show ?thesis
    by (simp add: advance_count_def)
qed

text \<open>
  C22: A file that \<open>read\<close> accepts is a complete history: it has exactly one commit row per trial,
  worker count and advance, both worker counts committed the same digest and reference at every
  advance, and the measured phases of every trial and worker count are the expected ones.
\<close>

theorem bench_read_history:
  assumes "bench_read rows = Inr b"
  shows "bench_rows b = rows \<and> complete_history rows b"
  using bench_read_rows [OF assms] bench_read_complete [OF assms] by blast

theorem bench_read_history_witness:
  "\<exists>b. bench_read demo_file = Inr b \<and> complete_history demo_file b"
proof -
  obtain b where "bench_read demo_file = Inr b"
    using compare_checks_Inr [OF demo_compare] by blast
  then show ?thesis
    using bench_read_history by blast
qed

text \<open>
  Two files that compare have the same configuration and the same committed digest and
  reference at every trial, worker count and advance; the number reported counts them.
\<close>

theorem compare_identical:
  assumes "compare_checks rows1 rows2 = Inr k"
  shows "\<exists>a b. bench_read rows1 = Inr a \<and> bench_read rows2 = Inr b
    \<and> (\<forall>f \<in> set compared_fields. map_of (bench_config a) f = map_of (bench_config b) f)
    \<and> map_of (bench_proofs a) = map_of (bench_proofs b) \<and> k = length (bench_proofs a)"
  by (rule compare_checks_Inr [OF assms])

theorem compare_identical_witness:
  "\<exists>a. bench_read demo_file = Inr a \<and> length (bench_proofs a) = 10"
  using compare_identical [OF demo_compare] by auto

end
