(* ===== verification/Py_Float.thy ===== *)
theory Py_Float
  imports Prelude Complex_Main "HOL-Library.Log_Nat" "HOL-Library.Multiset"
begin

text \<open>
  Python numbers as \<open>statistics.median\<close> and \<open>/\<close> produce them: integers and binary64 values. A finite
  value that is not zero is the rational it stands for; zeros and infinities carry their sign.
  Division rounds the exact quotient to nearest, ties to even, with gradual underflow. The lemmas
  show that the rounding finds a closest representable value, that it is exact on representable
  ones, and what a median of integers is.
\<close>

section \<open>Rounding\<close>

definition round_half_even :: "rat \<Rightarrow> int" where
  "round_half_even q = (let f = \<lfloor>q\<rfloor>; r = q - of_int f in
     if r < 1 / 2 then f else if 1 / 2 < r then f + 1 else if even f then f else f + 1)"

definition pow2 :: "int \<Rightarrow> rat" where
  "pow2 k = (if 0 \<le> k then 2 ^ nat k else 1 / 2 ^ nat (- k))"

text \<open>The exponent of the leading bit of a positive number.\<close>

definition leading :: "rat \<Rightarrow> int" where
  "leading q = (case quotient_of q of (n, d) \<Rightarrow> let e = bitlen n - bitlen d in if pow2 e \<le> q then e else e - 1)"

text \<open>Binary64: 53 bits of precision, least exponent -1074, values below \<open>2 ^ 1024\<close>.\<close>

definition last_place :: "rat \<Rightarrow> int" where
  "last_place q = max (leading q - 52) (- 1074)"

definition round_double :: "rat \<Rightarrow> rat" where
  "round_double q = of_int (round_half_even (q / pow2 (last_place q))) * pow2 (last_place q)"

definition double_limit :: rat where
  "double_limit = 2 ^ 1024"

lemma double_limit_pos [simp]: "0 < double_limit"
  by (simp add: double_limit_def)

section \<open>Numbers\<close>

datatype binary64 = FZero bool | FNum rat | FInf bool | FNan

datatype num_value = NInt int | NFloat binary64

definition signed_value :: "bool \<Rightarrow> rat \<Rightarrow> rat" where
  "signed_value negative q = (if negative then - q else q)"

text \<open>\<open>int / int\<close> and \<open>float(int)\<close>: correctly rounded, with \<open>OverflowError\<close>.\<close>

definition int_quotient :: "int \<Rightarrow> int \<Rightarrow> binary64 result" where
  "int_quotient a b =
     (if b = 0 then Inl ZeroDivisionError
      else let negative = (a < 0) \<noteq> (b < 0) in
      if a = 0 then Inr (FZero negative)
      else let v = round_double (of_int \<bar>a\<bar> / of_int \<bar>b\<bar>) in
      if v = 0 then Inr (FZero negative)
      else if double_limit \<le> v then Inl OverflowError
      else Inr (FNum (signed_value negative v)))"

definition to_float :: "num_value \<Rightarrow> binary64 result" where
  "to_float x = (case x of NInt a \<Rightarrow> int_quotient a 1 | NFloat f \<Rightarrow> Inr f)"

fun negative_float :: "binary64 \<Rightarrow> bool" where
  "negative_float (FZero s) = s"
| "negative_float (FNum q) = (q < 0)"
| "negative_float (FInf s) = s"
| "negative_float FNan = False"

fun float_quotient :: "binary64 \<Rightarrow> binary64 \<Rightarrow> binary64 result" where
  "float_quotient x (FZero s) = Inl ZeroDivisionError"
| "float_quotient FNan y = Inr FNan"
| "float_quotient x FNan = Inr FNan"
| "float_quotient (FInf s) (FInf t) = Inr FNan"
| "float_quotient (FInf s) y = Inr (FInf (s \<noteq> negative_float y))"
| "float_quotient x (FInf t) = Inr (FZero (negative_float x \<noteq> t))"
| "float_quotient (FZero s) y = Inr (FZero (s \<noteq> negative_float y))"
| "float_quotient (FNum a) (FNum b) =
     (let negative = (a < 0) \<noteq> (b < 0); v = round_double (\<bar>a\<bar> / \<bar>b\<bar>) in
      Inr (if v = 0 then FZero negative else if double_limit \<le> v then FInf negative else FNum (signed_value negative v)))"

definition true_div :: "num_value \<Rightarrow> num_value \<Rightarrow> num_value result" where
  "true_div x y = (case (x, y) of
       (NInt a, NInt b) \<Rightarrow> bindE (int_quotient a b) (\<lambda>v. Inr (NFloat v))
     | _ \<Rightarrow> bindE (to_float x) (\<lambda>a. bindE (to_float y) (\<lambda>b. bindE (float_quotient a b) (\<lambda>v. Inr (NFloat v)))))"

fun num_truthy :: "num_value \<Rightarrow> bool" where
  "num_truthy (NInt n) = (n \<noteq> 0)"
| "num_truthy (NFloat (FZero s)) = False"
| "num_truthy (NFloat _) = True"

text \<open>\<open>statistics.median\<close> of integers; \<open>StatisticsError\<close> is a \<open>ValueError\<close>.\<close>

definition median :: "int list \<Rightarrow> num_value result" where
  "median data = (let xs = sort data; n = length xs in
     if n = 0 then Inl (ValueError ''no median for empty data'')
     else if odd n then Inr (NInt (xs ! (n div 2)))
     else bindE (int_quotient (xs ! (n div 2 - 1) + xs ! (n div 2)) 2) (\<lambda>v. Inr (NFloat v)))"

section \<open>Rounding is to nearest\<close>

lemma round_half_even_error:
  "\<bar>of_int (round_half_even q) - q\<bar> = min (q - of_int \<lfloor>q\<rfloor>) (of_int \<lfloor>q\<rfloor> + 1 - q)"
proof -
  have "of_int \<lfloor>q\<rfloor> \<le> q" "q < of_int \<lfloor>q\<rfloor> + 1"
    by linarith+
  moreover have "(of_int (round_half_even q) :: rat) = of_int \<lfloor>q\<rfloor> \<and> q - of_int \<lfloor>q\<rfloor> \<le> 1 / 2
      \<or> (of_int (round_half_even q) :: rat) = of_int \<lfloor>q\<rfloor> + 1 \<and> 1 / 2 \<le> q - of_int \<lfloor>q\<rfloor>"
    by (auto simp: round_half_even_def Let_def)
  ultimately show ?thesis
    by linarith
qed

lemma round_half_even_closest: "\<bar>of_int (round_half_even q) - q\<bar> \<le> \<bar>of_int n - q\<bar>"
proof -
  have "n \<le> \<lfloor>q\<rfloor> \<or> \<lfloor>q\<rfloor> + 1 \<le> n" by linarith
  then have "(of_int n :: rat) \<le> of_int \<lfloor>q\<rfloor> \<or> of_int \<lfloor>q\<rfloor> + 1 \<le> (of_int n :: rat)"
    by (metis of_int_le_iff of_int_add of_int_1)
  moreover have "of_int \<lfloor>q\<rfloor> \<le> q" "q < of_int \<lfloor>q\<rfloor> + 1"
    by linarith+
  ultimately show ?thesis
    unfolding round_half_even_error by linarith
qed

lemma round_half_even_int [simp]: "round_half_even (of_int n) = n"
  by (simp add: round_half_even_def)

lemma round_half_even_half: "\<bar>of_int (round_half_even q) - q\<bar> \<le> 1 / 2"
  unfolding round_half_even_error by linarith

lemma pow2_pos [simp]: "0 < pow2 k"
  by (simp add: pow2_def)

lemma pow2_nonneg [simp]: "0 \<le> pow2 k" "pow2 k \<noteq> 0" "\<bar>pow2 k\<bar> = pow2 k"
  using pow2_pos [of k] by linarith+

lemma pow2_add: "pow2 (a + b) = pow2 a * pow2 b"
proof -
  have "pow2 k = 2 powi k" for k
    by (simp add: pow2_def power_int_def field_simps)
  then show ?thesis by (simp add: power_int_add)
qed

lemma pow2_Suc: "pow2 (k + 1) = 2 * pow2 k"
  by (simp add: pow2_add) (simp add: pow2_def)

lemma pow2_mono: "a \<le> b \<Longrightarrow> pow2 a \<le> pow2 b"
proof -
  have "1 \<le> pow2 (b - a)" if "a \<le> b"
    using that by (simp add: pow2_def)
  moreover have "pow2 b = pow2 a * pow2 (b - a)"
    by (simp flip: pow2_add)
  ultimately show "a \<le> b \<Longrightarrow> pow2 a \<le> pow2 b"
    using mult_left_mono [of 1 "pow2 (b - a)" "pow2 a"] pow2_pos [of a] by simp
qed

lemma leading_bounds:
  assumes "0 < q"
  shows "pow2 (leading q) \<le> q \<and> q < pow2 (leading q + 1)"
proof -
  obtain n d where nd: "quotient_of q = (n, d)" by fastforce
  have d: "0 < d" and q: "q = of_int n / of_int d"
    using quotient_of_denom_pos [OF nd] quotient_of_div [OF nd] by auto
  have n: "0 < n"
    using assms d unfolding q by (simp add: zero_less_divide_iff)
  have bits: "pow2 (bitlen m - 1) \<le> of_int m \<and> of_int m < pow2 (bitlen m)" if "0 < m" for m
  proof -
    have "2 ^ nat (bitlen m - 1) \<le> m" "m < 2 ^ nat (bitlen m)"
      using bitlen_bounds [OF that] by auto
    then have "(2 :: rat) ^ nat (bitlen m - 1) \<le> of_int m" "of_int m < (2 :: rat) ^ nat (bitlen m)"
      by (metis of_int_le_iff of_int_power of_int_numeral, metis of_int_less_iff of_int_power of_int_numeral)
    moreover have "1 \<le> bitlen m"
      using that by (auto simp: bitlen_alt_def)
    ultimately show ?thesis by (simp add: pow2_def)
  qed
  let ?e = "bitlen n - bitlen d"
  have "pow2 (?e - 1) * of_int d < of_int n"
  proof -
    have "pow2 (?e - 1) * of_int d < pow2 (?e - 1) * pow2 (bitlen d)"
      using bits [OF d] by (intro mult_strict_left_mono) simp_all
    also have "\<dots> = pow2 (bitlen n - 1)"
      by (simp flip: pow2_add)
    finally show ?thesis using bits [OF n] by linarith
  qed
  moreover have "of_int n < pow2 (?e + 1) * of_int d"
  proof -
    have "of_int n < pow2 (?e + 1) * pow2 (bitlen d - 1)"
      using bits [OF n] by (simp flip: pow2_add)
    also have "\<dots> \<le> pow2 (?e + 1) * of_int d"
      using bits [OF d] by (intro mult_left_mono) simp_all
    finally show ?thesis .
  qed
  ultimately have "pow2 (?e - 1) < q" "q < pow2 (?e + 1)"
    using d by (simp_all add: q pos_less_divide_eq pos_divide_less_eq)
  then show ?thesis
    using nd by (auto simp: leading_def Let_def)
qed

text \<open>The binary64 numbers that are finite and not negative.\<close>

definition representable :: "rat \<Rightarrow> bool" where
  "representable v \<longleftrightarrow> (\<exists>m j. 0 \<le> m \<and> m \<le> 2 ^ 53 \<and> - 1074 \<le> j \<and> v = of_int m * pow2 j)"

lemma round_double_multiple:
  "\<bar>round_double q - q\<bar> \<le> \<bar>of_int n * pow2 (last_place q) - q\<bar>"
proof -
  let ?p = "pow2 (last_place q)"
  have "\<bar>of_int k * ?p - q\<bar> = \<bar>of_int k - q / ?p\<bar> * ?p" for k
  proof -
    have "of_int k * ?p - q = (of_int k - q / ?p) * ?p"
      by (simp add: field_simps)
    then show ?thesis by (simp add: abs_mult)
  qed
  then show ?thesis
    unfolding round_double_def using round_half_even_closest [of "q / ?p" n]
    by (simp add: mult_right_mono)
qed

lemma pow2_split: "a \<le> b \<Longrightarrow> pow2 b = of_int (2 ^ nat (b - a)) * pow2 a"
  using pow2_add [of "b - a" a] by (simp add: pow2_def)

lemma round_double_closest:
  assumes "0 < q" and "representable v"
  shows "\<bar>round_double q - q\<bar> \<le> \<bar>v - q\<bar>"
proof -
  let ?k = "last_place q"
  obtain m j where v: "v = of_int m * pow2 j" "0 \<le> m" "m \<le> 2 ^ 53" "- 1074 \<le> j"
    using assms(2) by (auto simp: representable_def)
  show ?thesis
  proof (cases "?k \<le> j")
    case True
    then have "v = of_int (m * 2 ^ nat (j - ?k)) * pow2 ?k"
      by (simp add: v(1) pow2_split)
    then show ?thesis
      using round_double_multiple by metis
  next
    case False
    then have k: "?k = leading q - 52"
      using v(4) by (simp add: last_place_def)
    have "v \<le> of_int (2 ^ 53) * pow2 j"
      unfolding v(1) using v(3) by (intro mult_right_mono) (simp_all only: of_int_le_iff, simp)
    also have "\<dots> = pow2 (j + 53)"
      by (simp add: pow2_add) (simp add: pow2_def)
    also have "\<dots> \<le> pow2 (leading q)"
      using False k by (intro pow2_mono) simp
    finally have "v \<le> pow2 (leading q)" .
    moreover have "pow2 (leading q) = of_int (2 ^ 52) * pow2 ?k"
      using pow2_split [of ?k "leading q"] k by simp
    moreover have "pow2 (leading q) \<le> q"
      using leading_bounds [OF assms(1)] by simp
    ultimately show ?thesis
      using round_double_multiple [of q "2 ^ 52"] by linarith
  qed
qed

lemma round_double_exact: "representable v \<Longrightarrow> 0 < v \<Longrightarrow> round_double v = v"
  using round_double_closest [of v v] by simp

text \<open>What rounding finds is itself representable, with the last place as the bound of the error.\<close>

lemma round_double_error: "\<bar>round_double q - q\<bar> \<le> pow2 (last_place q) / 2"
proof -
  let ?p = "pow2 (last_place q)"
  have "round_double q - q = (of_int (round_half_even (q / ?p)) - q / ?p) * ?p"
    by (simp add: round_double_def field_simps)
  then have "\<bar>round_double q - q\<bar> = \<bar>of_int (round_half_even (q / ?p)) - q / ?p\<bar> * ?p"
    by (simp add: abs_mult)
  also have "\<dots> \<le> 1 / 2 * ?p"
    by (rule mult_right_mono [OF round_half_even_half]) simp
  finally show ?thesis by simp
qed

lemma round_half_even_bounds: "of_int a \<le> q \<Longrightarrow> a \<le> round_half_even q" "q \<le> of_int b \<Longrightarrow> round_half_even q \<le> b"
proof -
  have q: "of_int \<lfloor>q\<rfloor> \<le> q" "q < of_int \<lfloor>q\<rfloor> + 1"
    by linarith+
  have r: "\<lfloor>q\<rfloor> \<le> round_half_even q" "round_half_even q \<le> \<lfloor>q\<rfloor> + 1"
    by (auto simp: round_half_even_def Let_def)
  show "a \<le> round_half_even q" if "of_int a \<le> q"
    using that r(1) le_floor_iff [of a q] by linarith
  show "round_half_even q \<le> b" if "q \<le> of_int b"
  proof (cases "q = of_int b")
    case False
    then have "\<lfloor>q\<rfloor> < b" using that by (simp add: floor_less_iff)
    then show ?thesis using r(2) by linarith
  qed simp
qed

lemma round_double_representable:
  assumes "0 < q"
  shows "representable (round_double q)"
proof -
  let ?k = "last_place q"
  have "q < pow2 (leading q + 1)"
    using leading_bounds [OF assms] by simp
  also have "\<dots> \<le> pow2 (53 + ?k)"
    by (rule pow2_mono) (simp add: last_place_def)
  finally have "q / pow2 ?k \<le> of_int (2 ^ 53)"
    by (simp add: pow2_add field_simps) (simp add: pow2_def)
  then have "round_half_even (q / pow2 ?k) \<le> 2 ^ 53"
    by (rule round_half_even_bounds)
  moreover have "0 \<le> round_half_even (q / pow2 ?k)"
    using assms by (intro round_half_even_bounds) simp
  ultimately show ?thesis
    unfolding representable_def round_double_def by (intro exI [of _ "round_half_even (q / pow2 ?k)"] exI [of _ ?k]) (simp add: last_place_def)
qed

section \<open>Division and medians\<close>

text \<open>The rational a number stands for; a number that has one is finite.\<close>

fun exact_value :: "num_value \<Rightarrow> rat option" where
  "exact_value (NInt n) = Some (of_int n)"
| "exact_value (NFloat (FZero s)) = Some 0"
| "exact_value (NFloat (FNum q)) = Some q"
| "exact_value (NFloat _) = None"

text \<open>A number that \<open>float\<close> holds: a representable magnitude below the overflow threshold.\<close>

definition double_value :: "rat \<Rightarrow> bool" where
  "double_value v \<longleftrightarrow> representable \<bar>v\<bar> \<and> \<bar>v\<bar> < double_limit"

text \<open>The double \<open>r\<close> is one of those nearest to \<open>q\<close>.\<close>

definition nearest_double :: "rat \<Rightarrow> rat \<Rightarrow> bool" where
  "nearest_double r q \<longleftrightarrow> double_value r \<and> (\<forall>v. double_value v \<longrightarrow> \<bar>r - q\<bar> \<le> \<bar>v - q\<bar>)"

lemma representable_zero [simp]: "representable 0"
  unfolding representable_def by (intro exI [of _ 0]) simp

lemma nearest_signed:
  assumes "0 < q" and "round_double q < double_limit"
  shows "nearest_double (signed_value s (round_double q)) (signed_value s q)"
proof -
  have r: "representable (round_double q)"
    by (rule round_double_representable [OF assms(1)])
  then have pos: "0 \<le> round_double q"
    by (auto simp: representable_def)
  have "\<bar>signed_value s (round_double q) - signed_value s q\<bar> \<le> \<bar>v - signed_value s q\<bar>" if "double_value v" for v
  proof -
    have "\<bar>round_double q - q\<bar> \<le> \<bar>\<bar>v\<bar> - q\<bar>"
      using that assms(1) by (intro round_double_closest) (simp_all add: double_value_def)
    also have "\<dots> \<le> \<bar>v - signed_value s q\<bar>"
      using assms(1) by (auto simp: signed_value_def)
    finally show ?thesis
      by (auto simp: signed_value_def)
  qed
  then show ?thesis
    using r pos assms(2) by (simp add: nearest_double_def double_value_def signed_value_def)
qed

lemma nearest_zero: "nearest_double 0 0"
  by (simp add: nearest_double_def double_value_def)

lemma signed_abs: "a \<noteq> 0 \<Longrightarrow> b \<noteq> 0 \<Longrightarrow> signed_value ((a < 0) \<noteq> (b < 0)) (\<bar>a\<bar> / \<bar>b\<bar>) = a / b"
  by (auto simp: signed_value_def abs_if)

lemma signed_zero [simp]: "signed_value s 0 = 0"
  by (simp add: signed_value_def)

lemma int_quotient_nearest:
  assumes "int_quotient a b = Inr f"
  shows "\<exists>r. exact_value (NFloat f) = Some r \<and> nearest_double r (of_int a / of_int b)"
proof (cases "a = 0")
  case True
  then show ?thesis
    using assms nearest_zero by (auto simp: int_quotient_def Let_def split: if_splits)
next
  case False
  let ?q = "of_int \<bar>a\<bar> / of_int \<bar>b\<bar> :: rat" and ?s = "(a < 0) \<noteq> (b < 0)"
  have b: "b \<noteq> 0" and v: "round_double ?q < double_limit"
    and f: "f = (if round_double ?q = 0 then FZero ?s else FNum (signed_value ?s (round_double ?q)))"
    using assms False by (auto simp: int_quotient_def Let_def split: if_splits)
  have "nearest_double (signed_value ?s (round_double ?q)) (signed_value ?s ?q)"
    using False b by (intro nearest_signed v) simp
  moreover have "signed_value ?s ?q = of_int a / of_int b"
    using signed_abs [of "of_int a :: rat" "of_int b"] False b by simp
  ultimately show ?thesis
    by (auto simp: f)
qed

lemma float_quotient_nearest:
  assumes "exact_value (NFloat x) = Some a" and "exact_value (NFloat y) = Some b" and "b \<noteq> 0"
    and "float_quotient x y = Inr f" and "exact_value (NFloat f) = Some r"
  shows "nearest_double r (a / b)"
proof -
  have y: "y = FNum b"
    using assms(2,3) by (cases y) auto
  show ?thesis
  proof (cases x)
    case (FZero s)
    then show ?thesis
      using assms(1,4,5) by (auto simp: y nearest_zero)
  next
    case (FNum q)
    let ?v = "round_double (\<bar>a\<bar> / \<bar>b\<bar>)" and ?s = "(a < 0) \<noteq> (b < 0)"
    have q: "q = a" using FNum assms(1) by simp
    show ?thesis
    proof (cases "a = 0")
      case True
      then have "?v = 0" using round_half_even_int [of 0] by (simp add: round_double_def)
      then show ?thesis
        using assms(4,5) by (auto simp: y FNum q True Let_def nearest_zero)
    next
      case False
      have f: "f = (if ?v = 0 then FZero ?s else if double_limit \<le> ?v then FInf ?s else FNum (signed_value ?s ?v))"
        using assms(4) unfolding y FNum q float_quotient.simps Let_def sum.inject by (rule sym)
      then have "?v < double_limit" "r = signed_value ?s ?v"
        using assms(5) by (auto split: if_splits)
      then show ?thesis
        using nearest_signed [of "\<bar>a\<bar> / \<bar>b\<bar>" ?s] signed_abs [of a b] False assms(3) by simp
    qed
  qed (use assms(1) in auto)
qed

text \<open>The median does not depend on the order of the data, and is one integer or one double.\<close>

lemma median_perm: "mset xs = mset ys \<Longrightarrow> median xs = median ys"
proof -
  assume m: "mset xs = mset ys"
  then have "sort xs = sort ys"
    by (metis mset_sort properties_for_sort sorted_sort)
  then show ?thesis by (simp add: median_def)
qed

lemma median_form:
  assumes "median xs = Inr m"
  shows "xs \<noteq> [] \<and> exact_value m \<noteq> None \<and> (if odd (length xs) then \<exists>n. m = NInt n else \<exists>f. m = NFloat f)"
proof -
  have "f \<noteq> FNan \<and> (\<forall>s. f \<noteq> FInf s)" if "int_quotient a b = Inr f" for a b f
    using that by (auto simp: int_quotient_def Let_def split: if_splits)
  then show ?thesis
    using assms by (cases m rule: exact_value.cases) (auto simp: median_def Let_def bindE_Inr_iff split: if_splits)
qed

lemma num_truthy_iff:
  assumes "exact_value m = Some q" and "\<And>v. m = NFloat (FNum v) \<Longrightarrow> v \<noteq> 0"
  shows "num_truthy m \<longleftrightarrow> q \<noteq> 0"
  using assms by (cases m rule: exact_value.cases) auto

lemma int_quotient_nonzero: "int_quotient a b \<noteq> Inr (FNum 0)"
  by (auto simp: int_quotient_def signed_value_def Let_def)

lemma median_nonzero: "median xs \<noteq> Inr (NFloat (FNum 0))"
  using int_quotient_nonzero by (auto simp: median_def Let_def bindE_Inr_iff)

lemma round_double_one: "round_double 1 = 1"
proof (rule round_double_exact)
  show "representable 1"
    unfolding representable_def by (intro exI [of _ 1] exI [of _ 0]) (simp add: pow2_def)
qed simp

text \<open>A number other than zero divided by itself.\<close>

lemma true_div_self:
  assumes "exact_value m = Some q" and "q \<noteq> 0"
  shows "true_div m m = Inr (NFloat (FNum 1))"
proof (cases m)
  case (NInt n)
  have "\<not> double_limit \<le> 1" by (simp add: double_limit_def)
  then show ?thesis
    using assms by (simp add: NInt true_div_def int_quotient_def round_double_one signed_value_def)
next
  case (NFloat f)
  have "\<not> double_limit \<le> 1" by (simp add: double_limit_def)
  then show ?thesis
    using assms by (cases f) (simp_all add: NFloat true_div_def to_float_def round_double_one signed_value_def)
qed

text \<open>A quotient of two numbers of the same kind is nearest to the exact one.\<close>

lemma true_div_nearest:
  assumes "exact_value x = Some a" and "exact_value y = Some b" and "b \<noteq> 0"
    and "true_div x y = Inr q" and "exact_value q = Some r"
    and "(\<exists>m n. x = NInt m \<and> y = NInt n) \<or> (\<exists>f g. x = NFloat f \<and> y = NFloat g)"
  shows "nearest_double r (a / b)"
  using assms(6)
proof (elim disjE exE conjE)
  fix m n assume "x = NInt m" "y = NInt n"
  then show ?thesis
    using assms(1-5) int_quotient_nearest [of m n] by (auto simp: true_div_def bindE_Inr_iff)
next
  fix f g assume "x = NFloat f" "y = NFloat g"
  then show ?thesis
    using assms(1-5) float_quotient_nearest [of f a g b] by (auto simp: true_div_def to_float_def bindE_Inr_iff)
qed

text \<open>Two medians of as many integers are of the same kind.\<close>

lemma median_same_kind:
  assumes "median xs = Inr a" and "median ys = Inr b" and "length xs = length ys"
  shows "(\<exists>m n. a = NInt m \<and> b = NInt n) \<or> (\<exists>f g. a = NFloat f \<and> b = NFloat g)"
  using median_form [OF assms(1)] median_form [OF assms(2)] assms(3) by (auto split: if_splits)

end
