(* ===== verification/Bench_Report.thy ===== *)
theory Bench_Report
  imports Disk_Bench Py_Float
begin

text \<open>
  The report of \<open>compare\<close> in \<open>tools/compare-disk-bench.py\<close> (lines 97 to 115): medians of the
  summaries' totals over the trials, their ratio, the allocation peaks, and the medians of what
  every phase took. The lemmas show that the phases of a report account for the totals it is
  about, that its ratios are correctly rounded, and what a file compared with itself gives.
\<close>

section \<open>Costs\<close>

record cost =
  cost_before :: num_value
  cost_after :: num_value
  cost_ratio :: "num_value option"

record worker_costs =
  cost_worker :: int
  cost_fields :: "(string, cost) dict"
  cost_peak :: "int \<times> int"
  cost_phases :: "(json, num_value \<times> num_value) dict"

record bench_report =
  report_advances :: nat
  report_identical :: bool
  report_workers :: "worker_costs list"

text \<open>\<open>[r for (_, w), r in summaries.items() if w == worker]\<close>\<close>

definition worker_summaries :: "int \<Rightarrow> bench \<Rightarrow> brow list" where
  "worker_summaries worker b = map snd (filter (\<lambda>x. snd (fst x) = JInt worker) (bench_summaries b))"

text \<open>\<open>statistics.median(r[field] for r in rows)\<close> and \<open>max\<close> of the same.\<close>

definition field_median :: "string \<Rightarrow> brow list \<Rightarrow> num_value result" where
  "field_median field rows = bindE (mapE (\<lambda>r. int_field r field) rows) median"

definition field_max :: "string \<Rightarrow> brow list \<Rightarrow> int result" where
  "field_max field rows = bindE (mapE (\<lambda>r. int_field r field) rows) (\<lambda>xs.
     if xs = [] then Inl (ValueError ''max() iterable argument is empty'') else Inr (Max (set xs)))"

definition cost_of :: "brow list \<Rightarrow> brow list \<Rightarrow> string \<Rightarrow> (string \<times> cost) result" where
  "cost_of old new field =
     bindE (field_median field old) (\<lambda>a.
     bindE (field_median field new) (\<lambda>b.
     bindE (if num_truthy b then bindE (true_div a b) (\<lambda>q. Inr (Some q)) else Inr None) (\<lambda>ratio.
       Inr (field, \<lparr>cost_before = a, cost_after = b, cost_ratio = ratio\<rparr>))))"

section \<open>Phases\<close>

text \<open>\<open>sorted\<close> of a set of values: strings or integers, or a single value; others do not compare.\<close>

fun as_str :: "json \<Rightarrow> string result" where
  "as_str (JStr s) = Inr s"
| "as_str _ = Inl TypeError"

definition sorted_values :: "json list \<Rightarrow> json list result" where
  "sorted_values vs =
     (if length vs \<le> 1 then Inr vs
      else case mapE as_str vs of
        Inr ss \<Rightarrow> Inr (map JStr (sort ss))
      | Inl _ \<Rightarrow> bindE (mapE as_int vs) (\<lambda>ns. Inr (map JInt (sort ns))))"

text \<open>\<open>sorted({row["phase"] for row in before if "measurement" in row})\<close>\<close>

definition has_measurement :: "brow \<Rightarrow> bool" where
  "has_measurement r = (map_of r ''measurement'' \<noteq> None)"

definition measured_phases :: "brow list \<Rightarrow> json list result" where
  "measured_phases rows =
     bindE (mapE (\<lambda>r. bindE (dict_index r ''phase'') (\<lambda>p. bindE (guardE TypeError (hashable p)) (\<lambda>_. Inr p)))
       (filter has_measurement rows)) (\<lambda>ps. sorted_values (remdups ps))"

text \<open>\<open>r["phase"] == phase and r["trial"] == trial and r["merge_workers"] == worker\<close>\<close>

definition row_matches :: "json \<Rightarrow> int \<Rightarrow> int \<Rightarrow> brow \<Rightarrow> bool result" where
  "row_matches phase trial worker r =
     bindE (dict_index r ''phase'') (\<lambda>p. if p \<noteq> phase then Inr False
     else bindE (dict_index r ''trial'') (\<lambda>t. if t \<noteq> JInt trial then Inr False
     else bindE (dict_index r ''merge_workers'') (\<lambda>w. Inr (w = JInt worker))))"

fun phase_times :: "json \<Rightarrow> int \<Rightarrow> int \<Rightarrow> brow list \<Rightarrow> int list result" where
  "phase_times phase trial worker [] = Inr []"
| "phase_times phase trial worker (r # rows) =
     bindE (row_matches phase trial worker r) (\<lambda>keep.
     bindE (if keep then bindE (measure_of ''elapsed_ns'' r) (\<lambda>n. Inr [n]) else Inr []) (\<lambda>ns.
     bindE (phase_times phase trial worker rows) (\<lambda>rest. Inr (ns @ rest))))"

definition phase_total :: "brow list \<Rightarrow> json \<Rightarrow> int \<Rightarrow> int \<Rightarrow> int result" where
  "phase_total rows phase trial worker = bindE (phase_times phase trial worker rows) (\<lambda>ns. Inr (sum_list ns))"

definition phase_median :: "int \<Rightarrow> json \<Rightarrow> int \<Rightarrow> brow list \<Rightarrow> num_value result" where
  "phase_median trials phase worker rows =
     bindE (mapE (\<lambda>trial. phase_total rows phase trial worker) [0..trials - 1]) median"

definition phase_cost :: "bench \<Rightarrow> bench \<Rightarrow> int \<Rightarrow> json \<Rightarrow> (json \<times> num_value \<times> num_value) result" where
  "phase_cost earlier later worker phase =
     bindE (int_field (bench_config earlier) ''trials'') (\<lambda>trials.
     bindE (phase_median trials phase worker (bench_rows earlier)) (\<lambda>a.
     bindE (phase_median trials phase worker (bench_rows later)) (\<lambda>b. Inr (phase, a, b))))"

section \<open>The report\<close>

definition worker_report :: "bench \<Rightarrow> bench \<Rightarrow> int \<Rightarrow> worker_costs result" where
  "worker_report earlier later worker =
     (let old = worker_summaries worker earlier; new = worker_summaries worker later in
     bindE (mapE (cost_of old new) [''measured_elapsed_ns'', ''positional_read_bytes'']) (\<lambda>fields.
     bindE (field_max ''peak_allocation_bytes'' old) (\<lambda>a.
     bindE (field_max ''peak_allocation_bytes'' new) (\<lambda>b.
     bindE (measured_phases (bench_rows earlier)) (\<lambda>names.
     bindE (mapE (phase_cost earlier later worker) names) (\<lambda>phases.
       Inr \<lparr>cost_worker = worker, cost_fields = fields, cost_peak = (a, b), cost_phases = phases\<rparr>))))))"

definition compare_files :: "brow list \<Rightarrow> brow list \<Rightarrow> bench_report result" where
  "compare_files rows1 rows2 =
     bindE (compare_checks rows1 rows2) (\<lambda>advances.
     bindE (bench_read rows1) (\<lambda>earlier.
     bindE (bench_read rows2) (\<lambda>later.
     bindE (mapE (worker_report earlier later) [1, 2]) (\<lambda>workers.
       Inr \<lparr>report_advances = advances, report_identical = True, report_workers = workers\<rparr>))))"

section \<open>The phases account for the totals\<close>

lemma sorted_values_set:
  assumes "sorted_values vs = Inr us" and "distinct vs"
  shows "distinct us \<and> set us = set vs"
proof (cases "length vs \<le> 1")
  case True
  then show ?thesis using assms by (simp add: sorted_values_def)
next
  case False
  have strs: "vs = map JStr ss" if "mapE as_str vs = Inr ss" for ss
  proof -
    have "as_str v = Inr s \<longleftrightarrow> v = JStr s" for v s
      by (cases v) auto
    then show ?thesis
      using that by (auto simp: mapE_Inr_iff list_eq_iff_nth_eq list_all2_conv_all_nth)
  qed
  have ints: "vs = map JInt ns" if "mapE as_int vs = Inr ns" for ns
  proof -
    have "as_int v = Inr n \<longleftrightarrow> v = JInt n" for v n
      by (cases v) auto
    then show ?thesis
      using that by (auto simp: mapE_Inr_iff list_eq_iff_nth_eq list_all2_conv_all_nth)
  qed
  show ?thesis
  proof (cases "mapE as_str vs")
    case (Inl e)
    then obtain ns where "mapE as_int vs = Inr ns" "us = map JInt (sort ns)"
      using assms(1) False by (auto simp: sorted_values_def bindE_Inr_iff)
    then show ?thesis
      using ints [of ns] assms(2) by (simp add: distinct_map)
  next
    case (Inr ss)
    then have "us = map JStr (sort ss)"
      using assms(1) False by (simp add: sorted_values_def)
    then show ?thesis
      using strs [OF Inr] assms(2) by (simp add: distinct_map)
  qed
qed

text \<open>The names a report lists: those of the measured rows, each once.\<close>

lemma measured_phases_set:
  assumes "measured_phases rows = Inr names"
  shows "distinct names \<and> (\<forall>r \<in> set rows. has_measurement r \<longrightarrow> map_of r ''phase'' \<in> Some ` set names)"
proof -
  obtain ps where ps: "mapE (\<lambda>r. bindE (dict_index r ''phase'') (\<lambda>p. bindE (guardE TypeError (hashable p)) (\<lambda>_. Inr p)))
      (filter has_measurement rows) = Inr ps" and names: "sorted_values (remdups ps) = Inr names"
    using assms by (auto simp: measured_phases_def bindE_Inr_iff)
  have "distinct names \<and> set names = set ps"
    using sorted_values_set [OF names] by simp
  moreover have "map_of r ''phase'' \<in> Some ` set ps" if "r \<in> set rows" "has_measurement r" for r
    using mapE_mem [OF ps, of r] that by (auto simp: bindE_Inr_iff dict_index_Inr_iff)
  ultimately show ?thesis by simp
qed

text \<open>A row that both loops take counts for its own phase and for no other.\<close>

definition row_share :: "bool \<Rightarrow> json \<Rightarrow> brow \<Rightarrow> int list" where
  "row_share keep p r = (if keep \<and> map_of r ''phase'' = Some p then [projr (measure_of ''elapsed_ns'' r)] else [])"

lemma phase_times_row:
  assumes "phase_times p t w (r # rows) = Inr xs"
    and m: "(if map_of r ''measurement'' = None then Inr False
      else bindE (dict_index r ''trial'') (\<lambda>trial. bindE (dict_index r ''merge_workers'') (\<lambda>workers.
        Inr ((trial, workers) = (JInt t, JInt w))))) = Inr keep"
  shows "\<exists>ys. phase_times p t w rows = Inr ys \<and> xs = row_share keep p r @ ys"
proof -
  obtain hit ns ys where row: "row_matches p t w r = Inr hit"
    and ns: "(if hit then bindE (measure_of ''elapsed_ns'' r) (\<lambda>n. Inr [n]) else Inr []) = Inr ns"
    and ys: "phase_times p t w rows = Inr ys" "xs = ns @ ys"
    using assms(1) by (auto simp: bindE_Inr_iff)
  have "hit \<longleftrightarrow> keep \<and> map_of r ''phase'' = Some p"
  proof
    assume hit
    then have "map_of r ''phase'' = Some p" "map_of r ''trial'' = Some (JInt t)" "map_of r ''merge_workers'' = Some (JInt w)"
      using row by (auto simp: row_matches_def bindE_Inr_iff dict_index_Inr_iff split: if_splits)
    moreover have "map_of r ''measurement'' \<noteq> None"
      using ns \<open>hit\<close> by (auto simp: bindE_Inr_iff measure_of_def dict_index_Inr_iff)
    ultimately show "keep \<and> map_of r ''phase'' = Some p"
      using m by (auto simp: bindE_Inr_iff dict_index_def)
  next
    assume "keep \<and> map_of r ''phase'' = Some p"
    then show hit
      using m row by (auto simp: row_matches_def bindE_Inr_iff dict_index_Inr_iff dict_index_def split: if_splits)
  qed
  then show ?thesis
    using ns ys by (auto simp: row_share_def bindE_Inr_iff split: if_splits)
qed

lemma sum_row_share:
  assumes "finite P" and "keep \<Longrightarrow> map_of r ''phase'' \<in> Some ` P"
  shows "(\<Sum>p \<in> P. sum_list (row_share keep p r)) = (if keep then projr (measure_of ''elapsed_ns'' r) else 0)"
proof (cases keep)
  case True
  then obtain q where q: "map_of r ''phase'' = Some q" "q \<in> P"
    using assms(2) by auto
  have "(\<Sum>p \<in> P. sum_list (row_share keep p r)) = (\<Sum>p \<in> P. if p = q then projr (measure_of ''elapsed_ns'' r) else 0)"
    by (intro sum.cong) (auto simp: row_share_def True q)
  then show ?thesis
    using True q assms(1) by simp
qed (simp add: row_share_def)

text \<open>What the phase totals of one trial and worker count add up to.\<close>

lemma phase_times_sum:
  assumes "finite P"
    and "\<forall>r \<in> set rows. has_measurement r \<longrightarrow> map_of r ''phase'' \<in> Some ` P"
    and "\<forall>p \<in> P. phase_times p t w rows = Inr (X p)"
    and "measured (JInt t, JInt w) rows = Inr ms" and "mapE (measure_of ''elapsed_ns'') ms = Inr spans"
  shows "(\<Sum>p \<in> P. sum_list (X p)) = sum_list spans"
  using assms(2-)
proof (induction rows arbitrary: X ms spans)
  case Nil
  then show ?case by simp
next
  case (Cons r rows)
  obtain keep where m: "(if map_of r ''measurement'' = None then Inr False
      else bindE (dict_index r ''trial'') (\<lambda>trial. bindE (dict_index r ''merge_workers'') (\<lambda>workers.
        Inr ((trial, workers) = (JInt t, JInt w))))) = Inr keep"
    and rest: "bindE (measured (JInt t, JInt w) rows) (\<lambda>rest. Inr (if keep then r # rest else rest)) = Inr ms"
    using Cons.prems(3) unfolding measured.simps bindE_Inr_iff [of "if _ then _ else _"] by (elim exE conjE) (rule that)
  obtain ms' where ms': "measured (JInt t, JInt w) rows = Inr ms'" and ms: "ms = (if keep then r # ms' else ms')"
    using rest by (auto simp: bindE_Inr_iff)
  obtain spans' where spans': "mapE (measure_of ''elapsed_ns'') ms' = Inr spans'"
    and spans: "sum_list spans = (if keep then projr (measure_of ''elapsed_ns'' r) else 0) + sum_list spans'"
    using Cons.prems(4) ms by (auto simp: bindE_Inr_iff split: if_splits)
  have "\<forall>p \<in> P. \<exists>ys. phase_times p t w rows = Inr ys \<and> X p = row_share keep p r @ ys"
    using Cons.prems(2) by (intro ballI phase_times_row [OF _ m]) (rule bspec)
  from bchoice [OF this] obtain Y
    where Y: "\<forall>p \<in> P. phase_times p t w rows = Inr (Y p) \<and> X p = row_share keep p r @ Y p"
    by (elim exE) (rule that)
  have "keep \<Longrightarrow> map_of r ''phase'' \<in> Some ` P"
    using Cons.prems(1) m by (auto simp: has_measurement_def split: if_splits)
  moreover have "(\<Sum>p \<in> P. sum_list (Y p)) = sum_list spans'"
    using Cons.prems(1) Y ms' spans' by (intro Cons.IH) auto
  moreover have "(\<Sum>p \<in> P. sum_list (X p)) = (\<Sum>p \<in> P. sum_list (row_share keep p r)) + (\<Sum>p \<in> P. sum_list (Y p))"
    using Y by (simp flip: sum.distrib)
  ultimately show ?case
    using spans sum_row_share [OF assms(1)] by simp
qed

section \<open>What an accepted file's summaries hold\<close>

lemma scan_rows_summaries:
  "scan_rows config rows (proofs, summaries) = Inr (proofs', summaries') \<Longrightarrow> dict_ok summaries \<Longrightarrow> dict_ok summaries'"
proof (induction rows arbitrary: proofs summaries)
  case Nil
  then show ?case by simp
next
  case (Cons row rows)
  obtain p1 s1 where s1: "scan_rows config rows (p1, s1) = Inr (proofs', summaries')" "dict_ok s1"
    using Cons.prems by (auto simp: bindE_Inr_iff summary_row_def split: if_splits)
  from Cons.IH [OF this] show ?case .
qed

lemma bench_read_summaries:
  assumes "bench_read rows = Inr b" and "int_field (bench_config b) ''trials'' = Inr trials"
  shows "dict_ok (bench_summaries b)" "fst ` set (bench_summaries b) = worker_keys trials"
    "\<exists>advances. forE (check_summary (bench_config b) rows advances (bench_proofs b)) (bench_summaries b) = Inr ()"
proof -
  obtain batch count u where scan: "scan_rows (bench_config b) rows ([], []) = Inr (bench_proofs b, bench_summaries b)"
    and keys: "fst ` set (bench_summaries b) = worker_keys trials"
    and sums: "forE (check_summary (bench_config b) rows (advance_count count batch) (bench_proofs b)) (bench_summaries b) = Inr u"
    using assms by (auto simp: bench_read_def Let_def bindE_Inr_iff)
  show "dict_ok (bench_summaries b)"
    by (rule scan_rows_summaries [OF scan]) simp
  show "fst ` set (bench_summaries b) = worker_keys trials"
    by (rule keys)
  show "\<exists>advances. forE (check_summary (bench_config b) rows advances (bench_proofs b)) (bench_summaries b) = Inr ()"
    using sums by (intro exI [of _ "advance_count count batch"]) simp
qed

lemma worker_keys_iff: "k \<in> worker_keys trials \<longleftrightarrow> (\<exists>t \<in> {0..trials - 1}. k = (JInt t, JInt 1) \<or> k = (JInt t, JInt 2))"
  by (auto simp: worker_keys_def)

text \<open>The summary of a trial and worker count reports what its measured rows sum to.\<close>

lemma bench_read_summary:
  assumes "bench_read rows = Inr b" and "int_field (bench_config b) ''trials'' = Inr trials"
    and "t \<in> {0..trials - 1}" and "w \<in> {1, 2}"
  shows "\<exists>s ms spans. map_of (bench_summaries b) (JInt t, JInt w) = Some s
    \<and> measured (JInt t, JInt w) rows = Inr ms \<and> mapE (measure_of ''elapsed_ns'') ms = Inr spans
    \<and> map_of s ''measured_elapsed_ns'' = Some (JInt (sum_list spans))"
proof -
  note b = bench_read_summaries [OF assms(1,2)]
  have "(JInt t, JInt w) \<in> fst ` set (bench_summaries b)"
    using assms(3,4) unfolding b(2) worker_keys_iff by auto
  then obtain s where s: "((JInt t, JInt w), s) \<in> set (bench_summaries b)" by force
  obtain advances where "check_summary (bench_config b) rows advances (bench_proofs b) ((JInt t, JInt w), s) = Inr ()"
    using b(3) s by (auto simp: forE_Inr_iff)
  then show ?thesis
    using s b(1) by (auto simp: check_summary_def bindE_Inr_iff dict_index_Inr_iff dict_ok_map_of_eq)
qed

text \<open>The summaries of one worker count are one per trial, in some order.\<close>

lemma worker_summary_keys:
  assumes "bench_read rows = Inr b" and "int_field (bench_config b) ''trials'' = Inr trials" and w: "w \<in> {1, 2}"
  shows "mset (map fst (filter (\<lambda>x. snd (fst x) = JInt w) (bench_summaries b)))
    = mset (map (\<lambda>t. (JInt t, JInt w)) [0..trials - 1])"
proof -
  note b = bench_read_summaries [OF assms(1,2)]
  let ?ws = "filter (\<lambda>x. snd (fst x) = JInt w) (bench_summaries b)" and ?key = "\<lambda>t. (JInt t, JInt w)"
  have dist: "distinct (map fst ?ws)" and dist': "distinct (map ?key [0..trials - 1])"
    using b(1) by (simp_all add: dict_ok_def distinct_map_filter distinct_map inj_on_def)
  have "fst ` set ?ws = {k \<in> worker_keys trials. snd k = JInt w}"
    unfolding b(2) [symmetric] by auto
  also have "\<dots> = ?key ` {0..trials - 1}"
    using w by (auto simp: worker_keys_iff)
  finally show ?thesis
    using dist dist' by (subst set_eq_iff_mset_eq_distinct [symmetric]) simp_all
qed

lemma worker_summaries_length:
  assumes "bench_read rows = Inr b" and "int_field (bench_config b) ''trials'' = Inr trials" and "w \<in> {1, 2}"
  shows "length (worker_summaries w b) = nat trials"
  using worker_summary_keys [OF assms, THEN mset_eq_length] by (simp add: worker_summaries_def)

lemma worker_summaries_mset:
  assumes "bench_read rows = Inr b" and "int_field (bench_config b) ''trials'' = Inr trials" and w: "w \<in> {1, 2}"
    and e: "\<forall>t \<in> {0..trials - 1}. \<exists>s. map_of (bench_summaries b) (JInt t, JInt w) = Some s \<and> map_of s field = Some (JInt (E t))"
    and xs: "mapE (\<lambda>r. int_field r field) (worker_summaries w b) = Inr xs"
  shows "mset xs = mset (map E [0..trials - 1])"
proof -
  note b = bench_read_summaries [OF assms(1,2)]
  let ?ws = "filter (\<lambda>x. snd (fst x) = JInt w) (bench_summaries b)"
  let ?key = "\<lambda>t. (JInt t, JInt w)" and ?at = "\<lambda>k :: summary_key. E (projr (as_int (fst k)))"
  have "image_mset ?at (mset (map fst ?ws)) = image_mset ?at (mset (map ?key [0..trials - 1]))"
    using worker_summary_keys [OF assms(1-3)] by simp
  moreover have "xs = map (\<lambda>x. ?at (fst x)) ?ws"
  proof -
    have "int_field (snd x) field = Inr (?at (fst x))" if "x \<in> set ?ws" for x
    proof -
      have "fst x \<in> worker_keys trials" "snd (fst x) = JInt w"
        using that by (auto simp flip: b(2))
      then obtain t where t: "t \<in> {0..trials - 1}" "fst x = ?key t"
        using w by (auto simp: worker_keys_iff)
      have "map_of (bench_summaries b) (?key t) = Some (snd x)"
        using that t(2) prod.collapse [of x] by (simp flip: dict_ok_map_of_eq [OF b(1)])
      moreover obtain s where "map_of (bench_summaries b) (?key t) = Some s" "map_of s field = Some (JInt (E t))"
        using e t(1) by blast
      ultimately show ?thesis
        by (simp add: int_field_def dict_index_def t(2))
    qed
    then have "mapE (\<lambda>r. int_field r field) (map snd ?ws) = Inr (map (\<lambda>x. ?at (fst x)) ?ws)"
      unfolding mapE_map by (intro mapE_total) simp
    then show ?thesis
      using xs by (simp add: worker_summaries_def)
  qed
  ultimately show ?thesis
    by (simp add: image_mset.compositionality comp_def)
qed

text \<open>
  How a report accounts for one of its files: every phase it lists has a total per trial, whose
  median is the reported one; the totals of a trial sum to what the trial's summary measured, and
  the reported cost is the median of these sums.
\<close>

definition accounted ::
  "brow list \<Rightarrow> worker_costs \<Rightarrow> (cost \<Rightarrow> num_value) \<Rightarrow> (num_value \<times> num_value \<Rightarrow> num_value) \<Rightarrow> bool" where
  "accounted rows costs side pick \<longleftrightarrow> (\<exists>b trials T. bench_read rows = Inr b
     \<and> int_field (bench_config b) ''trials'' = Inr trials \<and> distinct (map fst (cost_phases costs))
     \<and> (\<forall>(p, c) \<in> set (cost_phases costs). median (map (T p) [0..trials - 1]) = Inr (pick c)
          \<and> (\<forall>t \<in> {0..trials - 1}. phase_total rows p t (cost_worker costs) = Inr (T p t)))
     \<and> (\<forall>t \<in> {0..trials - 1}. \<exists>s. map_of (bench_summaries b) (JInt t, JInt (cost_worker costs)) = Some s
          \<and> map_of s ''measured_elapsed_ns'' = Some (JInt (\<Sum>p \<in> fst ` set (cost_phases costs). T p t)))
     \<and> (\<exists>c. map_of (cost_fields costs) ''measured_elapsed_ns'' = Some c
          \<and> median (map (\<lambda>t. \<Sum>p \<in> fst ` set (cost_phases costs). T p t) [0..trials - 1]) = Inr (side c)))"

text \<open>One phase of the report, on one side.\<close>

lemma phase_median_totals:
  assumes "phase_median trials p w rows = Inr m"
  shows "median (map (\<lambda>t. projr (phase_total rows p t w)) [0..trials - 1]) = Inr m
    \<and> (\<forall>t \<in> {0..trials - 1}. phase_total rows p t w = Inr (projr (phase_total rows p t w)))"
proof -
  obtain xs where xs: "mapE (\<lambda>t. phase_total rows p t w) [0..trials - 1] = Inr xs" "median xs = Inr m"
    using assms by (auto simp: phase_median_def bindE_Inr_iff)
  have tot: "\<forall>t \<in> {0..trials - 1}. phase_total rows p t w = Inr (projr (phase_total rows p t w))"
    using mapE_mem [OF xs(1)] by fastforce
  then have "mapE (\<lambda>t. phase_total rows p t w) [0..trials - 1]
      = Inr (map (\<lambda>t. projr (phase_total rows p t w)) [0..trials - 1])"
    by (intro mapE_total) simp
  then show ?thesis
    using xs tot by simp
qed

text \<open>The two sides are alike, so they share one lemma, over the rows of either file.\<close>

lemma accountedI:
  assumes read: "bench_read rows = Inr b" "int_field (bench_config b) ''trials'' = Inr trials"
    and w: "cost_worker costs \<in> {1, 2}" and dist: "distinct (map fst (cost_phases costs))"
    and known: "\<forall>r \<in> set rows. has_measurement r \<longrightarrow> map_of r ''phase'' \<in> Some ` fst ` set (cost_phases costs)"
    and phases: "\<forall>(p, c) \<in> set (cost_phases costs). phase_median trials p (cost_worker costs) rows = Inr (pick c)"
    and field: "map_of (cost_fields costs) ''measured_elapsed_ns'' = Some c"
      "field_median ''measured_elapsed_ns'' (worker_summaries (cost_worker costs) b) = Inr (side c)"
  shows "accounted rows costs side pick"
proof -
  let ?w = "cost_worker costs" and ?P = "fst ` set (cost_phases costs)"
  let ?T = "\<lambda>p t. projr (phase_total rows p t ?w)"
  have tot: "phase_total rows p t ?w = Inr (?T p t)" if "p \<in> ?P" "t \<in> {0..trials - 1}" for p t
    using that phases phase_median_totals [of trials p ?w rows] by fastforce
  have sums: "\<exists>s. map_of (bench_summaries b) (JInt t, JInt ?w) = Some s
      \<and> map_of s ''measured_elapsed_ns'' = Some (JInt (\<Sum>p \<in> ?P. ?T p t))" if t: "t \<in> {0..trials - 1}" for t
  proof -
    obtain s ms spans where s: "map_of (bench_summaries b) (JInt t, JInt ?w) = Some s"
      "measured (JInt t, JInt ?w) rows = Inr ms" "mapE (measure_of ''elapsed_ns'') ms = Inr spans"
      "map_of s ''measured_elapsed_ns'' = Some (JInt (sum_list spans))"
      using bench_read_summary [OF read t w] by (elim exE conjE) (rule that)
    let ?X = "\<lambda>p. projr (phase_times p t ?w rows)"
    have X: "phase_times p t ?w rows = Inr (?X p) \<and> ?T p t = sum_list (?X p)" if "p \<in> ?P" for p
      using tot [OF that t] by (auto simp: phase_total_def bindE_Inr_iff)
    have "(\<Sum>p \<in> ?P. sum_list (?X p)) = sum_list spans"
      using X by (intro phase_times_sum [OF _ known _ s(2,3)]) auto
    then show ?thesis
      using s X by simp
  qed
  obtain xs where xs: "mapE (\<lambda>r. int_field r ''measured_elapsed_ns'') (worker_summaries ?w b) = Inr xs" "median xs = Inr (side c)"
    using field(2) by (auto simp: field_median_def bindE_Inr_iff)
  have "mset xs = mset (map (\<lambda>t. \<Sum>p \<in> ?P. ?T p t) [0..trials - 1])"
    using sums by (intro worker_summaries_mset [OF read w _ xs(1)]) blast
  from median_perm [OF this] have "median (map (\<lambda>t. \<Sum>p \<in> ?P. ?T p t) [0..trials - 1]) = Inr (side c)"
    using xs(2) by simp
  moreover have "\<forall>(p, c) \<in> set (cost_phases costs). median (map (?T p) [0..trials - 1]) = Inr (pick c)
      \<and> (\<forall>t \<in> {0..trials - 1}. phase_total rows p t ?w = Inr (?T p t))"
    using phases phase_median_totals by fast
  ultimately show ?thesis
    unfolding accounted_def using sums
    by (intro exI [of _ b] exI [of _ trials] exI [of _ ?T] exI [of _ c] conjI read dist field(1)) auto
qed

section \<open>The parts of a report\<close>

lemma worker_reportD:
  assumes "worker_report earlier later w = Inr costs"
  shows "cost_worker costs = w"
    "mapE (cost_of (worker_summaries w earlier) (worker_summaries w later))
       [''measured_elapsed_ns'', ''positional_read_bytes''] = Inr (cost_fields costs)"
    "field_max ''peak_allocation_bytes'' (worker_summaries w earlier) = Inr (fst (cost_peak costs))"
    "field_max ''peak_allocation_bytes'' (worker_summaries w later) = Inr (snd (cost_peak costs))"
    "\<exists>names. measured_phases (bench_rows earlier) = Inr names
       \<and> mapE (phase_cost earlier later w) names = Inr (cost_phases costs)"
  using assms by (auto simp: worker_report_def Let_def bindE_Inr_iff)

lemma compare_filesD:
  assumes "compare_files rows1 rows2 = Inr report"
  obtains earlier later where "compare_checks rows1 rows2 = Inr (report_advances report)"
    "bench_read rows1 = Inr earlier" "bench_read rows2 = Inr later" "report_identical report"
    "mapE (worker_report earlier later) [1, 2] = Inr (report_workers report)"
  using assms by (auto simp: compare_files_def bindE_Inr_iff)

lemma compare_files_worker:
  assumes "mapE (worker_report earlier later) [1, 2] = Inr workers" and "costs \<in> set workers"
  shows "\<exists>w \<in> {1, 2}. worker_report earlier later w = Inr costs"
  using assms by (auto simp: bindE_Inr_iff)

lemma report_workerD:
  assumes "compare_files rows1 rows2 = Inr report" and "costs \<in> set (report_workers report)"
  obtains earlier later w trials where "compare_checks rows1 rows2 = Inr (report_advances report)"
    "bench_read rows1 = Inr earlier" "bench_read rows2 = Inr later" "w \<in> {1, 2}"
    "worker_report earlier later w = Inr costs"
    "int_field (bench_config earlier) ''trials'' = Inr trials" "int_field (bench_config later) ''trials'' = Inr trials"
proof -
  obtain earlier later where checks: "compare_checks rows1 rows2 = Inr (report_advances report)"
    and read: "bench_read rows1 = Inr earlier" "bench_read rows2 = Inr later"
    and workers: "mapE (worker_report earlier later) [1, 2] = Inr (report_workers report)"
    using compare_filesD [OF assms(1)] by metis
  obtain w where w: "w \<in> {1, 2}" "worker_report earlier later w = Inr costs"
    using compare_files_worker [OF workers assms(2)] by blast
  obtain trials where t1: "int_field (bench_config earlier) ''trials'' = Inr trials"
    using bench_read_complete [OF read(1)] unfolding complete_history_def by blast
  have t2: "int_field (bench_config later) ''trials'' = Inr trials"
    using compare_checks_Inr [OF checks] read t1 by (auto simp: compared_fields_def int_field_def dict_index_def)
  show ?thesis
    by (rule that [OF checks read w t1 t2])
qed

lemma cost_of_fst: "cost_of old new k = Inr x \<Longrightarrow> x = (k, snd x)"
  by (auto simp: cost_of_def bindE_Inr_iff)

lemma cost_of_fields:
  assumes "mapE (cost_of old new) [f, g] = Inr cs" and "f \<noteq> g" and "k \<in> {f, g}"
  shows "\<exists>c. map_of cs k = Some c \<and> cost_of old new k = Inr (k, c)"
  using assms cost_of_fst [of old new f] cost_of_fst [of old new g] by (auto simp: bindE_Inr_iff prod_eq_iff)

lemma mapE_cost_of:
  assumes "mapE (cost_of old new) ks = Inr cs" and "(k, c) \<in> set cs"
  shows "cost_of old new k = Inr (k, c)"
  using assms
proof (induction ks arbitrary: cs)
  case (Cons k' ks)
  then show ?case
    using cost_of_fst [of old new k'] by (auto simp: bindE_Inr_iff prod_eq_iff)
qed simp

lemma cost_ofD:
  assumes "cost_of old new field = Inr (field', c)"
  shows "field' = field" "field_median field old = Inr (cost_before c)" "field_median field new = Inr (cost_after c)"
    "(if num_truthy (cost_after c) then bindE (true_div (cost_before c) (cost_after c)) (\<lambda>q. Inr (Some q)) else Inr None)
       = Inr (cost_ratio c)"
  using assms by (auto simp: cost_of_def bindE_Inr_iff)

lemma phase_costsD:
  assumes "int_field (bench_config earlier) ''trials'' = Inr trials"
  shows "mapE (phase_cost earlier later w) names = Inr cs \<Longrightarrow> map fst cs = names
    \<and> (\<forall>(p, c) \<in> set cs. phase_median trials p w (bench_rows earlier) = Inr (fst c)
         \<and> phase_median trials p w (bench_rows later) = Inr (snd c))"
proof (induction names arbitrary: cs)
  case (Cons p names)
  obtain a b cs' where head: "phase_median trials p w (bench_rows earlier) = Inr a"
      "phase_median trials p w (bench_rows later) = Inr b" "cs = (p, a, b) # cs'"
    and rest: "mapE (phase_cost earlier later w) names = Inr cs'"
    using Cons.prems unfolding mapE.simps by (auto simp: phase_cost_def [of _ _ _ p] assms bindE_Inr_iff)
  show ?case
    using head Cons.IH [OF rest] by simp
qed simp

text \<open>Both files have the same measured phases, from the comparison of their traces.\<close>

lemma compare_checks_phases:
  assumes "compare_checks rows1 rows2 = Inr n" and "r \<in> set rows2" and "has_measurement r"
  shows "\<exists>r' \<in> set rows1. has_measurement r' \<and> map_of r' ''phase'' = map_of r ''phase''"
proof -
  let ?f = "\<lambda>r. bindE (dict_index r ''trial'') (\<lambda>t. bindE (dict_index r ''merge_workers'') (\<lambda>w.
     bindE (phase_of r) (\<lambda>p. Inr (t, w, p))))"
  obtain s where s: "mapE ?f (filter (\<lambda>r. map_of r ''measurement'' \<noteq> None) rows1) = Inr s"
    "mapE ?f (filter (\<lambda>r. map_of r ''measurement'' \<noteq> None) rows2) = Inr s"
    using assms(1) by (auto simp: compare_checks_def bench_trace_def bindE_Inr_iff)
  obtain t w q where q: "(t, w, q) \<in> set s" "?f r = Inr (t, w, q)"
    using mapE_mem [OF s(2), of r] assms(2,3) by (auto simp: has_measurement_def)
  obtain i where i: "i < length s" "s ! i = (t, w, q)"
    using q(1) by (auto simp: in_set_conv_nth)
  let ?r = "filter (\<lambda>r. map_of r ''measurement'' \<noteq> None) rows1 ! i"
  have "length (filter (\<lambda>r. map_of r ''measurement'' \<noteq> None) rows1) = length s"
    using mapE_length [OF s(1)] by simp
  then have "?r \<in> set (filter (\<lambda>r. map_of r ''measurement'' \<noteq> None) rows1)"
    using i(1) by (intro nth_mem) simp
  moreover have "?f ?r = Inr (t, w, q)"
    using s(1) i by (auto simp: mapE_Inr_iff dest: list_all2_nthD2)
  moreover have "map_of r' ''phase'' = Some (fst q)" if "?f r' = Inr (t, w, q)" for r'
    using that by (auto simp: bindE_Inr_iff phase_of_def dict_index_Inr_iff)
  ultimately show ?thesis
    using q(2) by (intro bexI [of _ ?r]) (simp_all add: has_measurement_def)
qed

section \<open>The report of the small file\<close>

lemma phase_times_append:
  "phase_times p t w (xs @ ys) = bindE (phase_times p t w xs) (\<lambda>ms. bindE (phase_times p t w ys) (\<lambda>ns. Inr (ms @ ns)))"
proof (induction xs)
  case Nil
  then show ?case by (cases "phase_times p t w ys") simp_all
qed (simp add: bindE_assoc)

lemma phase_times_demo: "\<exists>ns. phase_times p t w (map (demo_row v) xs) = Inr ns"
  by (induction xs) (auto simp: demo_row_def row_matches_def measure_of_def dict_index_def)

lemma demo_phase_total:
  assumes "p \<notin> {JStr ''configuration'', JStr ''summary'', JStr ''provenance''}"
  shows "\<exists>n. phase_total demo_file p t w = Inr n"
proof -
  obtain ms ns where "phase_times p t w (map (demo_row 1) (projr (expected_phases demo_config))) = Inr ms"
    "phase_times p t w (map (demo_row 2) (projr (expected_phases demo_config))) = Inr ns"
    using phase_times_demo by blast
  moreover have "row_matches p t w demo_config = Inr False" "row_matches p t w (demo_summary v) = Inr False"
    "row_matches p t w [(''phase'', JStr ''provenance''), (''optimize'', JStr ''ReleaseFast''), (''benchmark_sha256'', JStr ''b'')] = Inr False" for v
    using assms by (auto simp: row_matches_def demo_config_def demo_summary_def dict_index_def)
  ultimately show ?thesis
    unfolding phase_total_def demo_file_def by (simp add: phase_times_append)
qed

lemma demo_phases: "case measured_phases demo_file of Inl e \<Rightarrow> False
   | Inr names \<Rightarrow> list_all (\<lambda>p. p \<notin> {JStr ''configuration'', JStr ''summary'', JStr ''provenance''}) names"
  by code_simp

lemma demo_costs:
  assumes "w \<in> {1, 2}"
  shows "\<exists>cs. mapE (cost_of [demo_summary w] [demo_summary w]) [''measured_elapsed_ns'', ''positional_read_bytes''] = Inr cs"
proof -
  have "median [28] = Inr (NInt 28)" by code_simp
  moreover have "true_div (NInt 28) (NInt 28) = Inr (NFloat (FNum 1))"
    by (rule true_div_self [of _ 28]) simp_all
  ultimately show ?thesis
    by (simp add: cost_of_def field_median_def demo_summary_def int_field_def dict_index_def)
qed

lemma demo_report: "\<exists>report. compare_files demo_file demo_file = Inr report"
proof -
  obtain b where b: "bench_read demo_file = Inr b"
    "bench_summaries b = [((JInt 0, JInt 1), demo_summary 1), ((JInt 0, JInt 2), demo_summary 2)]" "bench_config b = demo_config"
    using demo_bench by (elim exE conjE) (rule that)
  have trials: "int_field (bench_config b) ''trials'' = Inr 1"
    unfolding b(3) by (rule demo_fields)
  obtain names where names: "measured_phases demo_file = Inr names"
    "list_all (\<lambda>p. p \<notin> {JStr ''configuration'', JStr ''summary'', JStr ''provenance''}) names"
    using demo_phases by (cases "measured_phases demo_file") simp_all
  have total: "\<exists>c. phase_cost b b w p = Inr c" if p: "p \<in> set names" for p w
  proof -
    obtain n where "phase_total demo_file p 0 w = Inr n"
      using demo_phase_total [OF names(2) [unfolded list_all_iff, rule_format, OF p], of 0 w] by (elim exE) (rule that)
    then have "phase_median 1 p w demo_file = Inr (NInt n)"
      by (simp add: phase_median_def median_def)
    then show ?thesis
      by (simp add: phase_cost_def trials bench_read_rows [OF b(1)])
  qed
  then have phases: "mapE (phase_cost b b w) names = Inr (map (\<lambda>p. projr (phase_cost b b w p)) names)" for w
    by (intro mapE_total) (use total in \<open>metis sum.sel(2)\<close>)
  have summaries: "worker_summaries w b = [demo_summary w]" if "w \<in> {1, 2}" for w
    using that by (auto simp: worker_summaries_def b)
  have "\<exists>costs. worker_report b b w = Inr costs" if w: "w \<in> {1, 2}" for w
  proof -
    have "field_max ''peak_allocation_bytes'' [demo_summary w] = Inr 1"
      by (simp add: field_max_def demo_summary_def int_field_def dict_index_def)
    moreover obtain cs where "mapE (cost_of [demo_summary w] [demo_summary w]) [''measured_elapsed_ns'', ''positional_read_bytes''] = Inr cs"
      using demo_costs [OF w] by blast
    ultimately show ?thesis
      by (simp add: worker_report_def Let_def summaries [OF w] bench_read_rows [OF b(1)] names(1) phases del: mapE.simps)
  qed
  then obtain x y where "worker_report b b 1 = Inr x" "worker_report b b 2 = Inr y"
    by fastforce
  then show ?thesis
    by (simp add: compare_files_def demo_compare b(1))
qed

lemma demo_cost:
  "\<exists>report costs field c. compare_files demo_file demo_file = Inr report \<and> costs \<in> set (report_workers report)
     \<and> (field, c) \<in> set (cost_fields costs)"
proof -
  obtain report where r: "compare_files demo_file demo_file = Inr report"
    using demo_report by blast
  obtain earlier later where workers: "mapE (worker_report earlier later) [1, 2] = Inr (report_workers report)"
    using compare_filesD [OF r] by metis
  obtain costs where costs: "costs \<in> set (report_workers report)" "worker_report earlier later 1 = Inr costs"
    using mapE_mem [OF workers, of 1] by auto
  obtain c where "map_of (cost_fields costs) ''measured_elapsed_ns'' = Some c"
    using cost_of_fields [OF worker_reportD(2) [OF costs(2)]] by auto
  then show ?thesis
    using r costs(1) map_of_SomeD by fastforce
qed

section \<open>Properties of the report\<close>

text \<open>
  C36: The report accounts for both files. For each worker count the phases it lists are distinct
  and have a total per trial on each side, whose medians are the reported ones; the phase totals
  of a trial sum to what the trial's summary says was measured, and the reported elapsed cost is
  the median of these sums. No measured row is missed and none is counted twice.
\<close>

theorem report_accounts:
  assumes "compare_files rows1 rows2 = Inr report" and "costs \<in> set (report_workers report)"
  shows "accounted rows1 costs cost_before fst \<and> accounted rows2 costs cost_after snd"
proof -
  obtain earlier later w trials where checks: "compare_checks rows1 rows2 = Inr (report_advances report)"
    and read: "bench_read rows1 = Inr earlier" "bench_read rows2 = Inr later"
    and w: "w \<in> {1, 2}" and rep: "worker_report earlier later w = Inr costs"
    and t1: "int_field (bench_config earlier) ''trials'' = Inr trials"
    and t2: "int_field (bench_config later) ''trials'' = Inr trials"
    by (rule report_workerD [OF assms(1,2)])
  note parts = worker_reportD [OF rep]
  obtain names where names: "measured_phases rows1 = Inr names"
    "mapE (phase_cost earlier later w) names = Inr (cost_phases costs)"
    using parts(5) bench_read_rows [OF read(1)] by auto
  note costs = phase_costsD [OF t1 names(2)]
  have dist: "distinct (map fst (cost_phases costs))"
    and known: "\<forall>r \<in> set rows1. has_measurement r \<longrightarrow> map_of r ''phase'' \<in> Some ` fst ` set (cost_phases costs)"
    using measured_phases_set [OF names(1)] costs [THEN conjunct1] by (simp_all flip: set_map)
  then have known': "\<forall>r \<in> set rows2. has_measurement r \<longrightarrow> map_of r ''phase'' \<in> Some ` fst ` set (cost_phases costs)"
    using compare_checks_phases [OF checks] by metis
  obtain c where c: "map_of (cost_fields costs) ''measured_elapsed_ns'' = Some c"
    "cost_of (worker_summaries w earlier) (worker_summaries w later) ''measured_elapsed_ns'' = Inr (''measured_elapsed_ns'', c)"
    using cost_of_fields [OF parts(2)] by auto
  have "accounted rows1 costs cost_before fst"
    by (rule accountedI [OF read(1) t1 _ dist known _ c(1)]) (use w parts(1) cost_ofD(2) [OF c(2)] costs bench_read_rows [OF read(1)] in auto)
  moreover have "accounted rows2 costs cost_after snd"
    by (rule accountedI [OF read(2) t2 _ dist known' _ c(1)]) (use w parts(1) cost_ofD(3) [OF c(2)] costs bench_read_rows [OF read(2)] in auto)
  ultimately show ?thesis ..
qed

theorem report_accounts_witness:
  "\<exists>report costs. compare_files demo_file demo_file = Inr report \<and> costs \<in> set (report_workers report)
     \<and> accounted demo_file costs cost_before fst"
proof -
  obtain report costs where "compare_files demo_file demo_file = Inr report" "costs \<in> set (report_workers report)"
    using demo_cost by (elim exE conjE) (rule that)
  with report_accounts [OF this] show ?thesis by blast
qed

text \<open>
  C37: Every ratio of a report is what its medians say: there is none exactly when the later median
  is zero, and a finite one is a double nearest to the exact quotient of the two medians, which
  are both finite.
\<close>

theorem report_ratio_nearest:
  assumes "compare_files rows1 rows2 = Inr report" and "costs \<in> set (report_workers report)"
    and "(field, c) \<in> set (cost_fields costs)"
  shows "\<exists>a b. exact_value (cost_before c) = Some a \<and> exact_value (cost_after c) = Some b
    \<and> (cost_ratio c = None \<longleftrightarrow> b = 0)
    \<and> (\<forall>q r. cost_ratio c = Some q \<and> exact_value q = Some r \<longrightarrow> nearest_double r (a / b))"
proof -
  obtain earlier later w trials where checks: "compare_checks rows1 rows2 = Inr (report_advances report)"
    and read: "bench_read rows1 = Inr earlier" "bench_read rows2 = Inr later"
    and w: "w \<in> {1, 2}" and rep: "worker_report earlier later w = Inr costs"
    and t1: "int_field (bench_config earlier) ''trials'' = Inr trials"
    and t2: "int_field (bench_config later) ''trials'' = Inr trials"
    by (rule report_workerD [OF assms(1,2)])
  have cost: "cost_of (worker_summaries w earlier) (worker_summaries w later) field = Inr (field, c)"
    using mapE_cost_of [OF worker_reportD(2) [OF rep] assms(3)] .
  note parts = cost_ofD [OF cost]
  obtain xs ys where xs: "mapE (\<lambda>r. int_field r field) (worker_summaries w earlier) = Inr xs" "median xs = Inr (cost_before c)"
    and ys: "mapE (\<lambda>r. int_field r field) (worker_summaries w later) = Inr ys" "median ys = Inr (cost_after c)"
    using parts(2,3) by (auto simp: field_median_def bindE_Inr_iff)
  have len: "length xs = length ys"
    using mapE_length [OF xs(1)] mapE_length [OF ys(1)] worker_summaries_length [OF read(1) t1 w]
      worker_summaries_length [OF read(2) t2 w] by simp
  obtain a b where ab: "exact_value (cost_before c) = Some a" "exact_value (cost_after c) = Some b"
    using median_form [OF xs(2)] median_form [OF ys(2)] by blast
  have nz: "num_truthy (cost_after c) \<longleftrightarrow> b \<noteq> 0"
    using num_truthy_iff [OF ab(2)] median_nonzero [of ys] ys(2) by metis
  have ratio: "if b = 0 then cost_ratio c = None else \<exists>q. true_div (cost_before c) (cost_after c) = Inr q \<and> cost_ratio c = Some q"
    using parts(4) nz by (auto simp: bindE_Inr_iff)
  then have "\<forall>q r. cost_ratio c = Some q \<and> exact_value q = Some r \<longrightarrow> nearest_double r (a / b)"
    using true_div_nearest [OF ab _ _ _ median_same_kind [OF xs(2) ys(2) len]] by (auto split: if_splits)
  then show ?thesis
    using ab ratio by (auto split: if_splits)
qed

theorem report_ratio_nearest_witness:
  "\<exists>report costs field c. compare_files demo_file demo_file = Inr report \<and> costs \<in> set (report_workers report)
     \<and> (field, c) \<in> set (cost_fields costs) \<and> exact_value (cost_before c) \<noteq> None"
proof -
  obtain report costs field c where "compare_files demo_file demo_file = Inr report" "costs \<in> set (report_workers report)"
    "(field, c) \<in> set (cost_fields costs)"
    using demo_cost by (elim exE conjE) (rule that)
  with report_ratio_nearest [OF this] show ?thesis by blast
qed

text \<open>
  A file compared with itself reports equal costs: in every line of the report the two medians
  and the two peaks are the same, and a ratio is missing for a zero median and one otherwise.
\<close>

theorem compare_self:
  assumes "compare_files rows rows = Inr report" and "costs \<in> set (report_workers report)"
  shows "fst (cost_peak costs) = snd (cost_peak costs)
    \<and> (\<forall>(p, a, b) \<in> set (cost_phases costs). a = b)
    \<and> (\<forall>(field, c) \<in> set (cost_fields costs). cost_before c = cost_after c
         \<and> cost_ratio c = (if exact_value (cost_after c) = Some 0 then None else Some (NFloat (FNum 1))))"
proof -
  obtain b b' w trials where read: "bench_read rows = Inr b" "bench_read rows = Inr b'" and rep: "worker_report b b' w = Inr costs"
    and t: "int_field (bench_config b) ''trials'' = Inr trials"
    by (rule report_workerD [OF assms])
  then have rep: "worker_report b b w = Inr costs" by simp
  note parts = worker_reportD [OF rep]
  have "cost_before c = cost_after c
      \<and> cost_ratio c = (if exact_value (cost_after c) = Some 0 then None else Some (NFloat (FNum 1)))"
    if "(field, c) \<in> set (cost_fields costs)" for field c
  proof -
    note cs = cost_ofD [OF mapE_cost_of [OF parts(2) that]]
    then have eq: "cost_before c = cost_after c" by simp
    obtain xs where "median xs = Inr (cost_after c)"
      using cs(3) by (auto simp: field_median_def bindE_Inr_iff)
    then obtain q where q: "exact_value (cost_after c) = Some q" "num_truthy (cost_after c) \<longleftrightarrow> q \<noteq> 0"
      using median_form num_truthy_iff median_nonzero by (metis not_None_eq)
    then show ?thesis
      using cs(4) eq true_div_self [OF q(1)] by auto
  qed
  moreover obtain names where "mapE (phase_cost b b w) names = Inr (cost_phases costs)"
    using parts(5) by blast
  then have "\<forall>(p, x, y) \<in> set (cost_phases costs). x = y"
    using phase_costsD [OF t, of b w names] by fastforce
  ultimately show ?thesis
    using parts(3,4) by auto
qed

theorem compare_self_witness:
  "\<exists>report costs. compare_files demo_file demo_file = Inr report \<and> costs \<in> set (report_workers report)
     \<and> fst (cost_peak costs) = snd (cost_peak costs)"
proof -
  obtain report costs where "compare_files demo_file demo_file = Inr report" "costs \<in> set (report_workers report)"
    using demo_cost by (elim exE conjE) (rule that)
  with compare_self [OF this] show ?thesis by blast
qed

end
