(* ===== verification/Tool_Files.thy ===== *)
theory Tool_Files
  imports Py_Json
begin

text \<open>
  File trees and the path discipline of \<open>tools/capnp_tool.py\<close>: \<open>safe_path\<close> and \<open>inventory\<close> (lines 29
  to 46). A directory is an association list of its entries; a symbolic link and any other
  special file are leaves, which the tool refuses. The lemmas show that a safe path, joined to
  a directory, stays below it, and that an inventory is exactly the regular files of a tree.
\<close>

section \<open>Trees\<close>

datatype entry = File bytes | Dir "(string \<times> entry) list" | Link | Special

type_synonym path = "string list"

text \<open>All entries below a directory, with their paths: \<open>root.rglob("*")\<close>, which follows no link.\<close>

fun walk :: "path \<Rightarrow> entry \<Rightarrow> (path \<times> entry) list"
  and walks :: "path \<Rightarrow> (string \<times> entry) list \<Rightarrow> (path \<times> entry) list" where
  "walk p (Dir es) = walks p es"
| "walk p (File d) = []"
| "walk p Link = []"
| "walk p Special = []"
| "walks p [] = []"
| "walks p ((n, e) # es) = (p @ [n], e) # walk (p @ [n]) e @ walks p es"

section \<open>Paths\<close>

text \<open>\<open>name.split("/")\<close>\<close>

fun split_slash_from :: "string \<Rightarrow> string \<Rightarrow> string list" where
  "split_slash_from w [] = [w]"
| "split_slash_from w (c # cs) =
     (if c = CHR ''/'' then w # split_slash_from [] cs else split_slash_from (w @ [c]) cs)"

definition split_slash :: "string \<Rightarrow> string list" where
  "split_slash s = split_slash_from [] s"

definition posix :: "path \<Rightarrow> string" where
  "posix p = join ''/'' p"

text \<open>
  The argument is a parsed value, since callers pass what they read from JSON. The result is the
  parts of the \<open>PurePosixPath\<close>, which for the names let through are the parts of the split.
\<close>

definition safe_path :: "json \<Rightarrow> path result" where
  "safe_path name = (case name of
     JStr s \<Rightarrow>
       if s = [] \<or> CHR 92 \<in> set s then Inl (ValueError ''invalid relative path'')
       else if hd s = CHR ''/'' \<or> (\<exists>p \<in> set (split_slash s). p \<in> {[], ''.'', ''..''})
       then Inl (ValueError ''invalid relative path'')
       else Inr (split_slash s)
   | _ \<Rightarrow> Inl (ValueError ''invalid relative path''))"

text \<open>The components of a path as \<open>pathlib\<close> keeps them: dots and empty components are dropped.\<close>

definition path_parts :: "string \<Rightarrow> path" where
  "path_parts name = filter (\<lambda>x. x \<noteq> [] \<and> x \<noteq> ''.'') (split_slash name)"

section \<open>The inventory\<close>

text \<open>The loop over the sorted paths; paths compare part by part.\<close>

fun inventory_loop :: "(path \<times> entry) list \<Rightarrow> (string, bytes) dict \<Rightarrow> (string, bytes) dict result" where
  "inventory_loop [] result = Inr result"
| "inventory_loop ((p, e) # rest) result = (case e of
     Link \<Rightarrow> Inl (ValueError ''symlink in tool inputs'')
   | File d \<Rightarrow> inventory_loop rest (AList.update (posix p) d result)
   | Dir es \<Rightarrow> inventory_loop rest result
   | Special \<Rightarrow> Inl (ValueError ''unsupported tool input''))"

definition inventory :: "entry \<Rightarrow> (string, bytes) dict result" where
  "inventory root = inventory_loop (sort_key fst (walk [] root)) []"

section \<open>Splitting and joining paths\<close>

lemma split_slash_from_prefix: "split_slash_from (v @ w) s = (v @ hd (split_slash_from w s)) # tl (split_slash_from w s)"
  by (induction s arbitrary: w) auto

lemma split_slash_nonempty [simp]: "split_slash_from w s \<noteq> []"
  by (induction s arbitrary: w) auto

lemma join_split_from: "join ''/'' (split_slash_from w s) = w @ s"
proof (induction s arbitrary: w)
  case Nil
  then show ?case by simp
next
  case (Cons c s)
  show ?case
  proof (cases "c = CHR ''/''")
    case True
    obtain q qs where q: "split_slash_from [] s = q # qs"
      by (cases "split_slash_from [] s") auto
    then show ?thesis
      using True Cons.IH [of "[]"] by simp
  next
    case False
    then show ?thesis
      using Cons.IH [of "w @ [c]"] by simp
  qed
qed

lemma posix_split [simp]: "posix (split_slash s) = s"
  by (simp add: posix_def split_slash_def join_split_from)

text \<open>A part as a safe path has it: not empty, not a dot name, without a slash or backslash.\<close>

definition part_ok :: "string \<Rightarrow> bool" where
  "part_ok p \<longleftrightarrow> p \<noteq> [] \<and> p \<noteq> ''.'' \<and> p \<noteq> ''..'' \<and> CHR ''/'' \<notin> set p"

lemma split_part: "CHR ''/'' \<notin> set p \<Longrightarrow> split_slash_from w (p @ s) = split_slash_from (w @ p) s"
  by (induction p arbitrary: w) auto

lemma split_posix: "p \<noteq> [] \<Longrightarrow> \<forall>x \<in> set p. CHR ''/'' \<notin> set x \<Longrightarrow> split_slash (posix p) = p"
proof (induction p rule: induct_list012)
  case 1
  then show ?case by simp
next
  case (2 x)
  then show ?case
    using split_part [of x "[]" "[]"] by (simp add: posix_def split_slash_def)
next
  case (3 x y zs)
  then show ?case
    using split_part [of x "[]" "''/'' @ join ''/'' (y # zs)"] by (simp add: posix_def split_slash_def)
qed

lemma split_no_slash: "CHR ''/'' \<notin> set w \<Longrightarrow> \<forall>x \<in> set (split_slash_from w s). CHR ''/'' \<notin> set x"
proof (induction s arbitrary: w)
  case Nil
  then show ?case by simp
next
  case (Cons c s)
  show ?case
    using Cons.prems Cons.IH [of "[]"] Cons.IH [of "w @ [c]"] by (cases "c = CHR ''/''") simp_all
qed

lemma path_parts_slash: "n \<in> set (path_parts name) \<Longrightarrow> CHR ''/'' \<notin> set n"
  using split_no_slash [of "[]" name] by (simp add: path_parts_def split_slash_def)

lemma split_slash_hd: "s \<noteq> [] \<Longrightarrow> hd s = CHR ''/'' \<Longrightarrow> [] \<in> set (split_slash s)"
  by (cases s) (simp_all add: split_slash_def)

lemma safe_path_Inr:
  "safe_path v = Inr p \<longleftrightarrow> (\<exists>s. v = JStr s \<and> s \<noteq> [] \<and> CHR 92 \<notin> set s \<and> p = split_slash s
     \<and> (\<forall>x \<in> set p. part_ok x))"
proof (cases v)
  case (JStr s)
  have slash: "\<forall>x \<in> set (split_slash s). CHR ''/'' \<notin> set x"
    using split_no_slash [of "[]" s] by (simp add: split_slash_def)
  have dots: "(\<exists>x \<in> set (split_slash s). x \<in> {[], ''.'', ''..''}) \<longleftrightarrow> \<not> (\<forall>x \<in> set (split_slash s). part_ok x)"
    unfolding part_ok_def using slash by blast
  have bad: "s \<noteq> [] \<Longrightarrow> hd s = CHR ''/'' \<Longrightarrow> \<not> (\<forall>x \<in> set (split_slash s). part_ok x)"
    using split_slash_hd [of s] by (auto simp: part_ok_def)
  show ?thesis
    unfolding safe_path_def JStr json.case dots using bad by (simp split: if_splits) blast
qed (simp_all add: safe_path_def)

lemma safe_path_posix: "safe_path (JStr s) = Inr p \<Longrightarrow> posix p = s"
  by (auto simp: safe_path_Inr)

lemma safe_path_parts:
  assumes "safe_path v = Inr p"
  shows "p \<noteq> []" and "\<forall>x \<in> set p. part_ok x"
  using assms by (auto simp: safe_path_Inr split_slash_def)

section \<open>Joining and resolving\<close>

text \<open>
  \<open>Path.joinpath\<close>: a part that starts with a slash discards what precedes it. An absolute path
  is the list of its components; \<open>resolve\<close> is how the system reads the dots in it.
\<close>

fun joinpath :: "path \<Rightarrow> string list \<Rightarrow> path" where
  "joinpath d [] = d"
| "joinpath d (x # xs) =
     (if x \<noteq> [] \<and> hd x = CHR ''/'' then joinpath (split_slash (tl x)) xs
      else joinpath (d @ split_slash x) xs)"

fun resolve_from :: "path \<Rightarrow> path \<Rightarrow> path" where
  "resolve_from d [] = d"
| "resolve_from d (x # xs) =
     (if x = [] \<or> x = ''.'' then resolve_from d xs
      else if x = ''..'' then resolve_from (butlast d) xs
      else resolve_from (d @ [x]) xs)"

definition resolve :: "path \<Rightarrow> path" where
  "resolve p = resolve_from [] p"

lemma joinpath_safe: "\<forall>x \<in> set p. part_ok x \<Longrightarrow> joinpath d p = d @ p"
proof (induction p arbitrary: d)
  case Nil
  then show ?case by simp
next
  case (Cons x p)
  then have "CHR ''/'' \<notin> set x" "x \<noteq> []"
    by (simp_all add: part_ok_def)
  moreover have "split_slash x = [x]"
    using split_part [of x "[]" "[]"] calculation by (simp add: split_slash_def)
  moreover have "hd x \<noteq> CHR ''/''"
    using calculation by (cases x) auto
  ultimately show ?case
    using Cons by simp
qed

lemma resolve_from_safe: "\<forall>x \<in> set p. part_ok x \<Longrightarrow> resolve_from d p = d @ p"
  by (induction p arbitrary: d) (auto simp: part_ok_def)

lemma resolve_from_append: "resolve_from d (p @ q) = resolve_from (resolve_from d p) q"
  by (induction d p rule: resolve_from.induct) auto

lemma resolve_below: "\<forall>x \<in> set p. part_ok x \<Longrightarrow> resolve (joinpath d p) = resolve d @ p"
  by (simp add: joinpath_safe resolve_def resolve_from_append resolve_from_safe)

section \<open>Lookups and the walk\<close>

fun look :: "path \<Rightarrow> entry \<Rightarrow> entry option" where
  "look [] e = Some e"
| "look (n # p) (Dir es) = (case map_of es n of None \<Rightarrow> None | Some e \<Rightarrow> look p e)"
| "look (n # p) _ = None"

text \<open>In a well-formed tree every directory names an entry once, by a name without a slash.\<close>

inductive tree_ok :: "entry \<Rightarrow> bool" where
  ok_File: "tree_ok (File d)"
| ok_Link: "tree_ok Link"
| ok_Special: "tree_ok Special"
| ok_Dir: "dict_ok es \<Longrightarrow> (\<And>n e. (n, e) \<in> set es \<Longrightarrow> CHR ''/'' \<notin> set n \<and> tree_ok e) \<Longrightarrow> tree_ok (Dir es)"

inductive_simps tree_ok_Dir [simp]: "tree_ok (Dir es)"

lemmas tree_ok_leaves [simp, intro] = ok_File ok_Link ok_Special

lemma walk_prefix:
  "walk (q @ p) e = map (\<lambda>(r, x). (q @ r, x)) (walk p e)"
  "walks (q @ p) es = map (\<lambda>(r, x). (q @ r, x)) (walks p es)"
  by (induction p e and p es rule: walk_walks.induct) auto

lemma walks_mem:
  "(r, x) \<in> set (walks p es) \<longleftrightarrow> (\<exists>n e. (n, e) \<in> set es \<and> (r = p @ [n] \<and> x = e \<or> (r, x) \<in> set (walk (p @ [n]) e)))"
proof (induction es)
  case Nil
  then show ?case by simp
next
  case (Cons y es)
  obtain m f where "y = (m, f)" by (cases y)
  with Cons show ?case by (simp, blast)
qed

lemma look_leaf [simp]:
  "r \<noteq> [] \<Longrightarrow> look r (File d) = None" "r \<noteq> [] \<Longrightarrow> look r Link = None" "r \<noteq> [] \<Longrightarrow> look r Special = None"
  by (cases r; simp)+

lemma walk_look:
  "tree_ok e \<Longrightarrow> (r, x) \<in> set (walk [] e) \<longleftrightarrow> r \<noteq> [] \<and> look r e = Some x"
proof (induction arbitrary: r x rule: tree_ok.induct)
  case (ok_Dir es)
  have mem: "(n, e) \<in> set es \<longleftrightarrow> map_of es n = Some e" for n e
    using ok_Dir(1) by (rule dict_ok_map_of_eq)
  show ?case
  proof (cases r)
    case Nil
    have "(r, x) \<notin> set (walk [n] e)" for n e
      using walk_prefix(1) [of "[n]" "[]" e] Nil by auto
    then show ?thesis
      using Nil by (simp add: walks_mem)
  next
    case (Cons m s)
    have "(m # s, x) \<in> set (walk [n] e) \<longleftrightarrow> m = n \<and> (s, x) \<in> set (walk [] e)" for n e
      using walk_prefix(1) [of "[n]" "[]" e] by auto
    then have "(r, x) \<in> set (walk [] (Dir es)) \<longleftrightarrow>
        (\<exists>e. map_of es m = Some e \<and> (s = [] \<and> x = e \<or> (s, x) \<in> set (walk [] e)))"
      by (auto simp: walks_mem Cons mem)
    also have "\<dots> \<longleftrightarrow> look r (Dir es) = Some x"
    proof (cases "map_of es m")
      case None
      then show ?thesis by (simp add: Cons)
    next
      case (Some e)
      then have "(s, x) \<in> set (walk [] e) \<longleftrightarrow> s \<noteq> [] \<and> look s e = Some x"
        using ok_Dir(2) mem by blast
      then show ?thesis
        using Some by (cases s) (auto simp: Cons)
    qed
    finally show ?thesis by (simp add: Cons)
  qed
qed auto

lemma walks_hd: "(r, x) \<in> set (walks [] es) \<Longrightarrow> r \<noteq> [] \<and> hd r \<in> fst ` set es"
proof -
  assume "(r, x) \<in> set (walks [] es)"
  then obtain n e where "(n, e) \<in> set es" and "r = [n] \<or> (r, x) \<in> set (walk [n] e)"
    by (auto simp: walks_mem)
  moreover have "walk [n] e = map (\<lambda>(r, x). (n # r, x)) (walk [] e)"
    using walk_prefix(1) [of "[n]" "[]" e] by simp
  ultimately show ?thesis by force
qed

lemma walk_distinct: "tree_ok e \<Longrightarrow> distinct (map fst (walk [] e))"
proof (induction rule: tree_ok.induct)
  case (ok_Dir es)
  have "dict_ok fs \<Longrightarrow> set fs \<subseteq> set es \<Longrightarrow> distinct (map fst (walks [] fs))" for fs
  proof (induction fs)
    case Nil
    then show ?case by simp
  next
    case (Cons y fs)
    obtain n e where y: "y = (n, e)" by (cases y)
    have w: "walk [n] e = map (\<lambda>(r, x). (n # r, x)) (walk [] e)"
      using walk_prefix(1) [of "[n]" "[]" e] by simp
    have d: "distinct (map fst (walk [] e))" and nil: "\<forall>r \<in> set (map fst (walk [] e)). r \<noteq> []"
      using ok_Dir(2) [of n e] Cons.prems(2) y walk_look [of e] by auto
    have m: "map fst (walk [n] e) = map ((#) n) (map fst (walk [] e))"
      by (simp add: w comp_def case_prod_unfold)
    have "distinct (map fst (walk [n] e))"
      unfolding m distinct_map [of "(#) n"] using d by (simp add: inj_on_def)
    moreover have A: "\<forall>r \<in> set (map fst (walk [n] e)). r \<noteq> [n] \<and> r \<noteq> [] \<and> hd r = n"
      unfolding m set_map [of "(#) n"] using nil by auto
    moreover have n: "n \<notin> fst ` set fs" and "distinct (map fst (walks [] fs))"
      using Cons y by (auto simp: dict_ok_def)
    moreover have B: "\<forall>r \<in> set (map fst (walks [] fs)). hd r \<in> fst ` set fs"
      using walks_hd [of _ _ fs] by force
    moreover have "[n] \<notin> set (map fst (walk [n] e))"
      using A by blast
    moreover have "[n] \<notin> set (map fst (walks [] fs))"
      using B n by (metis list.sel(1))
    moreover have "set (map fst (walk [n] e)) \<inter> set (map fst (walks [] fs)) = {}"
    proof (rule equals0I)
      fix r assume "r \<in> set (map fst (walk [n] e)) \<inter> set (map fst (walks [] fs))"
      then have "r \<in> set (map fst (walk [n] e))" and "r \<in> set (map fst (walks [] fs))"
        by (simp_all only: Int_iff)
      then have "hd r = n" and "hd r \<in> fst ` set fs"
        using A B by (metis, metis)
      with n show False by simp
    qed
    ultimately have "distinct ([n] # map fst (walk [n] e) @ map fst (walks [] fs))"
      by (simp only: distinct.simps distinct_append set_append Un_iff simp_thms)
    then show ?case
      by (simp add: y)
  qed
  then show ?case
    using ok_Dir(1) by simp
qed simp_all

lemma look_parts: "tree_ok e \<Longrightarrow> look r e = Some x \<Longrightarrow> (\<forall>n \<in> set r. CHR ''/'' \<notin> set n) \<and> tree_ok x"
  by (induction r e rule: look.induct) (auto split: option.splits dest!: map_of_SomeD)

text \<open>An inventory that succeeds is the regular files of the tree, under their joined paths.\<close>

lemma inventory_loop_spec:
  assumes "inventory_loop ps result = Inr files" and "distinct (map (posix \<circ> fst) ps)"
    and "dict_ok result" and "\<forall>p \<in> fst ` set ps. posix p \<notin> fst ` set result"
  shows "dict_ok files \<and> (\<forall>k d. map_of files k = Some d \<longleftrightarrow>
      map_of result k = Some d \<or> (\<exists>p. (p, File d) \<in> set ps \<and> k = posix p))
    \<and> (\<forall>(p, e) \<in> set ps. e \<noteq> Link \<and> e \<noteq> Special)"
  using assms
proof (induction ps result rule: inventory_loop.induct)
  case (1 result)
  then show ?case by simp
next
  case (2 p e rest result)
  show ?case
  proof (cases e)
    case (File d)
    let ?r = "AList.update (posix p) d result"
    have a: "inventory_loop rest ?r = Inr files" and c: "dict_ok ?r"
      using 2 File by simp_all
    have d: "\<forall>q \<in> fst ` set rest. posix q \<notin> fst ` set ?r"
      using "2.prems"(2,4) by (auto simp: dom_update image_iff)
    have b: "distinct (map (posix \<circ> fst) rest)"
      using "2.prems"(2) by (simp add: comp_def)
    have ih: "dict_ok files \<and> (\<forall>k d. map_of files k = Some d \<longleftrightarrow>
        map_of ?r k = Some d \<or> (\<exists>q. (q, File d) \<in> set rest \<and> k = posix q))
      \<and> (\<forall>(q, e) \<in> set rest. e \<noteq> Link \<and> e \<noteq> Special)"
      by (rule "2.IH"(1) [OF File a b c d])
    have "map_of result (posix p) = None"
      using "2.prems"(4) by (simp add: map_of_eq_None_iff)
    with ih show ?thesis
      by (auto simp: File update_conv)
  next
    case (Dir es)
    then show ?thesis
      using 2 by simp
  qed (use 2 in simp_all)
qed

lemma inventory_spec:
  assumes i: "inventory root = Inr files" and t: "tree_ok root"
  shows "dict_ok files"
    and "map_of files k = Some d \<longleftrightarrow> (\<exists>p. p \<noteq> [] \<and> look p root = Some (File d) \<and> k = posix p)"
    and "p \<noteq> [] \<Longrightarrow> look p root = Some e \<Longrightarrow> e \<noteq> Link \<and> e \<noteq> Special"
proof -
  let ?ps = "sort_key fst (walk [] root)"
  have mem: "(r, x) \<in> set ?ps \<longleftrightarrow> r \<noteq> [] \<and> look r root = Some x" for r x
    using walk_look [OF t] by simp
  have inj: "inj_on posix (fst ` set ?ps)"
  proof (rule inj_onI)
    fix p q assume "p \<in> fst ` set ?ps" "q \<in> fst ` set ?ps" and eq: "posix p = posix q"
    then have "p \<noteq> []" "\<forall>x \<in> set p. CHR ''/'' \<notin> set x" "q \<noteq> []" "\<forall>x \<in> set q. CHR ''/'' \<notin> set x"
      using mem look_parts [OF t] by (fastforce simp del: set_sort)+
    with eq show "p = q"
      by (metis split_posix)
  qed
  have "distinct (map fst (walk [] root))"
    using walk_distinct [OF t] .
  then have "distinct (map (posix \<circ> fst) ?ps)"
    using inj by (simp add: distinct_map comp_inj_on)
  from inventory_loop_spec [OF i [unfolded inventory_def] this]
  have r: "dict_ok files" "\<And>k d. map_of files k = Some d \<longleftrightarrow> (\<exists>p. (p, File d) \<in> set ?ps \<and> k = posix p)"
    "\<forall>(p, e) \<in> set ?ps. e \<noteq> Link \<and> e \<noteq> Special"
    by auto
  show "dict_ok files" by (rule r(1))
  show "map_of files k = Some d \<longleftrightarrow> (\<exists>p. p \<noteq> [] \<and> look p root = Some (File d) \<and> k = posix p)"
    unfolding r(2) mem by blast
  show "p \<noteq> [] \<Longrightarrow> look p root = Some e \<Longrightarrow> e \<noteq> Link \<and> e \<noteq> Special"
    using r(3) mem [of p e] by blast
qed

section \<open>Properties\<close>

text \<open>
  C21: A path that \<open>safe_path\<close> lets through cannot leave the directory it is joined to: the joined
  path resolves to the resolved directory followed by the parts, of which there is at least one,
  and the parts spell the name.
\<close>

theorem safe_path_contained:
  assumes "safe_path v = Inr p"
  shows "resolve (joinpath d p) = resolve d @ p \<and> p \<noteq> [] \<and> v = JStr (posix p)"
  using safe_path_parts [OF assms] assms by (auto simp: resolve_below safe_path_Inr)

theorem safe_path_contained_witness:
  "resolve (joinpath [''cache'', ''x''] [''include'', ''a.capnp'']) = [''cache'', ''x'', ''include'', ''a.capnp'']"
proof -
  have "safe_path (JStr ''include/a.capnp'') = Inr [''include'', ''a.capnp'']"
    by (simp add: safe_path_def split_slash_def)
  from safe_path_contained [OF this, of "[''cache'', ''x'']"] show ?thesis
    by (simp add: resolve_def)
qed

end
