(* ===== verification/Tool_Package.thy ===== *)
theory Tool_Package
  imports Tool_Files Wire
begin

text \<open>
  The package checks of \<open>tools/capnp_tool.py\<close>: \<open>includes_digest\<close>, \<open>extract_archive\<close>,
  \<open>verify_package\<close>, \<open>tool_pin\<close> and \<open>installed_package\<close> (lines 49 to 127). The members of an archive
  and the JSON parser \<open>loads\<close> are parameters; nothing is assumed of the parser. The lemmas show
  that extraction writes exactly the archive's regular files and that a pin determines the
  contents of every package it accepts.
\<close>

section \<open>Extraction\<close>

datatype member_kind = Regular bytes | Directory | OtherKind

record member =
  member_name :: string
  member_kind :: member_kind

text \<open>\<open>name.rstrip("/")\<close>\<close>

definition rstrip_slash :: "string \<Rightarrow> string" where
  "rstrip_slash s = rev (dropWhile (\<lambda>c. c = CHR ''/'') (rev s))"

fun validate_members :: "member list \<Rightarrow> string set \<Rightarrow> unit result" where
  "validate_members [] seen = Inr ()"
| "validate_members (m # ms) seen =
     (let name = rstrip_slash (member_name m) in
      bindE (safe_path (JStr name)) (\<lambda>_.
      bindE (require (\<not> (name \<in> seen \<or> member_kind m = OtherKind)) ''unsafe or duplicate archive member'') (\<lambda>_.
        validate_members ms (insert name seen))))"

text \<open>\<open>path.mkdir(parents=True, exist_ok=True)\<close> below a directory.\<close>

fun mkdirs :: "path \<Rightarrow> entry \<Rightarrow> entry result" where
  "mkdirs [] (Dir es) = Inr (Dir es)"
| "mkdirs (n # p) (Dir es) =
     (case map_of es n of
        None \<Rightarrow> bindE (mkdirs p (Dir [])) (\<lambda>e. Inr (Dir (es @ [(n, e)])))
      | Some e \<Rightarrow> bindE (mkdirs p e) (\<lambda>e'. Inr (Dir (AList.update n e' es))))"
| "mkdirs p _ = Inl (OSError ''not a directory'')"

text \<open>\<open>path.open("xb")\<close> and the copy: the file must not exist, its directory must.\<close>

fun write_new :: "path \<Rightarrow> bytes \<Rightarrow> entry \<Rightarrow> entry result" where
  "write_new [n] d (Dir es) =
     (if map_of es n = None then Inr (Dir (es @ [(n, File d)])) else Inl (OSError ''file exists''))"
| "write_new (n # m # p) d (Dir es) =
     (case map_of es n of
        None \<Rightarrow> Inl (OSError ''no such file or directory'')
      | Some e \<Rightarrow> bindE (write_new (m # p) d e) (\<lambda>e'. Inr (Dir (AList.update n e' es))))"
| "write_new p d _ = Inl (OSError ''not a directory'')"

definition extract_member :: "member \<Rightarrow> entry \<Rightarrow> entry result" where
  "extract_member m tree =
     bindE (safe_path (JStr (rstrip_slash (member_name m)))) (\<lambda>parts.
     case member_kind m of
       Regular d \<Rightarrow> bindE (mkdirs (butlast parts) tree) (write_new parts d)
     | _ \<Rightarrow> mkdirs parts tree)"

fun extract_members :: "member list \<Rightarrow> entry \<Rightarrow> entry result" where
  "extract_members [] tree = Inr tree"
| "extract_members (m # ms) tree = bindE (extract_member m tree) (extract_members ms)"

text \<open>Both callers extract into a directory they have just made.\<close>

definition extract_archive :: "member list \<Rightarrow> entry result" where
  "extract_archive members =
     bindE (validate_members members {}) (\<lambda>_. extract_members members (Dir []))"

section \<open>Verification\<close>

definition hexdigest :: "bytes \<Rightarrow> string" where
  "hexdigest d = hex (digest d)"

text \<open>\<open>text.encode()\<close> for characters below 256.\<close>

definition utf8 :: "string \<Rightarrow> bytes" where
  "utf8 s = concat (map (\<lambda>c. let n = of_char c :: nat in
     if n < 128 then [of_nat n] else [of_nat (192 + n div 64), of_nat (128 + n mod 64)]) s)"

definition includes_digest :: "(string, bytes) dict \<Rightarrow> string" where
  "includes_digest files = hexdigest (utf8 (concat (map (\<lambda>(name, data). hexdigest data @ ''  '' @ name @ [CHR 10])
     (filter (\<lambda>(name, data). take 8 name = ''include/'') (sorted_items files)))))"

type_synonym pin = "(string, json) dict"

definition check_entry :: "(string, bytes) dict \<Rightarrow> json \<Rightarrow> string list \<Rightarrow> string list result" where
  "check_entry files e expected =
     bindE (json_index e ''path'') (\<lambda>p.
     bindE (safe_path p) (\<lambda>parts.
     let name = posix parts in
     bindE (require (name \<notin> set expected) ''duplicate manifest entry'') (\<lambda>_.
     bindE (case map_of files name of
         None \<Rightarrow> Inr False
       | Some data \<Rightarrow>
           bindE (json_index e ''bytes'') (\<lambda>n.
           if JInt (int (length data)) \<noteq> n then Inr False
           else bindE (json_index e ''sha256'') (\<lambda>h. Inr (JStr (hexdigest data) = h)))) (\<lambda>ok.
     bindE (require ok ''tool package integrity mismatch'') (\<lambda>_. Inr (name # expected))))))"

fun check_entries :: "(string, bytes) dict \<Rightarrow> json list \<Rightarrow> string list \<Rightarrow> string list result" where
  "check_entries files [] expected = Inr expected"
| "check_entries files (e # es) expected = bindE (check_entry files e expected) (check_entries files es)"

definition verify_package :: "(bytes \<Rightarrow> json result) \<Rightarrow> entry \<Rightarrow> pin \<Rightarrow> unit result" where
  "verify_package loads package pin =
     bindE (require (package \<noteq> Link) ''tool package must not be a symlink'') (\<lambda>_.
     bindE (inventory package) (\<lambda>files.
     let raw_manifest = (case map_of files ''manifest.json'' of None \<Rightarrow> [] | Some d \<Rightarrow> d) in
     bindE (dict_index pin ''manifest_sha256'') (\<lambda>h.
     bindE (require (JStr (hexdigest raw_manifest) = h) ''tool package manifest digest mismatch'') (\<lambda>_.
     bindE (loads raw_manifest) (\<lambda>manifest.
     bindE (json_index manifest ''source'') (\<lambda>source.
     bindE (json_index source ''commit'') (\<lambda>commit.
     bindE (dict_index pin ''source_commit'') (\<lambda>pinned.
     bindE (if commit \<noteq> pinned then Inr True
            else bindE (json_index source ''dirty'') (\<lambda>dirty. Inr (truthy dirty))) (\<lambda>bad.
     bindE (require (\<not> bad) ''tool package source identity mismatch'') (\<lambda>_.
     bindE (json_index manifest ''files'') (\<lambda>listed.
     bindE (json_items listed) (\<lambda>entries.
     bindE (check_entries files entries [''manifest.json'']) (\<lambda>expected.
     bindE (require (fst ` set files = set expected) ''tool package inventory mismatch'') (\<lambda>_.
     bindE (dict_index files ''wasm/capnp.wasm'') (\<lambda>compiler.
     bindE (dict_index pin ''compiler_sha256'') (\<lambda>c.
     bindE (require (JStr (hexdigest compiler) = c) ''compiler digest mismatch'') (\<lambda>_.
     bindE (dict_index pin ''include_sha256'') (\<lambda>i.
       require (JStr (includes_digest files) = i) ''standard includes digest mismatch''))))))))))))))))))"

text \<open>\<open>re.fullmatch("[0-9a-f]{64}", value)\<close>\<close>

definition lower_hex :: "char \<Rightarrow> bool" where
  "lower_hex c = (let n = of_char c :: nat in 48 \<le> n \<and> n \<le> 57 \<or> 97 \<le> n \<and> n \<le> 102)"

definition digest_field :: "pin \<Rightarrow> string \<Rightarrow> unit result" where
  "digest_field pin k =
     bindE (dict_index pin k) (\<lambda>v.
     case v of
       JStr s \<Rightarrow> require (length s = 64 \<and> (\<forall>c \<in> set s. lower_hex c)) ''invalid compiler lock digest''
     | _ \<Rightarrow> Inl TypeError)"

definition tool_pin :: "pin \<Rightarrow> pin result" where
  "tool_pin pin =
     bindE (require (map_of pin ''format'' = Some (JInt 1)) ''unsupported compiler lock format'') (\<lambda>_.
     bindE (forE (digest_field pin) [''sha256'', ''manifest_sha256'', ''compiler_sha256'', ''include_sha256'']) (\<lambda>_.
       Inr pin))"

text \<open>The package directory of the pin in the cache, when it exists.\<close>

definition installed_package :: "(bytes \<Rightarrow> json result) \<Rightarrow> pin \<Rightarrow> (string \<Rightarrow> entry option) \<Rightarrow> entry result" where
  "installed_package loads doc artifacts =
     bindE (tool_pin doc) (\<lambda>pin.
     bindE (dict_index pin ''sha256'') (\<lambda>h.
     case h of
       JStr s \<Rightarrow> (case artifacts s of
           None \<Rightarrow> Inl (ValueError ''WASM compiler is not installed; run just bootstrap-toolchain'')
         | Some package \<Rightarrow> bindE (verify_package loads package pin) (\<lambda>_. Inr package))
     | _ \<Rightarrow> Inl TypeError))"

section \<open>What extraction writes\<close>

definition leaf :: "entry \<Rightarrow> bool" where
  "leaf e \<longleftrightarrow> (\<forall>es. e \<noteq> Dir es)"

lemma leaf_simps [simp]: "leaf (File d)" "leaf Link" "leaf Special" "\<not> leaf (Dir es)"
  by (simp_all add: leaf_def)

lemma tree_ok_update:
  "tree_ok (Dir es) \<Longrightarrow> CHR ''/'' \<notin> set n \<Longrightarrow> tree_ok e \<Longrightarrow> tree_ok (Dir (AList.update n e es))"
proof -
  assume es: "tree_ok (Dir es)" and n: "CHR ''/'' \<notin> set n" and e: "tree_ok e"
  have "set (AList.update n e es) \<subseteq> insert (n, e) (set es)"
    by (induction es) auto
  then show ?thesis
    using es n e by auto
qed

lemma update_absent: "map_of es n = None \<Longrightarrow> es @ [(n, e)] = AList.update n e es"
  by (simp add: update_new_key map_of_eq_None_iff)

lemma look_update:
  "look (m # q) (Dir (AList.update n e es)) = (if m = n then look q e else look (m # q) (Dir es))"
  by (simp add: update_conv)

lemma update_leaf:
  assumes "leaf x" and "\<And>r. look r e' = Some x \<longleftrightarrow> (case map_of es n of None \<Rightarrow> False | Some e \<Rightarrow> look r e = Some x) \<or> P r"
    and "\<And>q. Q q \<longleftrightarrow> (\<exists>r. q = n # r \<and> P r)"
  shows "look q (Dir (AList.update n e' es)) = Some x \<longleftrightarrow> look q (Dir es) = Some x \<or> Q q"
proof (cases q)
  case Nil
  then show ?thesis using assms(1,3) by auto
next
  case (Cons m r)
  then show ?thesis
    using assms(2) [of r] assms(3) [of q] unfolding Cons look_update by (auto split: option.splits)
qed

lemma look_Dir_Nil: "leaf x \<Longrightarrow> look q (Dir []) \<noteq> Some x"
  by (cases q) auto

lemma mkdirs_leaf:
  "mkdirs p t = Inr t' \<Longrightarrow> leaf x \<Longrightarrow> look q t' = Some x \<longleftrightarrow> look q t = Some x"
proof (induction p t arbitrary: t' q rule: mkdirs.induct)
  case (2 n p es)
  show ?case
  proof (cases "map_of es n")
    case None
    then obtain e where m: "mkdirs p (Dir []) = Inr e" and t': "t' = Dir (AList.update n e es)"
      using "2.prems"(1) update_absent [OF None] by (auto simp: bindE_Inr_iff)
    show ?thesis
      using update_leaf [OF "2.prems"(2), of e es n "\<lambda>r. False" "\<lambda>r. False"] "2.IH"(1) [OF None m "2.prems"(2)]
        look_Dir_Nil [OF "2.prems"(2)] None t' by simp
  next
    case (Some e)
    then obtain e' where m: "mkdirs p e = Inr e'" and t': "t' = Dir (AList.update n e' es)"
      using "2.prems"(1) by (auto simp: bindE_Inr_iff)
    show ?thesis
      using update_leaf [OF "2.prems"(2), of e' es n "\<lambda>r. False" "\<lambda>r. False"] "2.IH"(2) [OF Some m "2.prems"(2)]
        Some t' by simp
  qed
qed simp_all

lemma mkdirs_tree:
  "mkdirs p t = Inr t' \<Longrightarrow> tree_ok t \<Longrightarrow> \<forall>n \<in> set p. CHR ''/'' \<notin> set n \<Longrightarrow> tree_ok t' \<and> (\<exists>es. t' = Dir es)"
proof (induction p t arbitrary: t' rule: mkdirs.induct)
  case (2 n p es)
  show ?case
  proof (cases "map_of es n")
    case None
    then obtain e where m: "mkdirs p (Dir []) = Inr e" and t': "t' = Dir (AList.update n e es)"
      using "2.prems"(1) update_absent [OF None] by (auto simp: bindE_Inr_iff)
    then have "tree_ok e" using "2.IH"(1) [OF None m] "2.prems"(3) by simp
    then show ?thesis
      using tree_ok_update [OF "2.prems"(2), of n e] "2.prems"(3) t' by simp
  next
    case (Some e)
    then obtain e' where m: "mkdirs p e = Inr e'" and t': "t' = Dir (AList.update n e' es)"
      using "2.prems"(1) by (auto simp: bindE_Inr_iff)
    have "tree_ok e" using "2.prems"(2) Some by (auto dest: map_of_SomeD)
    then have "tree_ok e'" using "2.IH"(2) [OF Some m] "2.prems"(3) by simp
    then show ?thesis
      using tree_ok_update [OF "2.prems"(2), of n e'] "2.prems"(3) t' by simp
  qed
qed auto

lemma write_new_leaf:
  "write_new p d t = Inr t' \<Longrightarrow> leaf x \<Longrightarrow> look q t' = Some x \<longleftrightarrow> look q t = Some x \<or> q = p \<and> x = File d"
proof (induction p d t arbitrary: t' q rule: write_new.induct)
  case (1 n d es)
  then have None: "map_of es n = None" and t': "t' = Dir (AList.update n (File d) es)"
    using update_absent [of es n "File d"] by (auto split: if_splits)
  have "look r (File d) = Some x \<longleftrightarrow> r = [] \<and> x = File d" for r
    by (cases r) auto
  then show ?case
    using update_leaf [OF "1.prems"(2), of "File d" es n "\<lambda>r. r = [] \<and> x = File d" "\<lambda>q. q = [n] \<and> x = File d"] None t'
    by simp
next
  case (2 n m p d es)
  then obtain e e' where e: "map_of es n = Some e" and w: "write_new (m # p) d e = Inr e'"
    and t': "t' = Dir (AList.update n e' es)"
    by (auto simp: bindE_Inr_iff split: option.splits)
  show ?case
    using update_leaf [OF "2.prems"(2), of e' es n "\<lambda>r. r = m # p \<and> x = File d" "\<lambda>q. q = n # m # p \<and> x = File d"]
      "2.IH" [OF e w "2.prems"(2)] e t' by simp
qed simp_all

lemma write_new_tree:
  "write_new p d t = Inr t' \<Longrightarrow> tree_ok t \<Longrightarrow> \<forall>n \<in> set p. CHR ''/'' \<notin> set n \<Longrightarrow> tree_ok t' \<and> (\<exists>es. t' = Dir es)"
proof (induction p d t arbitrary: t' rule: write_new.induct)
  case (1 n d es)
  then show ?case
    using update_absent [of es n "File d"] tree_ok_update [OF "1.prems"(2), of n "File d"] by (auto split: if_splits)
next
  case (2 n m p d es)
  then obtain e e' where e: "map_of es n = Some e" and w: "write_new (m # p) d e = Inr e'"
    and t': "t' = Dir (AList.update n e' es)"
    by (auto simp: bindE_Inr_iff split: option.splits)
  have "tree_ok e" using "2.prems"(2) e by (auto dest: map_of_SomeD)
  then show ?case
    using "2.IH" [OF e w] "2.prems"(3) tree_ok_update [OF "2.prems"(2), of n e'] t' by auto
qed simp_all

lemma extract_member_spec:
  assumes x: "extract_member m t = Inr t'" and t: "tree_ok t"
  shows "tree_ok t' \<and> (\<exists>es. t' = Dir es) \<and> (\<forall>q x. leaf x \<longrightarrow> look q t' = Some x \<longleftrightarrow> look q t = Some x
    \<or> (\<exists>d. member_kind m = Regular d \<and> safe_path (JStr (rstrip_slash (member_name m))) = Inr q \<and> x = File d))"
proof -
  obtain p where p: "safe_path (JStr (rstrip_slash (member_name m))) = Inr p"
    using x by (auto simp: extract_member_def bindE_Inr_iff)
  then have slash: "\<forall>n \<in> set p. CHR ''/'' \<notin> set n"
    using safe_path_parts(2) by (auto simp: part_ok_def)
  show ?thesis
  proof (cases "\<exists>d. member_kind m = Regular d")
    case True
    then obtain d where d: "member_kind m = Regular d" by blast
    then obtain t1 where 1: "mkdirs (butlast p) t = Inr t1" "write_new p d t1 = Inr t'"
      using x p by (auto simp: extract_member_def bindE_Inr_iff)
    have "\<forall>n \<in> set (butlast p). CHR ''/'' \<notin> set n"
      using slash by (auto dest: in_set_butlastD)
    then have "tree_ok t1" and same: "\<forall>q x. leaf x \<longrightarrow> look q t1 = Some x \<longleftrightarrow> look q t = Some x"
      using mkdirs_tree [OF 1(1) t] mkdirs_leaf [OF 1(1)] by blast+
    then show ?thesis
      using write_new_tree [OF 1(2) _ slash] write_new_leaf [OF 1(2)] d p by auto
  next
    case False
    then have "mkdirs p t = Inr t'"
      using x p by (auto simp: extract_member_def bindE_Inr_iff split: member_kind.splits)
    then show ?thesis
      using mkdirs_tree [OF _ t slash] mkdirs_leaf False by auto
  qed
qed

lemma extract_members_spec:
  assumes "extract_members ms t = Inr t'" and "tree_ok t"
  shows "tree_ok t' \<and> (\<forall>q x. leaf x \<longrightarrow> look q t' = Some x \<longleftrightarrow> look q t = Some x
    \<or> (\<exists>m \<in> set ms. \<exists>d. member_kind m = Regular d \<and> safe_path (JStr (rstrip_slash (member_name m))) = Inr q \<and> x = File d))"
  using assms
proof (induction ms arbitrary: t)
  case Nil
  then show ?case by simp
next
  case (Cons m ms)
  then obtain t1 where 1: "extract_member m t = Inr t1" "extract_members ms t1 = Inr t'"
    by (auto simp: bindE_Inr_iff)
  note s = extract_member_spec [OF 1(1) Cons.prems(2)]
  with Cons.IH [OF 1(2)] show ?case by auto
qed

lemma inventory_loop_total:
  "\<forall>(p, e) \<in> set ps. e \<noteq> Link \<and> e \<noteq> Special \<Longrightarrow> \<exists>files. inventory_loop ps result = Inr files"
  by (induction ps result rule: inventory_loop.induct) (auto split: entry.splits)

lemma inventory_total:
  assumes "tree_ok t" and "\<And>p e. look p t = Some e \<Longrightarrow> e \<noteq> Link \<and> e \<noteq> Special"
  shows "\<exists>files. inventory t = Inr files"
  unfolding inventory_def using walk_look [OF assms(1)] assms(2) by (intro inventory_loop_total) auto

lemma extract_archive_files:
  assumes "extract_archive ms = Inr t"
  shows "tree_ok t" and "leaf x \<Longrightarrow> look q t = Some x \<longleftrightarrow> (\<exists>m \<in> set ms. \<exists>d. member_kind m = Regular d
    \<and> safe_path (JStr (rstrip_slash (member_name m))) = Inr q \<and> x = File d)"
proof -
  have "extract_members ms (Dir []) = Inr t"
    using assms by (auto simp: extract_archive_def bindE_Inr_iff)
  from extract_members_spec [OF this]
  have s: "tree_ok t \<and> (\<forall>q x. leaf x \<longrightarrow> look q t = Some x \<longleftrightarrow> look q (Dir []) = Some x
    \<or> (\<exists>m \<in> set ms. \<exists>d. member_kind m = Regular d \<and> safe_path (JStr (rstrip_slash (member_name m))) = Inr q \<and> x = File d))"
    by simp
  then show "tree_ok t" by blast
  show "leaf x \<Longrightarrow> look q t = Some x \<longleftrightarrow> (\<exists>m \<in> set ms. \<exists>d. member_kind m = Regular d
    \<and> safe_path (JStr (rstrip_slash (member_name m))) = Inr q \<and> x = File d)"
  proof -
    assume x: "leaf x"
    then have "look q (Dir []) \<noteq> Some x" by (cases q) auto
    with x s show ?thesis by blast
  qed
qed

lemma validate_members_safe:
  "validate_members ms seen = Inr u \<Longrightarrow> \<forall>m \<in> set ms. member_kind m \<noteq> OtherKind
     \<and> (\<exists>p. safe_path (JStr (rstrip_slash (member_name m))) = Inr p)"
  by (induction ms arbitrary: seen) (auto simp: Let_def bindE_Inr_iff)

section \<open>What verification accepts\<close>

text \<open>The name a manifest entry gives, and the digest.\<close>

definition entry_name :: "json \<Rightarrow> string \<Rightarrow> bool" where
  "entry_name e name \<longleftrightarrow> (\<exists>v p. json_index e ''path'' = Inr v \<and> safe_path v = Inr p \<and> name = posix p)"

definition entry_data :: "json \<Rightarrow> bytes \<Rightarrow> bool" where
  "entry_data e data \<longleftrightarrow> json_index e ''bytes'' = Inr (JInt (int (length data)))
     \<and> json_index e ''sha256'' = Inr (JStr (hexdigest data))"

lemma entry_name_unique: "entry_name e a \<Longrightarrow> entry_name e b \<Longrightarrow> a = b"
  by (auto simp: entry_name_def)

lemma entry_data_unique: "entry_data e a \<Longrightarrow> entry_data e b \<Longrightarrow> digest a = digest b"
  by (auto simp: entry_data_def hexdigest_def)

lemma check_entry_Inr:
  assumes "check_entry files e expected = Inr expected'"
  shows "\<exists>name data. entry_name e name \<and> name \<notin> set expected \<and> map_of files name = Some data
    \<and> entry_data e data \<and> expected' = name # expected"
  using assms unfolding check_entry_def entry_name_def entry_data_def
  by (auto simp: Let_def bindE_Inr_iff split: option.splits if_splits)

lemma check_entries_Inr:
  "check_entries files es expected = Inr expected' \<Longrightarrow> \<exists>names. set expected' = set names \<union> set expected
     \<and> list_all2 (\<lambda>e name. entry_name e name \<and> (\<exists>data. map_of files name = Some data \<and> entry_data e data)) es names"
proof (induction es arbitrary: expected)
  case Nil
  then show ?case by (intro exI [of _ "[]"]) simp
next
  case (Cons e es)
  then obtain x1 where 1: "check_entry files e expected = Inr x1" "check_entries files es x1 = Inr expected'"
    by (auto simp: bindE_Inr_iff)
  obtain name data where n: "entry_name e name" "map_of files name = Some data" "entry_data e data" "x1 = name # expected"
    using check_entry_Inr [OF 1(1)] by blast
  obtain names where "set expected' = set names \<union> set x1"
    "list_all2 (\<lambda>e name. entry_name e name \<and> (\<exists>data. map_of files name = Some data \<and> entry_data e data)) es names"
    using Cons.IH [OF 1(2)] by blast
  then show ?case
    using n by (intro exI [of _ "name # names"]) auto
qed

text \<open>The contents of a package the verification accepts under a pin.\<close>

definition verified :: "(bytes \<Rightarrow> json result) \<Rightarrow> (string, bytes) dict \<Rightarrow> pin \<Rightarrow> bytes \<Rightarrow> json list \<Rightarrow> string list \<Rightarrow> bool" where
  "verified loads files pin raw entries names \<longleftrightarrow>
     map_of files ''manifest.json'' = Some raw
     \<and> map_of pin ''manifest_sha256'' = Some (JStr (hexdigest raw))
     \<and> (\<exists>manifest listed. loads raw = Inr manifest \<and> json_index manifest ''files'' = Inr listed
          \<and> json_items listed = Inr entries)
     \<and> list_all2 (\<lambda>e name. entry_name e name \<and> (\<exists>data. map_of files name = Some data \<and> entry_data e data)) entries names
     \<and> fst ` set files = insert ''manifest.json'' (set names)
     \<and> (\<exists>compiler. map_of files ''wasm/capnp.wasm'' = Some compiler
          \<and> map_of pin ''compiler_sha256'' = Some (JStr (hexdigest compiler)))
     \<and> map_of pin ''include_sha256'' = Some (JStr (includes_digest files))"

lemma verify_package_Inr:
  assumes "verify_package loads package pin = Inr u"
  shows "\<exists>files raw entries names. inventory package = Inr files \<and> verified loads files pin raw entries names"
proof -
  obtain files h manifest listed entries expected compiler c i v where
    f: "inventory package = Inr files"
    and h: "map_of pin ''manifest_sha256'' = Some h"
      "JStr (hexdigest (case map_of files ''manifest.json'' of None \<Rightarrow> [] | Some d \<Rightarrow> d)) = h"
    and m: "loads (case map_of files ''manifest.json'' of None \<Rightarrow> [] | Some d \<Rightarrow> d) = Inr manifest"
      "json_index manifest ''files'' = Inr listed" "json_items listed = Inr entries"
    and e: "check_entries files entries [''manifest.json''] = Inr expected" "fst ` set files = set expected"
    and c: "map_of files ''wasm/capnp.wasm'' = Some compiler" "map_of pin ''compiler_sha256'' = Some c"
      "JStr (hexdigest compiler) = c"
    and i: "map_of pin ''include_sha256'' = Some i" "JStr (includes_digest files) = i"
    using assms unfolding verify_package_def
    by (auto simp: Let_def bindE_Inr_iff dict_index_Inr_iff simp del: split_paired_Ex)
  obtain names where n: "set expected = set names \<union> set [''manifest.json'']"
    "list_all2 (\<lambda>e name. entry_name e name \<and> (\<exists>data. map_of files name = Some data \<and> entry_data e data)) entries names"
    using check_entries_Inr [OF e(1)] by blast
  have keys: "fst ` set files = insert ''manifest.json'' (set names)"
    using e(2) n(1) by auto
  then have "''manifest.json'' \<in> fst ` set files" by simp
  then obtain raw where raw: "map_of files ''manifest.json'' = Some raw"
    by (metis map_of_eq_None_iff not_None_eq)
  then have "verified loads files pin raw entries names"
    unfolding verified_def using h m n(2) keys c i by auto
  then show ?thesis
    using f by blast
qed

text \<open>One pin, one content: the manifests agree, and then every listed file does.\<close>

lemma verified_unique:
  assumes a: "verified loads fa pin ra ea na" and b: "verified loads fb pin rb eb nb"
    and ok: "dict_ok fa" "dict_ok fb" and nc: "\<not> collision (ran (map_of fa)) (ran (map_of fb))"
  shows "map_of fa = map_of fb"
proof -
  have "digest ra = digest rb"
    using a b by (auto simp: verified_def hexdigest_def)
  moreover have "ra \<in> ran (map_of fa)" "rb \<in> ran (map_of fb)"
    using a b by (auto simp: verified_def ran_def)
  ultimately have r: "ra = rb"
    using no_collisionD [OF nc] by blast
  then have e: "ea = eb"
    using a b by (auto simp: verified_def)
  have la: "list_all2 (\<lambda>e name. entry_name e name \<and> (\<exists>data. map_of fa name = Some data \<and> entry_data e data)) ea na"
    and lb: "list_all2 (\<lambda>e name. entry_name e name \<and> (\<exists>data. map_of fb name = Some data \<and> entry_data e data)) ea nb"
    using a b e by (auto simp: verified_def)
  have "na = nb"
  proof (rule nth_equalityI)
    show l: "length na = length nb"
      using list_all2_lengthD [OF la] list_all2_lengthD [OF lb] by simp
    fix i assume "i < length na"
    then have "entry_name (ea ! i) (na ! i)" "entry_name (ea ! i) (nb ! i)"
      using list_all2_nthD2 [OF la, of i] list_all2_nthD2 [OF lb, of i] l by simp_all
    then show "na ! i = nb ! i"
      by (rule entry_name_unique)
  qed
  have same: "map_of fa name = map_of fb name" if n: "name \<in> set na" for name
  proof -
    obtain k where k: "k < length na" "na ! k = name"
      using n by (auto simp: in_set_conv_nth)
    then obtain da db where d: "map_of fa name = Some da" "entry_data (ea ! k) da"
      "map_of fb name = Some db" "entry_data (ea ! k) db"
      using list_all2_nthD2 [OF la, of k] list_all2_nthD2 [OF lb, of k] \<open>na = nb\<close> by auto
    then have "digest da = digest db"
      by (blast intro: entry_data_unique)
    then have "da = db"
      using no_collisionD [OF nc] d(1,3) by (metis ranI)
    with d show ?thesis by simp
  qed
  show ?thesis
  proof
    fix k
    show "map_of fa k = map_of fb k"
    proof (cases "k \<in> set na")
      case True
      then show ?thesis by (rule same)
    next
      case False
      show ?thesis
      proof (cases "k = ''manifest.json''")
        case True
        then show ?thesis using a b r by (simp add: verified_def)
      next
        case other: False
        then have "k \<notin> fst ` set fa" "k \<notin> fst ` set fb"
          using False a b \<open>na = nb\<close> by (auto simp: verified_def)
        then have "map_of fa k = None" "map_of fb k = None"
          by (simp_all add: map_of_eq_None_iff)
        then show ?thesis by simp
      qed
    qed
  qed
qed

section \<open>A small package\<close>

definition demo_manifest :: json where
  "demo_manifest = JObj [(''files'', JList [JObj [(''bytes'', JInt 1), (''path'', JStr ''wasm/capnp.wasm''),
       (''sha256'', JStr (hexdigest [0]))]]),
     (''source'', JObj [(''commit'', JStr ''c''), (''dirty'', JInt 0)])]"

definition demo_loads :: "bytes \<Rightarrow> json result" where
  "demo_loads raw = Inr demo_manifest"

definition demo_package :: entry where
  "demo_package = Dir [(''manifest.json'', File [1]), (''wasm'', Dir [(''capnp.wasm'', File [0])])]"

definition demo_files :: "(string, bytes) dict" where
  "demo_files = [(''manifest.json'', [1]), (''wasm/capnp.wasm'', [0])]"

definition demo_pin :: pin where
  "demo_pin = [(''manifest_sha256'', JStr (hexdigest [1])), (''source_commit'', JStr ''c''),
     (''compiler_sha256'', JStr (hexdigest [0])), (''include_sha256'', JStr (includes_digest demo_files))]"

lemma demo_inventory: "inventory demo_package = Inr demo_files"
  by (simp add: inventory_def demo_package_def demo_files_def posix_def)

lemma demo_tree_ok: "tree_ok demo_package"
  by (simp add: demo_package_def dict_ok_def)

lemma demo_safe: "safe_path (JStr ''wasm/capnp.wasm'') = Inr [''wasm'', ''capnp.wasm'']"
  by (simp add: safe_path_def split_slash_def)

lemma demo_verified: "verify_package demo_loads demo_package demo_pin = Inr ()"
  unfolding verify_package_def demo_inventory
  by (simp add: demo_package_def demo_files_def demo_pin_def demo_loads_def demo_manifest_def dict_index_def
      check_entry_def demo_safe posix_def require_def insert_commute)

text \<open>The same package with its directory in another order.\<close>

definition demo_copy :: entry where
  "demo_copy = Dir [(''wasm'', Dir [(''capnp.wasm'', File [0])]), (''manifest.json'', File [1])]"

lemma demo_copy_facts:
  "tree_ok demo_copy" "inventory demo_copy = Inr demo_files" "verify_package demo_loads demo_copy demo_pin = Inr ()"
proof -
  show "tree_ok demo_copy"
    by (simp add: demo_copy_def dict_ok_def)
  show i: "inventory demo_copy = Inr demo_files"
    by (simp add: inventory_def demo_copy_def demo_files_def posix_def)
  have "demo_copy \<noteq> Link" "demo_package \<noteq> Link"
    by (simp_all add: demo_copy_def demo_package_def)
  then have "verify_package demo_loads demo_copy demo_pin = verify_package demo_loads demo_package demo_pin"
    by (simp add: verify_package_def i demo_inventory)
  then show "verify_package demo_loads demo_copy demo_pin = Inr ()"
    by (simp add: demo_verified)
qed

section \<open>Properties\<close>

text \<open>
  C20: Extraction is exact: when \<open>extract_archive\<close> returns, every member was a regular file or a
  directory with a safe name, and the inventory of what it wrote holds the archive's regular
  files, each under its name, and nothing else.
\<close>

theorem extract_exact:
  assumes "extract_archive ms = Inr t"
  shows "(\<forall>m \<in> set ms. member_kind m \<noteq> OtherKind \<and> (\<exists>p. safe_path (JStr (rstrip_slash (member_name m))) = Inr p))
    \<and> (\<exists>files. inventory t = Inr files \<and> (\<forall>k d. map_of files k = Some d
        \<longleftrightarrow> (\<exists>m \<in> set ms. member_kind m = Regular d \<and> rstrip_slash (member_name m) = k)))"
proof -
  note e = extract_archive_files [OF assms]
  have valid: "\<forall>m \<in> set ms. member_kind m \<noteq> OtherKind \<and> (\<exists>p. safe_path (JStr (rstrip_slash (member_name m))) = Inr p)"
    using assms validate_members_safe by (fastforce simp: extract_archive_def bindE_Inr_iff)
  obtain files where f: "inventory t = Inr files"
    using inventory_total [OF e(1)] e(2) [of Link] e(2) [of Special] by fastforce
  have "map_of files k = Some d \<longleftrightarrow> (\<exists>m \<in> set ms. member_kind m = Regular d \<and> rstrip_slash (member_name m) = k)" for k d
  proof -
    have "map_of files k = Some d \<longleftrightarrow> (\<exists>p. p \<noteq> [] \<and> look p t = Some (File d) \<and> k = posix p)"
      by (rule inventory_spec(2) [OF f e(1)])
    also have "\<dots> \<longleftrightarrow> (\<exists>p. \<exists>m \<in> set ms. member_kind m = Regular d
        \<and> safe_path (JStr (rstrip_slash (member_name m))) = Inr p \<and> k = posix p)"
      using e(2) [of "File d"] safe_path_parts(1) by auto
    also have "\<dots> \<longleftrightarrow> (\<exists>m \<in> set ms. member_kind m = Regular d \<and> rstrip_slash (member_name m) = k)"
      using valid safe_path_posix by metis
    finally show ?thesis .
  qed
  with valid f show ?thesis by blast
qed

theorem extract_exact_witness:
  "\<exists>t files. extract_archive [\<lparr>member_name = ''package/'', member_kind = Directory\<rparr>,
      \<lparr>member_name = ''package/a'', member_kind = Regular [7]\<rparr>] = Inr t
    \<and> inventory t = Inr files \<and> map_of files ''package/a'' = Some [7]"
proof -
  have s: "safe_path (JStr ''package'') = Inr [''package'']" "safe_path (JStr ''package/a'') = Inr [''package'', ''a'']"
    by (simp_all add: safe_path_def split_slash_def)
  have e: "extract_archive [\<lparr>member_name = ''package/'', member_kind = Directory\<rparr>,
      \<lparr>member_name = ''package/a'', member_kind = Regular [7]\<rparr>] = Inr (Dir [(''package'', Dir [(''a'', File [7])])])"
    by (simp add: extract_archive_def extract_member_def rstrip_slash_def s require_def)
  show ?thesis
    using extract_exact [OF e] e by (auto simp: rstrip_slash_def)
qed

text \<open>
  A package that verification accepts holds exactly its manifest and the files the manifest
  lists, each with the listed length and SHA-256 digest; the manifest, the compiler and the
  standard includes have the pinned digests.
\<close>

theorem verify_package_sound:
  assumes "verify_package loads package pin = Inr ()"
  shows "\<exists>files raw entries names. inventory package = Inr files \<and> verified loads files pin raw entries names
    \<and> (\<forall>name data. map_of files name = Some data \<and> name \<noteq> ''manifest.json''
         \<longrightarrow> (\<exists>e \<in> set entries. entry_name e name \<and> entry_data e data))"
proof -
  obtain files raw entries names where f: "inventory package = Inr files" and v: "verified loads files pin raw entries names"
    using verify_package_Inr [OF assms] by blast
  have l: "list_all2 (\<lambda>e name. entry_name e name \<and> (\<exists>data. map_of files name = Some data \<and> entry_data e data)) entries names"
    using v by (simp add: verified_def)
  have "\<exists>e \<in> set entries. entry_name e name \<and> entry_data e data"
    if d: "map_of files name = Some data" and n: "name \<noteq> ''manifest.json''" for name data
  proof -
    have "name \<in> set names"
      using v n map_of_SomeD [OF d] by (force simp: verified_def)
    then obtain k where "k < length names" "names ! k = name"
      by (auto simp: in_set_conv_nth)
    then show ?thesis
      using list_all2_nthD2 [OF l, of k] list_all2_lengthD [OF l] d by (metis nth_mem option.inject)
  qed
  with f v show ?thesis by blast
qed

theorem verify_package_sound_witness:
  "\<exists>files raw entries names. inventory demo_package = Inr files
    \<and> verified demo_loads files demo_pin raw entries names"
  using verify_package_sound [OF demo_verified] by blast

text \<open>
  C19: A pin determines the tool: two packages that verification accepts under one pin hold the
  same files with the same contents, unless two different files of theirs have one SHA-256 digest.
\<close>

theorem pin_determines_package:
  assumes "tree_ok a" and "tree_ok b"
    and "verify_package loads a pin = Inr ()" and "verify_package loads b pin = Inr ()"
    and "inventory a = Inr fa" and "inventory b = Inr fb"
  shows "map_of fa = map_of fb \<or> collision (ran (map_of fa)) (ran (map_of fb))"
proof -
  obtain ra ea na rb eb nb where "verified loads fa pin ra ea na" "verified loads fb pin rb eb nb"
    using verify_package_Inr [OF assms(3)] verify_package_Inr [OF assms(4)] assms(5,6) by auto
  then show ?thesis
    using verified_unique inventory_spec(1) assms(1,2,5,6) by blast
qed

theorem pin_determines_package_witness:
  "\<exists>fa fb. inventory demo_package = Inr fa \<and> inventory demo_copy = Inr fb
    \<and> (map_of fa = map_of fb \<or> collision (ran (map_of fa)) (ran (map_of fb)))"
  using pin_determines_package [OF demo_tree_ok demo_copy_facts(1) demo_verified demo_copy_facts(3)
      demo_inventory demo_copy_facts(2)] demo_inventory demo_copy_facts(2) by blast

end
