(* ===== verification/Tool_World.thy ===== *)
theory Tool_World
  imports Tool_Package
begin

text \<open>
  Programs that change files, for the parts of \<open>tools/capnp_tool.py\<close> that write: a world holds the
  tree and the trees it went through, so that a property can speak of every state another process
  could have seen, and an operation returns its result or exception together with the world. The
  system calls are functions on trees; the lemmas say what each does to the files.
\<close>

section \<open>Results with effects\<close>

record world =
  tree :: entry
  past :: "entry list"

type_synonym 'a io = "world \<Rightarrow> 'a result \<times> world"

definition returnS :: "'a \<Rightarrow> 'a io" where
  "returnS x w = (Inr x, w)"

definition raiseS :: "'a result \<Rightarrow> 'a io" where
  "raiseS r w = (r, w)"

definition bindS :: "'a io \<Rightarrow> ('a \<Rightarrow> 'b io) \<Rightarrow> 'b io" where
  "bindS m f w = (case m w of (Inl e, w') \<Rightarrow> (Inl e, w') | (Inr x, w') \<Rightarrow> f x w')"

text \<open>\<open>try: m finally: f\<close>: an exception of \<open>f\<close> replaces the outcome of \<open>m\<close>.\<close>

definition finallyS :: "'a io \<Rightarrow> unit io \<Rightarrow> 'a io" where
  "finallyS m f w = (case m w of (r, w') \<Rightarrow> case f w' of (Inl e, w'') \<Rightarrow> (Inl e, w'') | (Inr u, w'') \<Rightarrow> (r, w''))"

fun forS :: "('a \<Rightarrow> unit io) \<Rightarrow> 'a list \<Rightarrow> unit io" where
  "forS f [] = returnS ()"
| "forS f (x # xs) = bindS (f x) (\<lambda>_. forS f xs)"

text \<open>One system call: it fails and changes nothing, or leads to the next tree.\<close>

definition callS :: "(entry \<Rightarrow> entry result) \<Rightarrow> unit io" where
  "callS f w = (case f (tree w) of Inl e \<Rightarrow> (Inl e, w)
     | Inr t \<Rightarrow> (Inr (), w\<lparr>tree := t, past := past w @ [tree w]\<rparr>))"

definition seen :: "world \<Rightarrow> entry set" where
  "seen w = insert (tree w) (set (past w))"

lemma seen_call [simp]: "seen (w\<lparr>tree := t, past := past w @ [tree w]\<rparr>) = insert t (seen w)"
  by (auto simp: seen_def)

section \<open>Invariants of every tree seen\<close>

definition keeps :: "(entry \<Rightarrow> bool) \<Rightarrow> 'a io \<Rightarrow> bool" where
  "keeps I m \<longleftrightarrow> (\<forall>w r w'. m w = (r, w') \<longrightarrow> (\<forall>t \<in> seen w. I t) \<longrightarrow> (\<forall>t \<in> seen w'. I t))"

named_theorems keeps_intros
  \<open>how an invariant of every tree seen passes through the constructs\<close>

lemma keepsD: "keeps I m \<Longrightarrow> m w = (r, w') \<Longrightarrow> \<forall>t \<in> seen w. I t \<Longrightarrow> t \<in> seen w' \<Longrightarrow> I t"
  unfolding keeps_def by blast

lemma keeps_returnS [keeps_intros]: "keeps I (returnS x)"
  by (simp add: keeps_def returnS_def)

lemma keeps_raiseS [keeps_intros]: "keeps I (raiseS x)"
  by (simp add: keeps_def raiseS_def)

lemma keeps_bindS [keeps_intros]: "keeps I m \<Longrightarrow> (\<And>x. keeps I (f x)) \<Longrightarrow> keeps I (bindS m f)"
  unfolding keeps_def [of I "bindS m f"]
proof (intro allI impI)
  fix w r w' assume m: "keeps I m" and f: "\<And>x. keeps I (f x)" and b: "bindS m f w = (r, w')" and I: "\<forall>t \<in> seen w. I t"
  obtain a v where a: "m w = (a, v)" by fastforce
  have v: "\<forall>t \<in> seen v. I t"
    using keepsD [OF m a I] by blast
  show "\<forall>t \<in> seen w'. I t"
  proof (cases a)
    case (Inl e)
    then show ?thesis using b a v by (simp add: bindS_def)
  next
    case (Inr x)
    then show ?thesis using b a keepsD [OF f _ v] by (simp add: bindS_def)
  qed
qed

lemma keeps_finallyS [keeps_intros]: "keeps I m \<Longrightarrow> keeps I f \<Longrightarrow> keeps I (finallyS m f)"
  unfolding keeps_def [of I "finallyS m f"]
proof (intro allI impI)
  fix w r w' assume m: "keeps I m" and f: "keeps I f" and b: "finallyS m f w = (r, w')" and I: "\<forall>t \<in> seen w. I t"
  obtain a v where a: "m w = (a, v)" by fastforce
  obtain c u where c: "f v = (c, u)" by fastforce
  have "\<forall>t \<in> seen u. I t"
    using keepsD [OF f c] keepsD [OF m a I] by blast
  moreover have "w' = u"
    using b a c by (auto simp: finallyS_def split: sum.splits)
  ultimately show "\<forall>t \<in> seen w'. I t" by simp
qed

lemma keeps_forS [keeps_intros]: "(\<And>x. x \<in> set xs \<Longrightarrow> keeps I (f x)) \<Longrightarrow> keeps I (forS f xs)"
  by (induction xs) (auto intro: keeps_intros)

lemma keeps_callS [keeps_intros]: "(\<And>t t'. I t \<Longrightarrow> f t = Inr t' \<Longrightarrow> I t') \<Longrightarrow> keeps I (callS f)"
  unfolding keeps_def callS_def by (auto split: sum.splits simp: seen_def)

lemma bindS_Inr: "bindS m f w = (Inr y, w') \<longleftrightarrow> (\<exists>x v. m w = (Inr x, v) \<and> f x v = (Inr y, w'))"
  by (auto simp: bindS_def split: prod.splits sum.splits)

lemma callS_Inr: "callS f w = (Inr u, w') \<longleftrightarrow> f (tree w) = Inr (tree w') \<and> w' = w\<lparr>tree := tree w', past := past w @ [tree w]\<rparr>"
  by (auto simp: callS_def split: sum.splits)

lemma finallyS_Inr: "finallyS m f w = (Inr y, w') \<longleftrightarrow> (\<exists>v. m w = (Inr y, v) \<and> f v = (Inr (), w'))"
  by (auto simp: finallyS_def split: prod.splits sum.splits)

section \<open>System calls\<close>

text \<open>
  \<open>open(path, "wb")\<close> with the write, \<open>unlink\<close>, and the destination side of \<open>rename\<close>, which takes the place
  of anything but a directory. The programs here make sure beforehand that no link is on the way;
  a link is never followed.
\<close>

fun put_file :: "path \<Rightarrow> bytes \<Rightarrow> entry \<Rightarrow> entry result" where
  "put_file [n] d (Dir es) = (case map_of es n of
       Some (Dir fs) \<Rightarrow> Inl (OSError ''is a directory'')
     | Some Link \<Rightarrow> Inl (OSError ''link'')
     | Some Special \<Rightarrow> Inl (OSError ''special file'')
     | _ \<Rightarrow> Inr (Dir (AList.update n (File d) es)))"
| "put_file (n # m # p) d (Dir es) = (case map_of es n of
       None \<Rightarrow> Inl (OSError ''no such file or directory'')
     | Some e \<Rightarrow> bindE (put_file (m # p) d e) (\<lambda>e'. Inr (Dir (AList.update n e' es))))"
| "put_file p d _ = Inl (OSError ''not a directory'')"

fun unlink :: "path \<Rightarrow> entry \<Rightarrow> entry result" where
  "unlink [n] (Dir es) = (case map_of es n of
       None \<Rightarrow> Inl (OSError ''no such file or directory'')
     | Some (Dir fs) \<Rightarrow> Inl (OSError ''is a directory'')
     | Some e \<Rightarrow> Inr (Dir (AList.delete n es)))"
| "unlink (n # m # p) (Dir es) = (case map_of es n of
       None \<Rightarrow> Inl (OSError ''no such file or directory'')
     | Some e \<Rightarrow> bindE (unlink (m # p) e) (\<lambda>e'. Inr (Dir (AList.update n e' es))))"
| "unlink p _ = Inl (OSError ''not a directory'')"

fun place :: "path \<Rightarrow> bytes \<Rightarrow> entry \<Rightarrow> entry result" where
  "place [n] d (Dir es) = (case map_of es n of
       Some (Dir fs) \<Rightarrow> Inl (OSError ''is a directory'')
     | _ \<Rightarrow> Inr (Dir (AList.update n (File d) es)))"
| "place (n # m # p) d (Dir es) = (case map_of es n of
       None \<Rightarrow> Inl (OSError ''no such file or directory'')
     | Some e \<Rightarrow> bindE (place (m # p) d e) (\<lambda>e'. Inr (Dir (AList.update n e' es))))"
| "place p d _ = Inl (OSError ''not a directory'')"

text \<open>\<open>os.replace\<close> of a regular file, and \<open>unlink(missing_ok=True)\<close>.\<close>

definition os_replace :: "path \<Rightarrow> path \<Rightarrow> entry \<Rightarrow> entry result" where
  "os_replace src dst t = (case look src t of
       Some (File d) \<Rightarrow> bindE (unlink src t) (place dst d)
     | _ \<Rightarrow> Inl (OSError ''no such file or directory''))"

definition unlink_missing_ok :: "path \<Rightarrow> entry \<Rightarrow> entry result" where
  "unlink_missing_ok p t = (if look p t = None then Inr t else unlink p t)"

text \<open>The names in a directory.\<close>

definition entry_names :: "path \<Rightarrow> entry \<Rightarrow> string list" where
  "entry_names p t = (case look p t of Some (Dir es) \<Rightarrow> map fst es | _ \<Rightarrow> [])"

lemma look_file: "look r (File d) = Some x \<longleftrightarrow> r = [] \<and> x = File d"
  by (cases r) auto

lemma look_non_dir: "leaf e \<Longrightarrow> look r e = Some x \<longleftrightarrow> r = [] \<and> x = e"
  by (cases e; cases r) (auto simp: leaf_def)

lemma update_leaf_over:
  assumes "leaf x" and "\<And>r. look r e' = Some x \<longleftrightarrow> (if r = p then y else case map_of es n of None \<Rightarrow> False | Some e \<Rightarrow> look r e = Some x)"
  shows "look q (Dir (AList.update n e' es)) = Some x \<longleftrightarrow> (if q = n # p then y else look q (Dir es) = Some x)"
proof (cases q)
  case Nil
  then show ?thesis using assms(1) by auto
next
  case (Cons m r)
  then show ?thesis
    using assms(2) [of r] unfolding Cons look_update by (auto split: option.splits)
qed

lemma put_file_leaf:
  "put_file p d t = Inr t' \<Longrightarrow> leaf x \<Longrightarrow> look q t' = Some x \<longleftrightarrow> (if q = p then x = File d else look q t = Some x)"
proof (induction p d t arbitrary: t' q rule: put_file.induct)
  case (1 n d es)
  then have t': "t' = Dir (AList.update n (File d) es)"
    and e: "case map_of es n of None \<Rightarrow> True | Some e \<Rightarrow> \<exists>c. e = File c"
    by (auto split: option.splits entry.splits)
  show ?case
    unfolding t' by (rule update_leaf_over [OF "1.prems"(2)]) (use e in \<open>auto simp: look_file split: option.splits\<close>)
next
  case (2 n m p d es)
  then obtain e e' where e: "map_of es n = Some e" "put_file (m # p) d e = Inr e'" "t' = Dir (AList.update n e' es)"
    by (auto simp: bindE_Inr_iff split: option.splits)
  show ?case
    unfolding e(3) by (rule update_leaf_over [OF "2.prems"(2)]) (simp add: "2.IH" [OF e(1,2) "2.prems"(2)] e(1))
qed simp_all

lemma place_leaf:
  "place p d t = Inr t' \<Longrightarrow> leaf x \<Longrightarrow> look q t' = Some x \<longleftrightarrow> (if q = p then x = File d else look q t = Some x)"
proof (induction p d t arbitrary: t' q rule: place.induct)
  case (1 n d es)
  then have t': "t' = Dir (AList.update n (File d) es)"
    and e: "case map_of es n of None \<Rightarrow> True | Some e \<Rightarrow> leaf e"
    by (auto split: option.splits entry.splits)
  show ?case
    unfolding t' by (rule update_leaf_over [OF "1.prems"(2)])
      (use e in \<open>auto simp: look_file look_non_dir split: option.splits\<close>)
next
  case (2 n m p d es)
  then obtain e e' where e: "map_of es n = Some e" "place (m # p) d e = Inr e'" "t' = Dir (AList.update n e' es)"
    by (auto simp: bindE_Inr_iff split: option.splits)
  show ?case
    unfolding e(3) by (rule update_leaf_over [OF "2.prems"(2)]) (simp add: "2.IH" [OF e(1,2) "2.prems"(2)] e(1))
qed simp_all

lemma unlink_leaf:
  "unlink p t = Inr t' \<Longrightarrow> leaf x \<Longrightarrow> look q t' = Some x \<longleftrightarrow> q \<noteq> p \<and> look q t = Some x"
proof (induction p t arbitrary: t' q rule: unlink.induct)
  case (1 n es)
  then obtain e where e: "map_of es n = Some e" "leaf e" and t': "t' = Dir (AList.delete n es)"
    by (auto split: option.splits entry.splits)
  show ?case
    unfolding t' using e "1.prems"(2) by (cases q) (auto simp: delete_conv look_non_dir)
next
  case (2 n m p es)
  then obtain e e' where e: "map_of es n = Some e" "unlink (m # p) e = Inr e'" "t' = Dir (AList.update n e' es)"
    by (auto simp: bindE_Inr_iff split: option.splits)
  have "look q t' = Some x \<longleftrightarrow> (if q = n # m # p then False else look q (Dir es) = Some x)"
    unfolding e(3) by (rule update_leaf_over [OF "2.prems"(2)]) (simp add: "2.IH" [OF e(1,2) "2.prems"(2)] e(1))
  then show ?case by simp
qed simp_all

lemma os_replace_leaf:
  assumes "os_replace src dst t = Inr t'" and "leaf x"
  shows "\<exists>d. look src t = Some (File d) \<and> (look q t' = Some x \<longleftrightarrow> (if q = dst then x = File d else q \<noteq> src \<and> look q t = Some x))"
proof -
  obtain d t1 where "look src t = Some (File d)" "unlink src t = Inr t1" "place dst d t1 = Inr t'"
    using assms(1) by (auto simp: os_replace_def bindE_Inr_iff split: option.splits entry.splits)
  then show ?thesis
    using unlink_leaf [OF _ assms(2)] place_leaf [OF _ assms(2)] by metis
qed

lemma unlink_missing_leaf:
  "unlink_missing_ok p t = Inr t' \<Longrightarrow> leaf x \<Longrightarrow> look q t' = Some x \<longleftrightarrow> q \<noteq> p \<and> look q t = Some x"
  using unlink_leaf [of p t t'] by (auto simp: unlink_missing_ok_def split: if_splits)

section \<open>Outcomes and lookups\<close>

lemma write_new_absent: "write_new p d t = Inr t' \<Longrightarrow> look p t = None"
  by (induction p d t arbitrary: t' rule: write_new.induct) (auto simp: bindE_Inr_iff split: if_splits option.splits)

lemma callS_cases:
  assumes "callS f w = (r, w')"
  obtains e where "w' = w" "r = Inl e"
  | "f (tree w) = Inr (tree w')" "r = Inr ()" "seen w' = insert (tree w') (seen w)"
  using assms by (auto simp: callS_def split: sum.splits)

lemma tree_seen [simp]: "tree w \<in> seen w"
  by (simp add: seen_def)

lemma bindS_cases:
  assumes "bindS m f w = (r, w')"
  obtains e where "m w = (Inl e, w')" "r = Inl e" | x v where "m w = (Inr x, v)" "f x v = (r, w')"
  using assms by (auto simp: bindS_def split: prod.splits sum.splits)

lemma finallyS_cases:
  assumes "finallyS m f w = (r, w')"
  obtains a v c where "m w = (a, v)" "f v = (c, w')" "r = Inr () \<Longrightarrow> a = Inr () \<and> c = Inr ()"
  using assms by (cases "m w"; cases "f (snd (m w))") (auto simp: finallyS_def split: sum.splits)

lemma look_append: "look (p @ q) t = (case look p t of None \<Rightarrow> None | Some e \<Rightarrow> look q e)"
  by (induction p t rule: look.induct) (auto split: option.splits)

end
