(* ===== verification/Tool_Publish.thy ===== *)
theory Tool_Publish
  imports Tool_World
begin

text \<open>
  \<open>publish\<close> of \<open>tools/capnp_tool.py\<close> (lines 256 to 289): the comparison of the generated files with
  the checked-in ones, and their replacement through temporary files. The tree is the repository
  as \<open>root\<close> holds it. Permission bits and the diff printed on the error stream are left out; the
  random part of a temporary name is the parameter \<open>pick\<close>, of which nothing is assumed. The lemmas
  show that checking writes nothing, that every tree seen on the way has each file either as it
  was or as it was generated, and that publishing leaves no drift behind.
\<close>

section \<open>Decoding\<close>

text \<open>What the strict UTF-8 decoder of \<open>bytes.decode\<close> accepts.\<close>

definition cont_byte :: "byte \<Rightarrow> bool" where
  "cont_byte b \<longleftrightarrow> 0x80 \<le> b \<and> b \<le> 0xBF"

definition second_of_three :: "byte \<Rightarrow> byte \<Rightarrow> bool" where
  "second_of_three a b \<longleftrightarrow> cont_byte b \<and> (a = 0xE0 \<longrightarrow> 0xA0 \<le> b) \<and> (a = 0xED \<longrightarrow> b \<le> 0x9F)"

definition second_of_four :: "byte \<Rightarrow> byte \<Rightarrow> bool" where
  "second_of_four a b \<longleftrightarrow> cont_byte b \<and> (a = 0xF0 \<longrightarrow> 0x90 \<le> b) \<and> (a = 0xF4 \<longrightarrow> b \<le> 0x8F)"

fun utf8_ok :: "bytes \<Rightarrow> bool" where
  "utf8_ok [] = True"
| "utf8_ok (a # s) =
     (if a < 0x80 then utf8_ok s
      else if 0xC2 \<le> a \<and> a \<le> 0xDF then (case s of b # s \<Rightarrow> cont_byte b \<and> utf8_ok s | _ \<Rightarrow> False)
      else if 0xE0 \<le> a \<and> a \<le> 0xEF then (case s of b # c # s \<Rightarrow> second_of_three a b \<and> cont_byte c \<and> utf8_ok s | _ \<Rightarrow> False)
      else if 0xF0 \<le> a \<and> a \<le> 0xF4 then
        (case s of b # c # d # s \<Rightarrow> second_of_four a b \<and> cont_byte c \<and> cont_byte d \<and> utf8_ok s | _ \<Rightarrow> False)
      else False)"

section \<open>Comparing\<close>

text \<open>\<open>target.read_bytes() if target.exists() else b""\<close>, once no component is a link.\<close>

definition old_bytes :: "path \<Rightarrow> entry \<Rightarrow> bytes result" where
  "old_bytes p root = (case look p root of
       None \<Rightarrow> Inr []
     | Some (File d) \<Rightarrow> Inr d
     | Some (Dir es) \<Rightarrow> Inl (OSError ''is a directory'')
     | Some Link \<Rightarrow> Inl (OSError ''link'')
     | Some Special \<Rightarrow> Inl (OSError ''special file''))"

definition has_symlink :: "path \<Rightarrow> entry \<Rightarrow> bool" where
  "has_symlink parts root \<longleftrightarrow> (\<exists>i \<in> set [1..<length parts + 1]. look (take i parts) root = Some Link)"

fun changed_loop :: "bool \<Rightarrow> (string, bytes) dict \<Rightarrow> entry \<Rightarrow> (string \<times> json) list \<Rightarrow> (path \<times> bytes) list
    \<Rightarrow> (path \<times> bytes) list result" where
  "changed_loop check actual root [] changed = Inr changed"
| "changed_loop check actual root ((name, relative) # outputs) changed =
     bindE (safe_path relative) (\<lambda>parts.
     bindE (require (\<not> has_symlink parts root) ''symlink in generated destination'') (\<lambda>_.
     bindE (old_bytes parts root) (\<lambda>old.
     bindE (dict_index actual name) (\<lambda>data.
     if old \<noteq> data
     then bindE (require (check \<longrightarrow> utf8_ok old \<and> utf8_ok data) ''codec can't decode'') (\<lambda>_.
       changed_loop check actual root outputs (changed @ [(parts, data)]))
     else changed_loop check actual root outputs changed))))"

definition publish_plan :: "entry \<Rightarrow> (string, json) dict \<Rightarrow> bool \<Rightarrow> entry \<Rightarrow> (path \<times> bytes) list result" where
  "publish_plan staged outputs check root =
     bindE (mapE (\<lambda>name. safe_path (JStr name)) (map fst outputs)) (\<lambda>expected.
     bindE (inventory staged) (\<lambda>actual.
     bindE (require (fst ` set actual = posix ` set expected) ''unexpected generated output set'') (\<lambda>_.
     bindE (mapE safe_path (map snd outputs)) (\<lambda>destinations.
     bindE (require (distinct (map posix destinations)) ''duplicate generated destination'') (\<lambda>_.
       changed_loop check actual root outputs [])))))"

section \<open>Writing\<close>

text \<open>The temporary file is created exclusively, filled, and renamed over the target.\<close>

definition publish_file :: "(string list \<Rightarrow> string) \<Rightarrow> path \<times> bytes \<Rightarrow> unit io" where
  "publish_file pick td = (case td of (target, data) \<Rightarrow>
     bindS (callS (mkdirs (butlast target))) (\<lambda>_ w.
       let temporary = butlast target @ [''.capnp-'' @ pick (entry_names (butlast target) (tree w))] in
       bindS (callS (write_new temporary [])) (\<lambda>_.
       bindS (callS (put_file temporary data)) (\<lambda>_.
         finallyS (callS (os_replace temporary target)) (callS (unlink_missing_ok temporary)))) w))"

definition publish :: "(string list \<Rightarrow> string) \<Rightarrow> entry \<Rightarrow> (string, json) dict \<Rightarrow> bool \<Rightarrow> unit io" where
  "publish pick staged outputs check w =
     bindS (raiseS (publish_plan staged outputs check (tree w))) (\<lambda>changed.
     bindS (raiseS (require (\<not> (check \<and> changed \<noteq> [])) ''generated code drift'')) (\<lambda>_.
       if \<not> check then forS (publish_file pick) changed else returnS ())) w"

section \<open>The plan\<close>

text \<open>An output and what is generated for it.\<close>

definition publication :: "(string, bytes) dict \<Rightarrow> string \<times> json \<Rightarrow> path \<times> bytes" where
  "publication actual nr = (projr (safe_path (snd nr)), the (map_of actual (fst nr)))"

definition comparable :: "(string, bytes) dict \<Rightarrow> entry \<Rightarrow> string \<times> json \<Rightarrow> bool" where
  "comparable actual root nr \<longleftrightarrow> (\<exists>p d old. safe_path (snd nr) = Inr p \<and> \<not> has_symlink p root
     \<and> old_bytes p root = Inr old \<and> map_of actual (fst nr) = Some d)"

lemma changed_loop_Inr:
  assumes "changed_loop check actual root outputs changed = Inr res"
  shows "(\<forall>nr \<in> set outputs. comparable actual root nr)
    \<and> res = changed @ filter (\<lambda>(p, d). old_bytes p root \<noteq> Inr d) (map (publication actual) outputs)"
  using assms
proof (induction check actual root outputs changed rule: changed_loop.induct)
  case (1 check actual root changed)
  then show ?case by simp
next
  case (2 check actual root name relative outputs changed)
  obtain p old d where p: "safe_path relative = Inr p" "\<not> has_symlink p root" "old_bytes p root = Inr old"
      "map_of actual name = Some d"
    using "2.prems" by (auto simp: bindE_Inr_iff dict_index_Inr_iff)
  then have c: "comparable actual root (name, relative)" and pub: "publication actual (name, relative) = (p, d)"
    by (auto simp: comparable_def publication_def)
  have i: "dict_index actual name = Inr d" and r: "require (\<not> has_symlink p root) ''symlink in generated destination'' = Inr ()"
    using p by (simp_all add: dict_index_Inr_iff)
  show ?case
  proof (cases "old = d")
    case True
    then show ?thesis
      using "2.IH"(2) [OF p(1) r p(3) i] "2.prems" p c pub i by (simp add: require_def)
  next
    case False
    then obtain u where u: "require (check \<longrightarrow> utf8_ok old \<and> utf8_ok d) ''codec can't decode'' = Inr u"
      and l: "changed_loop check actual root outputs (changed @ [(p, d)]) = Inr res"
      using "2.prems" p i by (auto simp: bindE_Inr_iff)
    show ?thesis
      using "2.IH"(1) [OF p(1) r p(3) i False u l] p c pub False by auto
  qed
qed

lemma changed_loop_total:
  "\<forall>nr \<in> set outputs. comparable actual root nr \<Longrightarrow> \<forall>(p, d) \<in> set (map (publication actual) outputs). old_bytes p root = Inr d
    \<Longrightarrow> changed_loop check actual root outputs changed = Inr changed"
proof (induction outputs)
  case Nil
  then show ?case by simp
next
  case (Cons nr outputs)
  obtain name relative where nr: "nr = (name, relative)" by (cases nr)
  then obtain p d where p: "safe_path relative = Inr p" "\<not> has_symlink p root" "map_of actual name = Some d"
    using Cons.prems(1) by (auto simp: comparable_def)
  then have "old_bytes p root = Inr d"
    using Cons.prems(2) nr by (auto simp: publication_def)
  then show ?case
    using Cons p nr by (simp add: dict_index_def require_def)
qed

definition plan_ok :: "entry \<Rightarrow> (string, json) dict \<Rightarrow> (string, bytes) dict \<Rightarrow> bool" where
  "plan_ok staged outputs actual \<longleftrightarrow> inventory staged = Inr actual \<and> fst ` set actual = fst ` set outputs
     \<and> (\<forall>nr \<in> set outputs. \<exists>p q. safe_path (JStr (fst nr)) = Inr q \<and> safe_path (snd nr) = Inr p)
     \<and> distinct (map (fst \<circ> publication actual) outputs)"

lemma mapE_projr: "mapE f xs = Inr ys \<longleftrightarrow> ys = map (projr \<circ> f) xs \<and> (\<forall>x \<in> set xs. \<exists>y. f x = Inr y)"
proof (induction xs arbitrary: ys)
  case Nil
  then show ?case by auto
next
  case (Cons x xs)
  then show ?case
    by (cases "f x") (auto simp: bindE_Inr_iff)
qed

lemma posix_inj_on_safe:
  "safe_path v = Inr p \<Longrightarrow> safe_path w = Inr q \<Longrightarrow> posix p = posix q \<longleftrightarrow> p = q"
  by (metis safe_path_Inr safe_path_posix sum.inject(2))

lemma distinct_posix:
  assumes "\<forall>v \<in> set vs. \<exists>p. safe_path v = Inr p"
  shows "distinct (map posix (map (projr \<circ> safe_path) vs)) \<longleftrightarrow> distinct (map (projr \<circ> safe_path) vs)"
proof -
  have "inj_on posix (set (map (projr \<circ> safe_path) vs))"
  proof (rule inj_onI)
    fix p q assume "p \<in> set (map (projr \<circ> safe_path) vs)" "q \<in> set (map (projr \<circ> safe_path) vs)"
      and eq: "posix p = posix q"
    then obtain v w where "safe_path v = Inr p" "safe_path w = Inr q"
      using assms by fastforce
    with eq show "p = q" using posix_inj_on_safe by blast
  qed
  then show ?thesis
    unfolding distinct_map [of posix] by blast
qed

lemma plan_names:
  assumes "\<forall>name \<in> set names. \<exists>p. safe_path (JStr name) = Inr p"
  shows "posix ` set (map (projr \<circ> (\<lambda>name. safe_path (JStr name))) names) = set names"
proof -
  have "posix (projr (safe_path (JStr name))) = name" if "name \<in> set names" for name
    using assms that safe_path_posix by (metis sum.sel(2))
  then have "map (posix \<circ> (projr \<circ> (\<lambda>name. safe_path (JStr name)))) names = names"
    by (simp add: map_idI)
  then show ?thesis
    by (metis list.map_comp set_map)
qed

lemma publish_plan_Inr:
  "publish_plan staged outputs check root = Inr changed \<longleftrightarrow>
     (\<exists>actual. plan_ok staged outputs actual \<and> changed_loop check actual root outputs [] = Inr changed)"
proof -
  let ?n = "map (projr \<circ> (\<lambda>name. safe_path (JStr name))) (map fst outputs)" and ?d = "map (projr \<circ> safe_path) (map snd outputs)"
  let ?safe = "(\<forall>name \<in> set (map fst outputs). \<exists>p. safe_path (JStr name) = Inr p) \<and> (\<forall>v \<in> set (map snd outputs). \<exists>p. safe_path v = Inr p)"
  have A: "?safe \<Longrightarrow> posix ` set ?n = fst ` set outputs" and B: "?safe \<Longrightarrow> distinct (map posix ?d) \<longleftrightarrow> distinct ?d"
    using plan_names [of "map fst outputs", unfolded set_map [of fst]] distinct_posix [of "map snd outputs"]
    unfolding set_map [of fst] by blast+
  have "publish_plan staged outputs check root = Inr changed \<longleftrightarrow>
      (\<exists>actual. ?safe \<and> inventory staged = Inr actual \<and> fst ` set actual = posix ` set ?n
        \<and> distinct (map posix ?d) \<and> changed_loop check actual root outputs [] = Inr changed)"
    unfolding publish_plan_def
    by (simp only: bindE_Inr_iff mapE_projr require_Inr_iff conj_assoc simp_thms ex_simps) (rule iffI; elim conjE exE; intro conjI exI; assumption)
  also have "\<dots> \<longleftrightarrow> (\<exists>actual. ?safe \<and> inventory staged = Inr actual \<and> fst ` set actual = fst ` set outputs
        \<and> distinct ?d \<and> changed_loop check actual root outputs [] = Inr changed)"
    by (intro ex_cong1 conj_cong refl) (use A B in \<open>simp_all only: simp_thms\<close>)
  also have "\<dots> \<longleftrightarrow> (\<exists>actual. plan_ok staged outputs actual \<and> changed_loop check actual root outputs [] = Inr changed)"
  proof -
    have d: "map (fst \<circ> publication actual) outputs = ?d" for actual
      by (simp add: publication_def)
    have "?safe \<longleftrightarrow> (\<forall>nr \<in> set outputs. \<exists>p q. safe_path (JStr (fst nr)) = Inr q \<and> safe_path (snd nr) = Inr p)"
      by auto
    then show ?thesis
      unfolding plan_ok_def d by blast
  qed
  finally show ?thesis .
qed

section \<open>The trees on the way\<close>

definition temporary :: "path \<Rightarrow> bool" where
  "temporary q \<longleftrightarrow> q \<noteq> [] \<and> take 7 (last q) = ''.capnp-''"

text \<open>
  Between the tree at the start and one seen later: nothing new but temporary files and the
  generated contents at their destinations, and nothing gone but what a destination replaced.
\<close>

definition between :: "(path \<times> bytes) set \<Rightarrow> entry \<Rightarrow> entry \<Rightarrow> bool" where
  "between D t0 t \<longleftrightarrow>
     (\<forall>q x. leaf x \<and> look q t = Some x \<longrightarrow> look q t0 = Some x \<or> temporary q \<and> butlast q \<in> butlast ` fst ` D
        \<or> (\<exists>d. (q, d) \<in> D \<and> x = File d))
   \<and> (\<forall>q x. leaf x \<and> look q t0 = Some x \<longrightarrow> look q t = Some x \<or> (\<exists>d. (q, d) \<in> D \<and> look q t = Some (File d)))"

lemma between_refl: "between D t t"
  by (simp add: between_def)

lemma between_trans: "between D t0 t1 \<Longrightarrow> between D t1 t \<Longrightarrow> between D t0 t"
  unfolding between_def by (metis leaf_simps(1))

lemma between_mono: "between D t0 t \<Longrightarrow> D \<subseteq> E \<Longrightarrow> between E t0 t"
  unfolding between_def by (meson image_mono subsetD)

text \<open>The three shapes of a tree while one file is published: with the temporary file, renamed, cleaned up.\<close>

lemma between_tmp:
  assumes "temporary tmp" "butlast tmp = butlast p" "\<And>x. leaf x \<Longrightarrow> look tmp t0 \<noteq> Some x"
    and "\<And>q x. leaf x \<Longrightarrow> look q t = Some x \<longleftrightarrow> (if q = tmp then x = y else look q t0 = Some x)"
  shows "between {(p, d)} t0 t"
  unfolding between_def
proof (intro conjI allI impI; elim conjE)
  fix q x assume x: "leaf x" and q: "look q t = Some x"
  show "look q t0 = Some x \<or> temporary q \<and> butlast q \<in> butlast ` fst ` {(p, d)} \<or> (\<exists>d'. (q, d') \<in> {(p, d)} \<and> x = File d')"
    using assms(4) [OF x, of q] q assms(1,2) by (auto split: if_splits)
next
  fix q x assume x: "leaf x" and q: "look q t0 = Some x"
  show "look q t = Some x \<or> (\<exists>d'. (q, d') \<in> {(p, d)} \<and> look q t = Some (File d'))"
    using assms(4) [OF x, of q] assms(4) [OF leaf_simps(1), of q d] assms(3) [OF x] q by (auto split: if_splits)
qed

lemma between_placed:
  assumes "\<And>x. leaf x \<Longrightarrow> look tmp t0 \<noteq> Some x"
    and "\<And>q x. leaf x \<Longrightarrow> look q t = Some x \<longleftrightarrow> (if q = p then x = File d else q \<noteq> tmp \<and> look q t0 = Some x)"
  shows "between {(p, d)} t0 t"
  unfolding between_def
proof (intro conjI allI impI; elim conjE)
  fix q x assume x: "leaf x" and q: "look q t = Some x"
  show "look q t0 = Some x \<or> temporary q \<and> butlast q \<in> butlast ` fst ` {(p, d)} \<or> (\<exists>d'. (q, d') \<in> {(p, d)} \<and> x = File d')"
    using assms(2) [OF x, of q] q by (auto split: if_splits)
next
  fix q x assume x: "leaf x" and q: "look q t0 = Some x"
  show "look q t = Some x \<or> (\<exists>d'. (q, d') \<in> {(p, d)} \<and> look q t = Some (File d'))"
    using assms(2) [OF x, of q] assms(2) [OF leaf_simps(1), of q d] assms(1) [OF x] q by (auto split: if_splits)
qed

lemma between_cleaned:
  assumes "\<And>x. leaf x \<Longrightarrow> look tmp t0 \<noteq> Some x"
    and "\<And>q x. leaf x \<Longrightarrow> look q t = Some x \<longleftrightarrow> q \<noteq> tmp \<and> (if q = p \<and> c then x = File d else look q t0 = Some x)"
  shows "between {(p, d)} t0 t"
  unfolding between_def
proof (intro conjI allI impI; elim conjE)
  fix q x assume x: "leaf x" and q: "look q t = Some x"
  show "look q t0 = Some x \<or> temporary q \<and> butlast q \<in> butlast ` fst ` {(p, d)} \<or> (\<exists>d'. (q, d') \<in> {(p, d)} \<and> x = File d')"
    using assms(2) [OF x, of q] q by (auto split: if_splits)
next
  fix q x assume x: "leaf x" and q: "look q t0 = Some x"
  show "look q t = Some x \<or> (\<exists>d'. (q, d') \<in> {(p, d)} \<and> look q t = Some (File d'))"
    using assms(2) [OF x, of q] assms(2) [OF leaf_simps(1), of q d] assms(1) [OF x] q by (auto split: if_splits)
qed

lemma replace_stage:
  assumes fin: "finallyS (callS (os_replace tmp p)) (callS (unlink_missing_ok tmp)) w = (r, w')"
    and tmp: "temporary tmp" "butlast tmp = butlast p" "\<And>x. leaf x \<Longrightarrow> look tmp t0 \<noteq> Some x"
    and here: "\<And>q x. leaf x \<Longrightarrow> look q (tree w) = Some x \<longleftrightarrow> (if q = tmp then x = File d else look q t0 = Some x)"
  shows "(\<forall>t \<in> seen w'. t \<in> seen w \<or> between {(p, d)} t0 t) \<and> between {(p, d)} t0 (tree w')
    \<and> (r = Inr () \<and> tmp \<noteq> p \<longrightarrow> (\<forall>q x. leaf x \<longrightarrow>
         look q (tree w') = Some x \<longleftrightarrow> (if q = p then x = File d else look q t0 = Some x)))"
proof -
  obtain a v c where m: "callS (os_replace tmp p) w = (a, v)" and f: "callS (unlink_missing_ok tmp) v = (c, w')"
    and r: "r = Inr () \<Longrightarrow> a = Inr () \<and> c = Inr ()"
    using finallyS_cases [OF fin] by blast
  have held: "look tmp (tree w) = Some (File d)"
    using here [of "File d" tmp] by simp
  have v: "v = w \<and> a \<noteq> Inr () \<or> a = Inr () \<and> seen v = insert (tree v) (seen w)
      \<and> (\<forall>q x. leaf x \<longrightarrow> look q (tree v) = Some x \<longleftrightarrow> (if q = p then x = File d else q \<noteq> tmp \<and> look q t0 = Some x))"
    using m
  proof (cases rule: callS_cases)
    case (1 e)
    then show ?thesis by simp
  next
    case 2
    have "look q (tree v) = Some x \<longleftrightarrow> (if q = p then x = File d else q \<noteq> tmp \<and> look q t0 = Some x)" if "leaf x" for q x
      using os_replace_leaf [OF 2(1) that, of q] held here [OF that, of q] by auto
    then show ?thesis using 2 by simp
  qed
  have bv: "between {(p, d)} t0 (tree v)"
    using v between_placed [OF tmp(3)] between_tmp [OF tmp here] by blast
  have w': "tree w' = tree v \<and> seen w' = seen v \<and> c \<noteq> Inr () \<or> c = Inr () \<and> seen w' = insert (tree w') (seen v)
      \<and> (\<forall>q x. leaf x \<longrightarrow> look q (tree w') = Some x \<longleftrightarrow> q \<noteq> tmp \<and> look q (tree v) = Some x)"
    using f
  proof (cases rule: callS_cases)
    case (1 e)
    then show ?thesis by simp
  next
    case 2
    then show ?thesis using unlink_missing_leaf [OF 2(1)] by simp
  qed
  have after: "look q (tree w') = Some x \<longleftrightarrow> q \<noteq> tmp \<and> (if q = p \<and> a = Inr () then x = File d else look q t0 = Some x)"
    if "leaf x" "c = Inr ()" for q x
    using v w' that here [OF that(1), of q] by (cases "a = Inr ()") auto
  have bw: "between {(p, d)} t0 (tree w')"
    using w' bv between_cleaned [OF tmp(3) after] by metis
  have "\<forall>t \<in> seen w'. t \<in> seen w \<or> between {(p, d)} t0 t"
    using v w' bv bw by auto
  moreover have "look q (tree w') = Some x \<longleftrightarrow> (if q = p then x = File d else look q t0 = Some x)"
    if "r = Inr ()" "tmp \<noteq> p" "leaf x" for q x
    using after [OF that(3)] r [OF that(1)] that(2) tmp(3) [OF that(3)] by auto
  ultimately show ?thesis
    using bw by blast
qed

lemma publish_file_spec:
  assumes "publish_file pick (p, d) w = (r, w')"
  shows "(\<forall>t \<in> seen w'. t \<in> seen w \<or> between {(p, d)} (tree w) t) \<and> between {(p, d)} (tree w) (tree w')
    \<and> (r = Inr () \<and> \<not> temporary p \<longrightarrow> (\<forall>q x. leaf x \<longrightarrow>
         look q (tree w') = Some x \<longleftrightarrow> (if q = p then x = File d else look q (tree w) = Some x)))"
    (is "?goal w'")
proof -
  let ?t0 = "tree w"
  have stop: "?goal v" if "seen v = insert (tree v) (seen w)" "between {(p, d)} ?t0 (tree v)" "\<exists>e. r = Inl e" for v
    using that by auto
  have stay: "?goal w" if "\<exists>e. r = Inl e"
    using that between_refl by auto
  from assms show ?thesis
    unfolding publish_file_def Let_def prod.case
  proof (cases rule: bindS_cases)
    case (1 e)
    from 1(1) show ?thesis
      by (cases rule: callS_cases) (use 1(2) stay in auto)
  next
    case (2 u w1)
    from 2(1) have m: "mkdirs (butlast p) ?t0 = Inr (tree w1)" and s1: "seen w1 = insert (tree w1) (seen w)"
      by (cases rule: callS_cases; simp)+
    define tmp where "tmp = butlast p @ [''.capnp-'' @ pick (entry_names (butlast p) (tree w1))]"
    have tmp: "temporary tmp" "butlast tmp = butlast p"
      by (simp_all add: tmp_def temporary_def)
    have e1: "look q (tree w1) = Some x \<longleftrightarrow> look q ?t0 = Some x" if "leaf x" for q x
      using mkdirs_leaf [OF m that] .
    then have b1: "between {(p, d)} ?t0 (tree w1)"
      unfolding between_def by blast
    from 2(2) have rest: "bindS (callS (write_new tmp [])) (\<lambda>_. bindS (callS (put_file tmp d)) (\<lambda>_.
        finallyS (callS (os_replace tmp p)) (callS (unlink_missing_ok tmp)))) w1 = (r, w')"
      by (simp add: tmp_def)
    then show ?thesis
    proof (cases rule: bindS_cases)
      case (1 e)
      from 1(1) show ?thesis
        by (cases rule: callS_cases) (use 1(2) stop [OF s1 b1] in auto)
    next
      case (2 u w2)
      from 2(1) have n: "write_new tmp [] (tree w1) = Inr (tree w2)" and s2: "seen w2 = insert (tree w2) (seen w1)"
        by (cases rule: callS_cases; simp)+
      have absent: "look tmp ?t0 \<noteq> Some x" if "leaf x" for x
        using e1 [OF that, of tmp] write_new_absent [OF n] by simp
      have e2: "look q (tree w2) = Some x \<longleftrightarrow> (if q = tmp then x = File [] else look q ?t0 = Some x)" if "leaf x" for q x
        using write_new_leaf [OF n that, of q] e1 [OF that, of q] absent [OF that] by auto
      have b2: "between {(p, d)} ?t0 (tree w2)"
        by (rule between_tmp [OF tmp absent e2])
      from 2(2) show ?thesis
      proof (cases rule: bindS_cases)
        case (1 e)
        from 1(1) show ?thesis
          by (cases rule: callS_cases) (use 1(2) s1 s2 b1 b2 in auto)
      next
        case (2 u w3)
        from 2(1) have n: "put_file tmp d (tree w2) = Inr (tree w3)" and s3: "seen w3 = insert (tree w3) (seen w2)"
          by (cases rule: callS_cases; simp)+
        have e3: "look q (tree w3) = Some x \<longleftrightarrow> (if q = tmp then x = File d else look q ?t0 = Some x)" if "leaf x" for q x
          using put_file_leaf [OF n that, of q] e2 [OF that, of q] by simp
        have b3: "between {(p, d)} ?t0 (tree w3)"
          by (rule between_tmp [OF tmp absent e3])
        have "tmp \<noteq> p" if "\<not> temporary p"
          using tmp(1) that by auto
        then show ?thesis
          using replace_stage [OF 2(2) tmp absent e3] s1 s2 s3 b1 b2 b3 by auto
      qed
    qed
  qed
qed

section \<open>All files of a plan\<close>

lemma publish_files_seen:
  assumes "forS (publish_file pick) changed w = (r, w')"
  shows "\<forall>t \<in> seen w'. t \<in> seen w \<or> between (set changed) (tree w) t"
    and "between (set changed) (tree w) (tree w')"
proof -
  have "(\<forall>t \<in> seen w'. t \<in> seen w \<or> between (set changed) (tree w) t) \<and> between (set changed) (tree w) (tree w')"
    using assms
  proof (induction changed arbitrary: w)
    case Nil
    then show ?case by (auto simp: returnS_def between_refl)
  next
    case (Cons pd changed)
    obtain p d where pd: "pd = (p, d)" by fastforce
    have sub: "{(p, d)} \<subseteq> set (pd # changed)" "set changed \<subseteq> set (pd # changed)"
      using pd by auto
    from Cons.prems show ?case
      unfolding forS.simps
    proof (cases rule: bindS_cases)
      case (1 e)
      then show ?thesis
        using publish_file_spec [of pick p d w] between_mono [OF _ sub(1)] unfolding pd by blast
    next
      case (2 u v)
      have v: "\<forall>t \<in> seen v. t \<in> seen w \<or> between (set (pd # changed)) (tree w) t"
        "between (set (pd # changed)) (tree w) (tree v)"
        using publish_file_spec [OF 2(1) [unfolded pd]] between_mono [OF _ sub(1)] by blast+
      have "(\<forall>t \<in> seen w'. t \<in> seen v \<or> between (set changed) (tree v) t) \<and> between (set changed) (tree v) (tree w')"
        by (rule Cons.IH [OF 2(2)])
      then show ?thesis
        using v between_trans [OF v(2)] between_mono [OF _ sub(2)] by blast
    qed
  qed
  then show "\<forall>t \<in> seen w'. t \<in> seen w \<or> between (set changed) (tree w) t"
    and "between (set changed) (tree w) (tree w')" by blast+
qed

lemma publish_files_done:
  assumes "forS (publish_file pick) changed w = (Inr (), w')" and "distinct (map fst changed)"
    and "\<forall>p \<in> fst ` set changed. \<not> temporary p" and "leaf x"
  shows "look q (tree w') = Some x \<longleftrightarrow> (case map_of changed q of Some d \<Rightarrow> x = File d | None \<Rightarrow> look q (tree w) = Some x)"
  using assms(1-3)
proof (induction changed arbitrary: w)
  case Nil
  then show ?case by (simp add: returnS_def)
next
  case (Cons pd changed)
  obtain p d where pd: "pd = (p, d)" by fastforce
  obtain v where v: "publish_file pick (p, d) w = (Inr (), v)" "forS (publish_file pick) changed v = (Inr (), w')"
    using Cons.prems(1) pd by (auto simp: bindS_Inr)
  have "look q (tree v) = Some x \<longleftrightarrow> (if q = p then x = File d else look q (tree w) = Some x)"
    using publish_file_spec [OF v(1)] Cons.prems(3) pd assms(4) by simp
  moreover have "map_of changed p = None"
    using Cons.prems(2) pd by (simp add: map_of_eq_None_iff)
  ultimately show ?case
    using Cons.IH [OF v(2)] Cons.prems(2,3) pd by (auto split: option.splits)
qed

text \<open>The destinations with what is generated for them.\<close>

definition publications :: "(string, bytes) dict \<Rightarrow> (string, json) dict \<Rightarrow> (path \<times> bytes) set" where
  "publications actual outputs = {(p, d). \<exists>(name, relative) \<in> set outputs. safe_path relative = Inr p \<and> map_of actual name = Some d}"

definition planned :: "entry \<Rightarrow> (string, json) dict \<Rightarrow> entry \<Rightarrow> (path \<times> bytes) list \<Rightarrow> (string, bytes) dict \<Rightarrow> bool" where
  "planned staged outputs root changed actual \<longleftrightarrow> plan_ok staged outputs actual
     \<and> (\<forall>nr \<in> set outputs. comparable actual root nr)
     \<and> (\<forall>p d. (p, d) \<in> set changed \<longleftrightarrow> (p, d) \<in> publications actual outputs \<and> old_bytes p root \<noteq> Inr d)
     \<and> distinct (map fst changed)"

lemma plan_changed:
  assumes "publish_plan staged outputs check root = Inr changed"
  shows "\<exists>actual. planned staged outputs root changed actual"
proof -
  obtain actual where a: "plan_ok staged outputs actual" and l: "changed_loop check actual root outputs [] = Inr changed"
    using assms by (auto simp: publish_plan_Inr)
  from changed_loop_Inr [OF l] have c: "\<forall>nr \<in> set outputs. comparable actual root nr"
    and ch: "changed = filter (\<lambda>(p, d). old_bytes p root \<noteq> Inr d) (map (publication actual) outputs)"
    by simp_all
  have "set (map (publication actual) outputs) = publications actual outputs"
  proof -
    have "publication actual nr = (p, d) \<longleftrightarrow> safe_path (snd nr) = Inr p \<and> map_of actual (fst nr) = Some d"
      if "nr \<in> set outputs" for nr p d
      using c that by (auto simp: comparable_def publication_def)
    then have "(p, d) \<in> set (map (publication actual) outputs) \<longleftrightarrow> (p, d) \<in> publications actual outputs" for p d
      unfolding publications_def set_map image_iff eq_commute [of "(p, d)"] mem_Collect_eq prod.case case_prod_unfold fst_conv snd_conv
      by (simp cong: bex_cong)
    then show ?thesis
      by (intro set_eqI) (simp add: split_paired_all del: set_map)
  qed
  then have s: "set changed = {(p, d). (p, d) \<in> publications actual outputs \<and> old_bytes p root \<noteq> Inr d}"
    unfolding ch set_filter by auto
  have "distinct (map fst changed)"
    using distinct_map_filter [of fst "map (publication actual) outputs"] a by (simp add: ch plan_ok_def)
  then show ?thesis
    unfolding planned_def using a c s by auto
qed

definition generated :: "entry \<Rightarrow> (string, json) dict \<Rightarrow> (path \<times> bytes) set" where
  "generated staged outputs = (case inventory staged of Inl e \<Rightarrow> {} | Inr actual \<Rightarrow> publications actual outputs)"

lemma old_bytes_Inr: "old_bytes p root = Inr d \<longleftrightarrow> look p root = Some (File d) \<or> d = [] \<and> look p root = None"
  by (auto simp: old_bytes_def split: option.splits entry.splits)

lemma publish_checks:
  assumes "publish pick staged outputs True w = (r, w')"
  shows "w' = w" and "r = Inr () \<longleftrightarrow> publish_plan staged outputs True (tree w) = Inr []"
  using assms by (cases "publish_plan staged outputs True (tree w)";
      auto simp: publish_def bindS_def raiseS_def returnS_def require_def guardE_def split: if_splits)+

lemma publish_writes:
  assumes "publish pick staged outputs False w = (r, w')"
  obtains e where "w' = w" "r = Inl e"
  | changed where "publish_plan staged outputs False (tree w) = Inr changed" "forS (publish_file pick) changed w = (r, w')"
  using assms by (cases "publish_plan staged outputs False (tree w)")
    (auto simp: publish_def bindS_def raiseS_def require_def)

lemma plan_generated:
  assumes "plan_ok staged outputs actual"
  shows "generated staged outputs = publications actual outputs"
  using assms by (simp add: plan_ok_def generated_def)

lemma publications_function:
  assumes "plan_ok staged outputs actual" "(p, d) \<in> publications actual outputs" "(p, e) \<in> publications actual outputs"
  shows "d = e"
proof -
  obtain m n where m: "m \<in> set outputs" "publication actual m = (p, d)" and n: "n \<in> set outputs" "publication actual n = (p, e)"
    using assms(2,3) by (auto simp: publications_def publication_def)
  have "inj_on (fst \<circ> publication actual) (set outputs)"
    using assms(1) by (simp add: plan_ok_def distinct_map)
  then have "m = n"
    using inj_onD [of "fst \<circ> publication actual" "set outputs" m n] m n by simp
  with m n show ?thesis by simp
qed

lemma file_no_symlink:
  assumes "look p t = Some (File d)"
  shows "\<not> has_symlink p t"
proof
  assume "has_symlink p t"
  then obtain i where "look (take i p) t = Some Link"
    by (auto simp: has_symlink_def)
  moreover have "look p t = look (take i p @ drop i p) t"
    by simp
  ultimately have "look (drop i p) Link = Some (File d)"
    using assms unfolding look_append by simp
  then show False
    by (cases "drop i p") simp_all
qed

lemma plan_no_change:
  assumes "plan_ok staged outputs actual" and "\<forall>nr \<in> set outputs. comparable actual root nr"
    and "\<forall>(p, d) \<in> publications actual outputs. look p root = Some (File d) \<or> d = [] \<and> look p root = None"
  shows "publish_plan staged outputs check root = Inr []"
proof -
  have "old_bytes p root = Inr d" if pd: "(p, d) \<in> set (map (publication actual) outputs)" for p d
  proof -
    obtain nr where "(p, d) = publication actual nr" "nr \<in> set outputs"
      using imageE [OF pd [unfolded set_map]] by blast
    moreover from this obtain q e where "safe_path (snd nr) = Inr q" "map_of actual (fst nr) = Some e"
      using assms(2) by (auto simp: comparable_def)
    ultimately have "(p, d) \<in> publications actual outputs"
      by (auto simp: publications_def publication_def)
    then show ?thesis
      using assms(3) by (auto simp: old_bytes_Inr)
  qed
  then have "changed_loop check actual root outputs [] = Inr []"
    using assms(2) by (intro changed_loop_total) blast+
  then show ?thesis
    using assms(1) by (auto simp: publish_plan_Inr)
qed

section \<open>A small run\<close>

definition demo_staged :: entry where
  "demo_staged = Dir [(''a.zig'', File [1, 2])]"

definition demo_outputs :: "(string, json) dict" where
  "demo_outputs = [(''a.zig'', JStr ''src/gen.zig'')]"

definition demo_root :: entry where
  "demo_root = Dir [(''schema'', Dir [(''a.capnp'', File [9])]), (''src'', Dir [(''gen.zig'', File [1])])]"

definition demo_world :: "entry \<Rightarrow> world" where
  "demo_world t = \<lparr>tree = t, past = []\<rparr>"

lemma demo_safe_paths:
  "safe_path (JStr ''a.zig'') = Inr [''a.zig'']" "safe_path (JStr ''src/gen.zig'') = Inr [''src'', ''gen.zig'']"
  by (simp_all add: safe_path_def split_slash_def)

lemma demo_staged_inventory: "inventory demo_staged = Inr [(''a.zig'', [1, 2])]"
  by (simp add: inventory_def demo_staged_def posix_def)

lemma demo_plan: "publish_plan demo_staged demo_outputs False demo_root = Inr [([''src'', ''gen.zig''], [1, 2])]"
proof -
  have "\<not> has_symlink [''src'', ''gen.zig''] demo_root"
    by (auto simp: has_symlink_def demo_root_def upt_conv_Cons simp del: set_upt)
  then show ?thesis
    by (simp add: publish_plan_def demo_staged_inventory demo_outputs_def demo_safe_paths require_def posix_def dict_index_def
        old_bytes_def demo_root_def)
qed

lemma demo_publish:
  "fst (publish (\<lambda>_. ''x'') demo_staged demo_outputs False (demo_world demo_root)) = Inr ()"
  "tree (snd (publish (\<lambda>_. ''x'') demo_staged demo_outputs False (demo_world demo_root)))
     = Dir [(''schema'', Dir [(''a.capnp'', File [9])]), (''src'', Dir [(''gen.zig'', File [1, 2])])]"
  by (simp_all add: publish_def demo_world_def demo_plan [unfolded demo_root_def] bindS_def raiseS_def require_def publish_file_def callS_def
      finallyS_def returnS_def demo_root_def os_replace_def unlink_missing_ok_def)

text \<open>
  An output that is generated empty is never created: a missing destination counts as empty, so
  publishing skips it and checking accepts its absence.
\<close>

lemma publish_skips_empty:
  "publish pick (Dir [(''a'', File [])]) [(''a'', JStr ''b'')] check (demo_world (Dir [])) = (Inr (), demo_world (Dir []))"
proof -
  have "inventory (Dir [(''a'', File [])]) = Inr [(''a'', [])]"
    by (simp add: inventory_def posix_def)
  moreover have "safe_path (JStr ''a'') = Inr [''a'']" "safe_path (JStr ''b'') = Inr [''b'']"
    by (simp_all add: safe_path_def split_slash_def)
  moreover have "\<not> has_symlink [''b''] (Dir [])"
    by (auto simp: has_symlink_def take_Cons')
  ultimately have "publish_plan (Dir [(''a'', File [])]) [(''a'', JStr ''b'')] check (Dir []) = Inr []"
    by (simp add: publish_plan_def require_def posix_def dict_index_def old_bytes_def)
  then show ?thesis
    by (simp add: publish_def demo_world_def bindS_def raiseS_def require_def returnS_def)
qed

lemma publish_settled:
  assumes "publish pick staged outputs False w = (Inr (), w')"
    and "\<forall>(p, d) \<in> generated staged outputs. \<not> temporary p \<and> d \<noteq> []"
  shows "(\<forall>q x. leaf x \<longrightarrow> look q (tree w') = Some x \<longleftrightarrow>
        (if q \<in> fst ` generated staged outputs then \<exists>d. (q, d) \<in> generated staged outputs \<and> x = File d
         else look q (tree w) = Some x))
    \<and> publish pick' staged outputs True w' = (Inr (), w')"
  using assms(1)
proof (cases rule: publish_writes)
  case (2 changed)
  obtain actual where "planned staged outputs (tree w) changed actual"
    using plan_changed [OF 2(1)] by blast
  then have a: "plan_ok staged outputs actual" "\<forall>nr \<in> set outputs. comparable actual (tree w) nr"
    "\<And>p d. (p, d) \<in> set changed \<longleftrightarrow> (p, d) \<in> publications actual outputs \<and> old_bytes p (tree w) \<noteq> Inr d"
    "distinct (map fst changed)"
    by (simp_all add: planned_def)
  have g: "generated staged outputs = publications actual outputs"
    by (rule plan_generated [OF a(1)])
  have tmp: "\<forall>p \<in> fst ` set changed. \<not> temporary p"
    using assms(2) a(3) unfolding g by fastforce
  have eq: "look q (tree w') = Some x \<longleftrightarrow>
      (if q \<in> fst ` generated staged outputs then \<exists>d. (q, d) \<in> generated staged outputs \<and> x = File d
       else look q (tree w) = Some x)" if x: "leaf x" for q x
  proof (cases "map_of changed q")
    case (Some d)
    then have mem: "(q, d) \<in> publications actual outputs"
      using map_of_SomeD [OF Some] a(3) by simp
    then have "(\<exists>e. (q, e) \<in> publications actual outputs \<and> x = File e) \<longleftrightarrow> x = File d"
      using publications_function [OF a(1) mem] by blast
    moreover have "q \<in> fst ` publications actual outputs"
      using mem by force
    ultimately show ?thesis
      using publish_files_done [OF 2(2) a(4) tmp x, of q] Some by (simp add: g)
  next
    case None
    then have n: "q \<notin> fst ` set changed"
      by (simp add: map_of_eq_None_iff)
    have same: "look q (tree w) = Some (File d)" if "(q, d) \<in> publications actual outputs" for d
    proof -
      have "old_bytes q (tree w) = Inr d" "d \<noteq> []"
        using n that assms(2) a(3) [of q d] unfolding g by force+
      then show ?thesis by (simp add: old_bytes_Inr)
    qed
    have d: "look q (tree w') = Some x \<longleftrightarrow> look q (tree w) = Some x"
      using publish_files_done [OF 2(2) a(4) tmp x, of q] None by simp
    show ?thesis
    proof (cases "q \<in> fst ` publications actual outputs")
      case True
      then obtain e where e: "(q, e) \<in> publications actual outputs" by force
      then have "(\<exists>e. (q, e) \<in> publications actual outputs \<and> x = File e) \<longleftrightarrow> x = File e"
        using publications_function [OF a(1) e] by blast
      with True same [OF e] d show ?thesis by (auto simp: g)
    qed (use d in \<open>simp add: g\<close>)
  qed
  have held: "look p (tree w') = Some (File d)" if "(p, d) \<in> publications actual outputs" for p d
    using eq [of "File d" p] that unfolding g by force
  have "comparable actual (tree w') nr" if nr: "nr \<in> set outputs" for nr
  proof -
    obtain p d where "safe_path (snd nr) = Inr p" "map_of actual (fst nr) = Some d"
      using bspec [OF a(2) nr] by (auto simp: comparable_def)
    moreover from this have "(p, d) \<in> publications actual outputs"
      using nr by (auto simp: publications_def)
    ultimately show ?thesis
      using held file_no_symlink by (auto simp: comparable_def old_bytes_Inr)
  qed
  then have "publish_plan staged outputs True (tree w') = Inr []"
    using plan_no_change [OF a(1)] held by blast
  then have "publish pick' staged outputs True w' = (Inr (), w')"
    by (simp add: publish_def bindS_def raiseS_def require_def returnS_def)
  with eq show ?thesis by blast
qed simp

lemma demo_generated: "generated demo_staged demo_outputs = {([''src'', ''gen.zig''], [1, 2])}"
  by (simp add: generated_def demo_staged_inventory publications_def demo_outputs_def demo_safe_paths)

section \<open>Properties\<close>

text \<open>
  C24: Checking changes nothing and is exact: in check mode \<open>publish\<close> leaves the world as it is, and it
  returns exactly when the staged files are the outputs, every destination is comparable and each
  one holds what was generated, where a missing file counts as empty.
\<close>

theorem publish_check_exact:
  assumes "publish pick staged outputs True w = (r, w')"
  shows "w' = w \<and> (r = Inr () \<longleftrightarrow> (\<exists>actual. plan_ok staged outputs actual
      \<and> (\<forall>nr \<in> set outputs. comparable actual (tree w) nr)
      \<and> (\<forall>(p, d) \<in> publications actual outputs. look p (tree w) = Some (File d) \<or> d = [] \<and> look p (tree w) = None)))"
proof (intro conjI iffI)
  show "w' = w"
    by (rule publish_checks(1) [OF assms])
  assume "r = Inr ()"
  then have p: "publish_plan staged outputs True (tree w) = Inr []"
    using publish_checks(2) [OF assms] by simp
  obtain actual where "planned staged outputs (tree w) [] actual"
    using plan_changed [OF p] by blast
  then show "\<exists>actual. plan_ok staged outputs actual \<and> (\<forall>nr \<in> set outputs. comparable actual (tree w) nr)
      \<and> (\<forall>(p, d) \<in> publications actual outputs. look p (tree w) = Some (File d) \<or> d = [] \<and> look p (tree w) = None)"
    by (intro exI [of _ actual]) (auto simp: planned_def old_bytes_Inr)
next
  assume "\<exists>actual. plan_ok staged outputs actual \<and> (\<forall>nr \<in> set outputs. comparable actual (tree w) nr)
      \<and> (\<forall>(p, d) \<in> publications actual outputs. look p (tree w) = Some (File d) \<or> d = [] \<and> look p (tree w) = None)"
  then show "r = Inr ()"
    unfolding publish_checks(2) [OF assms] using plan_no_change by blast
qed

theorem publish_check_exact_witness:
  "fst (publish (\<lambda>_. ''x'') demo_staged demo_outputs True (demo_world demo_root)) \<noteq> Inr ()"
proof -
  obtain r w' where p: "publish (\<lambda>_. ''x'') demo_staged demo_outputs True (demo_world demo_root) = (r, w')"
    by fastforce
  have "([''src'', ''gen.zig''], [1, 2]) \<in> publications actual demo_outputs" if "plan_ok demo_staged demo_outputs actual" for actual
  proof -
    have "actual = [(''a.zig'', [1, 2])]"
      using that by (simp add: plan_ok_def demo_staged_inventory)
    then show ?thesis
      by (simp add: publications_def demo_outputs_def demo_safe_paths)
  qed
  then have "r \<noteq> Inr ()"
    using publish_check_exact [OF p] by (fastforce simp: demo_world_def demo_root_def)
  with p show ?thesis by simp
qed

text \<open>
  C23: Publishing is atomic file by file, even when it raises half way: in every tree it goes through,
  every file is as it was, is a temporary file beside a destination, or is a destination with
  exactly the generated contents; and no file or link is lost unless generated contents took its place.
\<close>

theorem publish_atomic:
  assumes "publish pick staged outputs check w = (r, w')" and "past w = []" and "t \<in> seen w'"
  shows "between (generated staged outputs) (tree w) t"
proof (cases check)
  case True
  then have "w' = w"
    using publish_checks(1) [of pick staged outputs w r w'] assms(1) by simp
  then show ?thesis
    using assms(2,3) between_refl by (simp add: seen_def)
next
  case False
  with assms(1) have p: "publish pick staged outputs False w = (r, w')" by simp
  then show ?thesis
  proof (cases rule: publish_writes)
    case (1 e)
    then show ?thesis
      using assms(2,3) between_refl by (simp add: seen_def)
  next
    case (2 changed)
    obtain actual where "planned staged outputs (tree w) changed actual"
      using plan_changed [OF 2(1)] by blast
    then have a: "plan_ok staged outputs actual" "set changed \<subseteq> publications actual outputs"
      by (auto simp: planned_def)
    have "t \<in> seen w \<or> between (set changed) (tree w) t"
      using publish_files_seen(1) [OF 2(2)] assms(3) by blast
    then show ?thesis
      unfolding plan_generated [OF a(1)] using between_mono [OF _ a(2)] between_refl assms(2) by (auto simp: seen_def)
  qed
qed

theorem publish_atomic_witness:
  "between (generated demo_staged demo_outputs) demo_root
     (Dir [(''schema'', Dir [(''a.capnp'', File [9])]), (''src'', Dir [(''gen.zig'', File [1, 2])])])"
proof -
  obtain r w' where p: "publish (\<lambda>_. ''x'') demo_staged demo_outputs False (demo_world demo_root) = (r, w')"
    by fastforce
  have "tree w' \<in> seen w'" by simp
  from publish_atomic [OF p _ this] show ?thesis
    using demo_publish(2) p by (simp add: demo_world_def)
qed

text \<open>
  Publishing leaves no drift and nothing else: when \<open>publish\<close> returns, every destination holds what
  was generated, every other file and link is as it was, no temporary file remains, and checking
  again succeeds. Destinations named like temporary files and empty outputs are excluded.
\<close>

theorem publish_no_drift:
  assumes "publish pick staged outputs False w = (Inr (), w')"
    and "\<forall>(p, d) \<in> generated staged outputs. \<not> temporary p \<and> d \<noteq> []"
  shows "(\<forall>q x. leaf x \<longrightarrow> look q (tree w') = Some x \<longleftrightarrow>
        (if q \<in> fst ` generated staged outputs then \<exists>d. (q, d) \<in> generated staged outputs \<and> x = File d
         else look q (tree w) = Some x))
    \<and> publish pick' staged outputs True w' = (Inr (), w')"
  by (rule publish_settled [OF assms])

theorem publish_no_drift_witness:
  "publish (\<lambda>_. ''y'') demo_staged demo_outputs True
     (snd (publish (\<lambda>_. ''x'') demo_staged demo_outputs False (demo_world demo_root)))
   = (Inr (), snd (publish (\<lambda>_. ''x'') demo_staged demo_outputs False (demo_world demo_root)))"
proof -
  have p: "publish (\<lambda>_. ''x'') demo_staged demo_outputs False (demo_world demo_root)
      = (Inr (), snd (publish (\<lambda>_. ''x'') demo_staged demo_outputs False (demo_world demo_root)))"
    using demo_publish(1) by (metis prod.collapse)
  have g: "\<forall>(p, d) \<in> generated demo_staged demo_outputs. \<not> temporary p \<and> d \<noteq> []"
    by (simp add: demo_generated temporary_def)
  from publish_no_drift [OF p g, of "\<lambda>_. ''y''"] show ?thesis by blast
qed

end
