(* ===== verification/Tool_Install.thy ===== *)
theory Tool_Install
  imports Tool_World
begin

text \<open>
  \<open>bootstrap\<close> and \<open>snapshot\<close> of \<open>tools/capnp_tool.py\<close> (lines 143 to 172 and 240 to 253). The cache is the
  map from the digests of archives to the packages below \<open>artifacts\<close>; reading and downloading an
  archive, unpacking its members and running the installed compiler are parameters, of which
  nothing is assumed. The lemmas show that a bootstrap that returns has installed a package the
  pin accepts, wherever its bytes came from, and what a workspace consists of.
\<close>

section \<open>Bootstrap\<close>

type_synonym cache = "string \<Rightarrow> entry option"

text \<open>The bytes of the archive: the copy given, the one in the repository, or the download.\<close>

definition archive_bytes :: "bytes result option \<Rightarrow> (path \<Rightarrow> bytes result) \<Rightarrow> (json \<Rightarrow> bytes result) \<Rightarrow> pin \<Rightarrow> bytes result" where
  "archive_bytes override root_file download pin = (case override of
       Some archive \<Rightarrow> archive
     | None \<Rightarrow> (case map_of pin ''archive'' of
         Some name \<Rightarrow> bindE (safe_path name) root_file
       | None \<Rightarrow> bindE (dict_index pin ''url'') download))"

text \<open>The package directory of an unpacked archive; the verification of a missing one sees no files.\<close>

definition unpacked_package :: "entry \<Rightarrow> entry" where
  "unpacked_package unpacked = (case look [''package''] unpacked of None \<Rightarrow> Dir [] | Some e \<Rightarrow> e)"

definition install :: "(bytes \<Rightarrow> json result) \<Rightarrow> (bytes \<Rightarrow> member list result) \<Rightarrow> pin \<Rightarrow> bytes result \<Rightarrow> entry result" where
  "install loads untar pin source =
     bindE source (\<lambda>archive.
     bindE (dict_index pin ''sha256'') (\<lambda>h.
     bindE (require (JStr (hexdigest archive) = h) ''tool archive digest mismatch'') (\<lambda>_.
     bindE (untar archive) (\<lambda>members.
     bindE (extract_archive members) (\<lambda>unpacked.
     bindE (verify_package loads (unpacked_package unpacked) pin) (\<lambda>_.
     bindE (require (set (entry_names [] unpacked) = {''package''}) ''unexpected tool archive root'') (\<lambda>_.
       Inr (unpacked_package unpacked))))))))"

definition bootstrap :: "(bytes \<Rightarrow> json result) \<Rightarrow> (bytes \<Rightarrow> member list result) \<Rightarrow> (entry \<Rightarrow> unit result) \<Rightarrow>
    (pin \<Rightarrow> bytes result) \<Rightarrow> pin \<Rightarrow> cache \<Rightarrow> unit result \<times> cache" where
  "bootstrap loads untar run_version source doc artifacts =
     (case bindE (tool_pin doc) (\<lambda>pin. bindE (dict_index pin ''sha256'') (\<lambda>h. case h of
          JStr s \<Rightarrow> (case artifacts s of
              Some package \<Rightarrow> bindE (verify_package loads package pin) (\<lambda>_. Inr (s, package))
            | None \<Rightarrow> bindE (install loads untar pin (source pin)) (\<lambda>package. Inr (s, package)))
        | _ \<Rightarrow> Inl TypeError)) of
        Inl e \<Rightarrow> (Inl e, artifacts)
      | Inr (s, package) \<Rightarrow> (run_version package, artifacts(s := Some package)))"

section \<open>The workspace\<close>

text \<open>\<open>shutil.copytree\<close> of a directory without links into a new place below an existing directory.\<close>

definition copy_tree :: "entry option \<Rightarrow> string \<Rightarrow> entry \<Rightarrow> entry result" where
  "copy_tree source name t = (case (source, t) of
       (Some (Dir fs), Dir es) \<Rightarrow>
         if map_of es name \<noteq> None then Inl (OSError ''file exists'')
         else if \<exists>(p, e) \<in> set (walk [] (Dir fs)). e = Link \<or> e = Special then Inl (OSError ''link or special file'')
         else Inr (Dir (es @ [(name, Dir fs)]))
     | _ \<Rightarrow> Inl (OSError ''not a directory''))"

definition write_schema :: "string \<times> bytes \<Rightarrow> entry \<Rightarrow> entry result" where
  "write_schema file workspace = (case file of (name, data) \<Rightarrow>
     let target = ''src'' # split_slash name
     in bindE (mkdirs (butlast target) workspace) (put_file target data))"

fun write_schemas :: "(string, bytes) dict \<Rightarrow> entry \<Rightarrow> entry result" where
  "write_schemas [] workspace = Inr workspace"
| "write_schemas (file # files) workspace = bindE (write_schema file workspace) (write_schemas files)"

definition check_entrypoint :: "(string, bytes) dict \<Rightarrow> json \<Rightarrow> unit result" where
  "check_entrypoint files name =
     bindE (safe_path name) (\<lambda>parts. require (map_of files (posix parts) \<noteq> None) ''missing schema entrypoint'')"

text \<open>\<open>lookup\<close> is what the system finds below the repository, without following a last link.\<close>

definition snapshot :: "(path \<Rightarrow> entry option) \<Rightarrow> entry \<Rightarrow> (string, json) dict \<Rightarrow> entry \<Rightarrow> entry result" where
  "snapshot lookup package config workspace =
     bindE (dict_index config ''schemas_root'') (\<lambda>v.
     bindE (safe_path v) (\<lambda>parts.
     case lookup parts of
       Some (Dir es) \<Rightarrow>
         bindE (inventory (Dir es)) (\<lambda>files.
         bindE (dict_index config ''entrypoints'') (\<lambda>entrypoints.
         bindE (json_items entrypoints) (\<lambda>names.
         bindE (forE (check_entrypoint files) names) (\<lambda>_.
         bindE (write_schemas files workspace) (\<lambda>workspace.
           copy_tree (look [''include''] package) ''include'' workspace)))))
     | _ \<Rightarrow> Inl (ValueError ''schema root must be a directory'')))"

section \<open>What a bootstrap installs\<close>

lemma install_Inr:
  assumes "install loads untar pin source = Inr package"
  shows "verify_package loads package pin = Inr ()"
    and "\<exists>archive members unpacked. source = Inr archive \<and> map_of pin ''sha256'' = Some (JStr (hexdigest archive))
      \<and> untar archive = Inr members \<and> extract_archive members = Inr unpacked \<and> package = unpacked_package unpacked"
  using assms by (auto simp: install_def bindE_Inr_iff dict_index_Inr_iff)

lemma tree_ok_look: "look p t = Some e \<Longrightarrow> tree_ok t \<Longrightarrow> tree_ok e"
  using look_parts by blast

lemma install_tree:
  assumes "install loads untar pin source = Inr package"
  shows "tree_ok package"
proof -
  obtain members unpacked where x: "extract_archive members = Inr unpacked" and p: "package = unpacked_package unpacked"
    using install_Inr(2) [OF assms] by blast
  have "tree_ok unpacked"
    by (rule extract_archive_files(1) [OF x])
  then show ?thesis
    using tree_ok_look [of "[''package'']" unpacked] unfolding p unpacked_package_def
    by (auto simp: dict_ok_def split: option.splits)
qed

lemma bootstrap_installs:
  assumes "bootstrap loads untar run_version source doc artifacts = (Inr (), artifacts')"
  shows "\<exists>s package. map_of doc ''sha256'' = Some (JStr s) \<and> artifacts' = artifacts(s := Some package)
    \<and> verify_package loads package doc = Inr () \<and> installed_package loads doc artifacts' = Inr package
    \<and> (case artifacts s of Some e \<Rightarrow> package = e | None \<Rightarrow> install loads untar doc (source doc) = Inr package)"
proof -
  obtain pin where pin: "tool_pin doc = Inr pin"
    using assms by (cases "tool_pin doc") (auto simp: bootstrap_def)
  then have doc: "pin = doc"
    by (auto simp: tool_pin_def bindE_Inr_iff)
  obtain s where s: "map_of doc ''sha256'' = Some (JStr s)"
    using assms pin doc unfolding bootstrap_def
    by (cases "map_of doc ''sha256''") (auto simp: dict_index_def split: json.splits)
  have i: "dict_index doc ''sha256'' = Inr (JStr s)"
    using s by (simp add: dict_index_def)
  show ?thesis
  proof (cases "artifacts s")
    case None
    then obtain package where p: "install loads untar doc (source doc) = Inr package" "artifacts' = artifacts(s := Some package)"
      using assms pin doc i by (cases "install loads untar doc (source doc)") (auto simp: bootstrap_def)
    then show ?thesis
      using pin doc i s None install_Inr(1) [OF p(1)] by (auto simp: installed_package_def)
  next
    case (Some package)
    then have p: "verify_package loads package doc = Inr ()" "artifacts' = artifacts(s := Some package)"
      using assms pin doc i by (cases "verify_package loads package doc"; auto simp: bootstrap_def)+
    then show ?thesis
      using pin doc i s Some by (auto simp: installed_package_def)
  qed
qed

lemma bootstrap_tree:
  assumes "bootstrap loads untar run_version source doc c = (Inr (), c')" and "\<And>s e. c s = Some e \<Longrightarrow> tree_ok e"
  shows "\<exists>p. verify_package loads p doc = Inr () \<and> installed_package loads doc c' = Inr p \<and> tree_ok p"
proof -
  obtain s p where p: "verify_package loads p doc = Inr ()" "installed_package loads doc c' = Inr p"
    "case c s of Some e \<Rightarrow> p = e | None \<Rightarrow> install loads untar doc (source doc) = Inr p"
    using bootstrap_installs [OF assms(1)] by blast
  have "tree_ok p"
    using p(3) install_tree assms(2) by (cases "c s") auto
  with p show ?thesis by blast
qed

section \<open>What a workspace holds\<close>

lemma write_schema_leaf:
  assumes "write_schema (name, data) t = Inr t'" and "leaf x"
  shows "look q t' = Some x \<longleftrightarrow> (if q = ''src'' # split_slash name then x = File data else look q t = Some x)"
proof -
  obtain t1 where "mkdirs (butlast (''src'' # split_slash name)) t = Inr t1" "put_file (''src'' # split_slash name) data t1 = Inr t'"
    using assms(1) by (auto simp: write_schema_def Let_def bindE_Inr_iff)
  then show ?thesis
    using mkdirs_leaf [OF _ assms(2)] put_file_leaf [OF _ assms(2)] by simp
qed

lemma write_schemas_leaf:
  assumes "write_schemas files t = Inr t'" and "dict_ok files" and "leaf x"
  shows "look q t' = Some x \<longleftrightarrow> (if \<exists>name \<in> fst ` set files. q = ''src'' # split_slash name
    then \<exists>(name, data) \<in> set files. q = ''src'' # split_slash name \<and> x = File data else look q t = Some x)"
  using assms(1,2)
proof (induction files arbitrary: t)
  case Nil
  then show ?case by simp
next
  case (Cons nd files)
  obtain name data where nd: "nd = (name, data)" by fastforce
  obtain t1 where t1: "write_schema (name, data) t = Inr t1" "write_schemas files t1 = Inr t'"
    using Cons.prems(1) nd by (auto simp: bindE_Inr_iff)
  have ok: "dict_ok files" "name \<notin> fst ` set files"
    using Cons.prems(2) nd by (auto simp: dict_ok_def)
  have inj: "split_slash m = split_slash n \<Longrightarrow> m = n" for m n
    using posix_split by metis
  note ih = Cons.IH [OF t1(2) ok(1)]
  note s = write_schema_leaf [OF t1(1) assms(3), of q]
  show ?case
  proof (cases "q = ''src'' # split_slash name")
    case True
    then have "\<not> (\<exists>n \<in> fst ` set files. q = ''src'' # split_slash n)"
      using inj ok(2) by auto
    then show ?thesis
      using ih s True nd by auto
  next
    case False
    then show ?thesis
      using ih s nd by auto
  qed
qed

lemma include_leaf:
  assumes "copy_tree source n t = Inr t'" and "leaf x"
  shows "\<exists>fs es. source = Some (Dir fs) \<and> t = Dir es \<and> map_of es n = None
    \<and> (look q t' = Some x \<longleftrightarrow> look q t = Some x \<or> (\<exists>r. q = n # r \<and> look r (Dir fs) = Some x))"
proof -
  obtain fs es where d: "source = Some (Dir fs)" "t = Dir es" "map_of es n = None" "t' = Dir (es @ [(n, Dir fs)])"
    using assms(1) by (auto simp: copy_tree_def split: option.splits entry.splits if_splits)
  then have "t' = Dir (AList.update n (Dir fs) es)"
    using update_absent by simp
  then have "look q t' = Some x \<longleftrightarrow> look q t = Some x \<or> (\<exists>r. q = n # r \<and> look r (Dir fs) = Some x)"
    using update_leaf [OF assms(2), of "Dir fs" es n "\<lambda>r. look r (Dir fs) = Some x" "\<lambda>q. \<exists>r. q = n # r \<and> look r (Dir fs) = Some x" q]
      d by simp
  with d show ?thesis by blast
qed

lemma snapshot_leaf:
  assumes "snapshot lookup package config (Dir []) = Inr ws"
    and tree: "\<And>p e. lookup p = Some e \<Longrightarrow> tree_ok e"
  shows "\<exists>parts schema files. (\<exists>v. map_of config ''schemas_root'' = Some v \<and> safe_path v = Inr parts)
    \<and> lookup parts = Some schema \<and> inventory schema = Inr files
    \<and> (\<forall>q x. leaf x \<longrightarrow> look q ws = Some x \<longleftrightarrow>
         (\<exists>p. p \<noteq> [] \<and> q = ''src'' # p \<and> look p schema = Some x) \<or> (\<exists>r. q = ''include'' # r \<and> look q package = Some x))"
proof -
  obtain v parts es files ws1 where v: "map_of config ''schemas_root'' = Some v" "safe_path v = Inr parts"
    and l: "lookup parts = Some (Dir es)" and i: "inventory (Dir es) = Inr files"
    and w: "write_schemas files (Dir []) = Inr ws1" and c: "copy_tree (look [''include''] package) ''include'' ws1 = Inr ws"
  proof -
    obtain v parts where v: "map_of config ''schemas_root'' = Some v" "safe_path v = Inr parts"
      using assms(1) by (auto simp: snapshot_def bindE_Inr_iff dict_index_Inr_iff)
    then have d: "dict_index config ''schemas_root'' = Inr v"
      by (simp add: dict_index_Inr_iff)
    obtain es where l: "lookup parts = Some (Dir es)"
      using assms(1) v d by (cases "lookup parts"; cases "the (lookup parts)") (auto simp: snapshot_def)
    show ?thesis
      using that [OF v l] assms(1) v d l by (auto simp: snapshot_def bindE_Inr_iff)
  qed
  note ok = tree [OF l]
  note inv = inventory_spec [OF i ok]
  have "look q ws = Some x \<longleftrightarrow> (\<exists>p. p \<noteq> [] \<and> q = ''src'' # p \<and> look p (Dir es) = Some x)
      \<or> (\<exists>r. q = ''include'' # r \<and> look q package = Some x)" if x: "leaf x" for q x
  proof -
    have "look q ws1 = Some x \<longleftrightarrow> (\<exists>name data. (name, data) \<in> set files \<and> q = ''src'' # split_slash name \<and> x = File data)"
      using write_schemas_leaf [OF w inv(1) x, of q] look_Dir_Nil [OF x, of q] by force
    also have "\<dots> \<longleftrightarrow> (\<exists>p. p \<noteq> [] \<and> q = ''src'' # p \<and> look p (Dir es) = Some x)"
    proof
      assume "\<exists>name data. (name, data) \<in> set files \<and> q = ''src'' # split_slash name \<and> x = File data"
      then obtain name data where n: "map_of files name = Some data" "q = ''src'' # split_slash name" "x = File data"
        using dict_ok_map_of_eq [OF inv(1)] by auto
      then obtain p where p: "p \<noteq> []" "look p (Dir es) = Some (File data)" "name = posix p"
        using inv(2) by blast
      then have "split_slash name = p"
        using split_posix look_parts [OF ok p(2)] by blast
      with n p show "\<exists>p. p \<noteq> [] \<and> q = ''src'' # p \<and> look p (Dir es) = Some x" by blast
    next
      assume "\<exists>p. p \<noteq> [] \<and> q = ''src'' # p \<and> look p (Dir es) = Some x"
      then obtain p where p: "p \<noteq> []" "q = ''src'' # p" "look p (Dir es) = Some x" by blast
      then obtain data where d: "x = File data"
        using inv(3) [OF p(1,3)] x by (cases x) auto
      then have "map_of files (posix p) = Some data" "split_slash (posix p) = p"
        using inv(2) p split_posix look_parts [OF ok p(3)] by blast+
      then show "\<exists>name data. (name, data) \<in> set files \<and> q = ''src'' # split_slash name \<and> x = File data"
        using p d by (metis map_of_SomeD)
    qed
    finally have 1: "look q ws1 = Some x \<longleftrightarrow> (\<exists>p. p \<noteq> [] \<and> q = ''src'' # p \<and> look p (Dir es) = Some x)" .
    obtain fs where fs: "look [''include''] package = Some (Dir fs)"
      and 2: "look q ws = Some x \<longleftrightarrow> look q ws1 = Some x \<or> (\<exists>r. q = ''include'' # r \<and> look r (Dir fs) = Some x)"
      using include_leaf [OF c x, of q] by blast
    have "look (''include'' # r) package = look r (Dir fs)" for r
      using fs look_append [of "[''include'']" r package] by simp
    with 1 2 show ?thesis by auto
  qed
  with v l i show ?thesis by blast
qed

section \<open>A small archive\<close>

definition demo_members :: "member list" where
  "demo_members = [\<lparr>member_name = ''package/manifest.json'', member_kind = Regular [1]\<rparr>,
     \<lparr>member_name = ''package/wasm/capnp.wasm'', member_kind = Regular [0]\<rparr>]"

definition demo_lock :: pin where
  "demo_lock = [(''format'', JInt 1), (''sha256'', JStr (hexdigest [5])), (''url'', JStr ''u'')] @ demo_pin"

lemma demo_extract: "extract_archive demo_members = Inr (Dir [(''package'', demo_package)])"
proof -
  have "safe_path (JStr ''package/manifest.json'') = Inr [''package'', ''manifest.json'']"
    "safe_path (JStr ''package/wasm/capnp.wasm'') = Inr [''package'', ''wasm'', ''capnp.wasm'']"
    by (simp_all add: safe_path_def split_slash_def)
  then show ?thesis
    by (simp add: extract_archive_def demo_members_def extract_member_def rstrip_slash_def require_def demo_package_def)
qed

lemma lower_hex_digit: "n < 16 \<Longrightarrow> lower_hex (hex_digit n)"
proof -
  have "\<forall>n \<in> set [0..<16]. lower_hex (hex_digit n)"
    by (simp add: hex_digit_def lower_hex_def upt_rec)
  then show "n < 16 \<Longrightarrow> lower_hex (hex_digit n)" by auto
qed

lemma hexdigest_form: "length (hexdigest d) = 64" "\<forall>c \<in> set (hexdigest d). lower_hex c"
proof -
  have "length (hex bs) = 2 * length bs" for bs
    by (induction bs) (simp_all add: hex_def)
  then show "length (hexdigest d) = 64"
    by (simp add: hexdigest_def digest_def)
  have "unat b div 16 < 16" for b :: byte
    using unat_byte_bound [of b] by linarith
  then show "\<forall>c \<in> set (hexdigest d). lower_hex c"
    by (auto simp: hexdigest_def hex_def lower_hex_digit)
qed

lemma demo_lock_pin: "tool_pin demo_lock = Inr demo_lock"
  by (simp add: tool_pin_def demo_lock_def demo_pin_def digest_field_def dict_index_def require_def
      hexdigest_form includes_digest_def)

lemma demo_lock_verified: "verify_package demo_loads demo_package demo_lock = Inr ()"
proof -
  have "verify_package demo_loads demo_package demo_lock = verify_package demo_loads demo_package demo_pin"
    by (simp add: verify_package_def demo_lock_def dict_index_def)
  then show ?thesis
    by (simp add: demo_verified)
qed

lemma demo_bootstrap:
  "bootstrap demo_loads (\<lambda>_. Inr demo_members) (\<lambda>_. Inr ()) (archive_bytes None f (\<lambda>_. Inr [5])) demo_lock Map.empty
     = (Inr (), [hexdigest [5] \<mapsto> demo_package])"
proof -
  have "install demo_loads (\<lambda>_. Inr demo_members) demo_lock (Inr [5]) = Inr demo_package"
    by (simp add: install_def demo_extract unpacked_package_def demo_lock_verified entry_names_def require_def)
      (simp add: demo_lock_def dict_index_def)
  moreover have "archive_bytes None f (\<lambda>_. Inr [5]) demo_lock = Inr [5]"
    by (simp add: archive_bytes_def demo_lock_def demo_pin_def dict_index_def)
  ultimately show ?thesis
    by (simp add: bootstrap_def demo_lock_pin) (simp add: demo_lock_def dict_index_def)
qed

section \<open>Properties\<close>

text \<open>
  C25: What is installed does not depend on where it came from: two bootstraps of one pin that return,
  whatever archive, copy or cached package each used, have installed packages that the pin
  accepts, and the two hold the same files or exhibit a SHA-256 collision.
\<close>

theorem bootstrap_pinned:
  assumes "bootstrap loads untar run_version source doc c = (Inr (), c')"
    and "bootstrap loads untar2 run_version2 source2 doc d = (Inr (), d')"
    and "\<And>s e. c s = Some e \<or> d s = Some e \<Longrightarrow> tree_ok e"
  shows "\<exists>p q fp fq. installed_package loads doc c' = Inr p \<and> installed_package loads doc d' = Inr q
    \<and> inventory p = Inr fp \<and> inventory q = Inr fq
    \<and> (map_of fp = map_of fq \<or> collision (ran (map_of fp)) (ran (map_of fq)))"
proof -
  obtain p where p: "verify_package loads p doc = Inr ()" "installed_package loads doc c' = Inr p" "tree_ok p"
    using bootstrap_tree [OF assms(1)] assms(3) by blast
  obtain q where q: "verify_package loads q doc = Inr ()" "installed_package loads doc d' = Inr q" "tree_ok q"
    using bootstrap_tree [OF assms(2)] assms(3) by blast
  obtain fp rp ep np where fp: "inventory p = Inr fp" "verified loads fp doc rp ep np"
    using verify_package_Inr [OF p(1)] by blast
  obtain fq rq eq nq where fq: "inventory q = Inr fq" "verified loads fq doc rq eq nq"
    using verify_package_Inr [OF q(1)] by blast
  have "map_of fp = map_of fq \<or> collision (ran (map_of fp)) (ran (map_of fq))"
    using verified_unique [OF fp(2) fq(2)] inventory_spec(1) fp(1) fq(1) p(3) q(3) by blast
  with p(2) q(2) fp(1) fq(1) show ?thesis by blast
qed

theorem bootstrap_pinned_witness:
  "\<exists>p fp. installed_package demo_loads demo_lock [hexdigest [5] \<mapsto> demo_package] = Inr p \<and> inventory p = Inr fp"
proof -
  have "\<And>s e. Map.empty s = Some e \<or> Map.empty s = Some e \<Longrightarrow> tree_ok e" by simp
  from bootstrap_pinned [OF demo_bootstrap demo_bootstrap this] show ?thesis by blast
qed

end
