(* ===== verification/Tool_Generate.thy ===== *)
theory Tool_Generate
  imports Tool_Publish Tool_Install
begin

text \<open>
  \<open>generate\<close> and \<open>canonical\<close> of \<open>tools/capnp_tool.py\<close> (lines 292 to 332), which compose the verified
  package, the workspace, the compiler and \<open>publish\<close>. The compiler, the generator module, the
  formatter and how the system follows links in the repository are parameters, of which nothing
  is assumed but that they are functions: the same inputs give the same outputs.
\<close>

section \<open>Generating\<close>

text \<open>The programs run: the compiler on a workspace, the generator on a module and a request, the formatter.\<close>

record toolchain =
  run_compile :: "entry \<Rightarrow> json list \<Rightarrow> bytes result"
  run_generator :: "bytes \<Rightarrow> bytes \<Rightarrow> entry result"
  run_fmt :: "entry \<Rightarrow> string list \<Rightarrow> entry result"
  run_convert :: "entry \<Rightarrow> string \<Rightarrow> bytes result"

text \<open>\<open>lstat\<close> and \<open>stat\<close> below the repository.\<close>

record lookups =
  found :: "entry \<Rightarrow> path \<Rightarrow> entry option"
  followed :: "entry \<Rightarrow> path \<Rightarrow> entry option"

definition check_owned :: "lookups \<Rightarrow> (string, json) dict \<Rightarrow> (string, json) dict \<Rightarrow> entry \<Rightarrow> unit result" where
  "check_owned fs config outputs root = (case map_of config ''owned_output_directory'' of
       None \<Rightarrow> Inr ()
     | Some v \<Rightarrow>
         bindE (safe_path v) (\<lambda>parts.
         bindE (inventory (case followed fs root parts of None \<Rightarrow> Dir [] | Some e \<Rightarrow> e)) (\<lambda>files.
         bindE (guardE TypeError (\<forall>v \<in> snd ` set outputs. hashable v)) (\<lambda>_.
           require (\<forall>name \<in> fst ` set files. JStr (posix parts @ ''/'' @ name) \<in> snd ` set outputs)
             ''unexpected existing generated files''))))"

text \<open>\<open>config["outputs"]\<close> is the dictionary \<open>outputs\<close>, in file order; \<open>module\<close> is \<open>generator(root, config)\<close>.\<close>

definition staged_output :: "(bytes \<Rightarrow> json result) \<Rightarrow> toolchain \<Rightarrow> lookups \<Rightarrow> bytes result \<Rightarrow> pin \<Rightarrow> cache
    \<Rightarrow> (string, json) dict \<Rightarrow> (string, json) dict \<Rightarrow> entry \<Rightarrow> entry result" where
  "staged_output loads tools fs module doc artifacts config outputs root =
     bindE (installed_package loads doc artifacts) (\<lambda>package.
     bindE (check_owned fs config outputs root) (\<lambda>_.
     bindE module (\<lambda>m.
     bindE (snapshot (found fs root) package config (Dir [])) (\<lambda>workspace.
     bindE (dict_index config ''entrypoints'') (\<lambda>entrypoints.
     bindE (json_items entrypoints) (\<lambda>names.
     bindE (run_compile tools workspace names) (\<lambda>request.
     bindE (run_generator tools m request) (\<lambda>output.
       if (case map_of config ''format'' of None \<Rightarrow> False | Some v \<Rightarrow> truthy v)
       then run_fmt tools output (map fst outputs) else Inr output))))))))"

definition generate :: "(string list \<Rightarrow> string) \<Rightarrow> (bytes \<Rightarrow> json result) \<Rightarrow> toolchain \<Rightarrow> lookups \<Rightarrow> bytes result \<Rightarrow> pin \<Rightarrow> cache
    \<Rightarrow> (string, json) dict \<Rightarrow> (string, json) dict \<Rightarrow> bool \<Rightarrow> unit io" where
  "generate pick loads tools fs module doc artifacts config outputs check w =
     bindS (raiseS (staged_output loads tools fs module doc artifacts config outputs (tree w)))
       (\<lambda>staged. publish pick staged outputs check) w"

definition canonical :: "(bytes \<Rightarrow> json result) \<Rightarrow> toolchain \<Rightarrow> lookups \<Rightarrow> pin \<Rightarrow> cache \<Rightarrow> (string, json) dict
    \<Rightarrow> string \<Rightarrow> entry \<Rightarrow> bytes result" where
  "canonical loads tools fs doc artifacts config type_name root =
     bindE (require (type_name \<in> {''Statement'', ''QuorumSet''}) ''unsupported SLCP canonical type'') (\<lambda>_.
     bindE (installed_package loads doc artifacts) (\<lambda>package.
     bindE (snapshot (found fs root) package config (Dir [])) (\<lambda>workspace.
       run_convert tools workspace type_name)))"

section \<open>What generating depends on\<close>

lemma generate_check_reads:
  "generate pick loads tools fs module doc artifacts config outputs True w = (r, w') \<Longrightarrow> w' = w"
  using publish_checks(1)
  by (cases "staged_output loads tools fs module doc artifacts config outputs (tree w)")
    (auto simp: generate_def bindS_def raiseS_def)

text \<open>The schema tree is the only part of the repository the staged output reads, unless a directory is owned.\<close>

definition same_schema :: "lookups \<Rightarrow> (string, json) dict \<Rightarrow> entry \<Rightarrow> entry \<Rightarrow> bool" where
  "same_schema fs config a b \<longleftrightarrow> (case map_of config ''schemas_root'' of None \<Rightarrow> True | Some v \<Rightarrow>
     (case safe_path v of Inl e \<Rightarrow> True | Inr parts \<Rightarrow> found fs a parts = found fs b parts))"

lemma snapshot_same:
  "same_schema fs config a b \<Longrightarrow> snapshot (found fs a) package config ws = snapshot (found fs b) package config ws"
  by (simp add: same_schema_def snapshot_def dict_index_def split: option.splits sum.splits)

lemma staged_same:
  assumes "same_schema fs config a b" and "map_of config ''owned_output_directory'' = None"
  shows "staged_output loads tools fs module doc artifacts config outputs a = staged_output loads tools fs module doc artifacts config outputs b"
  unfolding staged_output_def using snapshot_same [OF assms(1)] assms(2) by (simp add: check_owned_def)

lemma generate_settled:
  assumes "generate pick loads tools fs module doc artifacts config outputs False w = (Inr (), w')"
    and "map_of config ''owned_output_directory'' = None" and "same_schema fs config (tree w) (tree w')"
    and "\<And>staged p d. staged_output loads tools fs module doc artifacts config outputs (tree w) = Inr staged
      \<Longrightarrow> (p, d) \<in> generated staged outputs \<Longrightarrow> \<not> temporary p \<and> d \<noteq> []"
  shows "generate pick' loads tools fs module doc artifacts config outputs True w' = (Inr (), w')"
proof -
  obtain staged where s: "staged_output loads tools fs module doc artifacts config outputs (tree w) = Inr staged"
    and p: "publish pick staged outputs False w = (Inr (), w')"
    using assms(1) by (auto simp: generate_def bindS_Inr raiseS_def)
  have "publish pick' staged outputs True w' = (Inr (), w')"
    using publish_settled [OF p] assms(4) [OF s] by blast
  moreover have "staged_output loads tools fs module doc artifacts config outputs (tree w') = Inr staged"
    using staged_same [OF assms(3,2)] s by simp
  ultimately show ?thesis
    by (simp add: generate_def bindS_def raiseS_def)
qed

section \<open>A small repository\<close>

definition demo_tool :: entry where
  "demo_tool = Dir [(''include'', Dir []), (''manifest.json'', File [1]), (''wasm'', Dir [(''capnp.wasm'', File [0])])]"

definition demo_config :: "(string, json) dict" where
  "demo_config = [(''schemas_root'', JStr ''schema''), (''entrypoints'', JList [JStr ''a.capnp'']), (''format'', JInt 0)]"

definition demo_chain :: toolchain where
  "demo_chain = \<lparr>run_compile = \<lambda>ws names. Inr [7], run_generator = \<lambda>m request. Inr demo_staged,
     run_fmt = \<lambda>out names. Inr out, run_convert = \<lambda>ws type_name. Inr []\<rparr>"

definition demo_lookups :: lookups where
  "demo_lookups = \<lparr>found = \<lambda>root p. look p root, followed = \<lambda>root p. look p root\<rparr>"

lemma demo_tool_verified: "verify_package demo_loads demo_tool demo_lock = Inr ()"
proof -
  have i: "inventory demo_tool = Inr demo_files"
    by (simp add: inventory_def demo_tool_def demo_files_def posix_def)
  have "demo_tool \<noteq> Link" "demo_package \<noteq> Link"
    by (simp_all add: demo_tool_def demo_package_def)
  then have "verify_package demo_loads demo_tool demo_lock = verify_package demo_loads demo_package demo_lock"
    by (simp add: verify_package_def i demo_inventory)
  then show ?thesis
    by (simp add: demo_lock_verified)
qed

lemma demo_installed: "installed_package demo_loads demo_lock [hexdigest [5] \<mapsto> demo_tool] = Inr demo_tool"
proof -
  have "dict_index demo_lock ''sha256'' = Inr (JStr (hexdigest [5]))"
    by (simp add: demo_lock_def dict_index_def)
  then show ?thesis
    by (simp add: installed_package_def demo_lock_pin demo_tool_verified)
qed

lemma demo_snapshot:
  "snapshot (found demo_lookups demo_root) demo_tool demo_config (Dir [])
     = Inr (Dir [(''src'', Dir [(''a.capnp'', File [9])]), (''include'', Dir [])])"
proof -
  have "safe_path (JStr ''schema'') = Inr [''schema'']" "safe_path (JStr ''a.capnp'') = Inr [''a.capnp'']"
    by (simp_all add: safe_path_def split_slash_def)
  moreover have "inventory (Dir [(''a.capnp'', File [9])]) = Inr [(''a.capnp'', [9])]"
    by (simp add: inventory_def posix_def)
  moreover have "split_slash ''a.capnp'' = [''a.capnp'']"
    by (simp add: split_slash_def)
  ultimately show ?thesis
    by (simp add: snapshot_def demo_lookups_def demo_root_def demo_config_def dict_index_def check_entrypoint_def
        posix_def require_def write_schema_def copy_tree_def demo_tool_def)
qed

lemma demo_staged_output:
  "staged_output demo_loads demo_chain demo_lookups (Inr [8]) demo_lock [hexdigest [5] \<mapsto> demo_tool]
     demo_config demo_outputs demo_root = Inr demo_staged"
  by (simp add: staged_output_def demo_installed demo_snapshot check_owned_def)
    (simp add: demo_config_def dict_index_def demo_chain_def)

section \<open>Properties\<close>

text \<open>
  Generating is reproducible: once \<open>generate\<close> has returned, the drift check on the repository it left
  succeeds and writes nothing, provided the generated files lie outside the schema tree, are not
  empty and are not named like temporary files.
\<close>

theorem generate_reproducible:
  assumes "generate pick loads tools fs module doc artifacts config outputs False w = (Inr (), w')"
    and "map_of config ''owned_output_directory'' = None" and "same_schema fs config (tree w) (tree w')"
    and "\<And>staged p d. staged_output loads tools fs module doc artifacts config outputs (tree w) = Inr staged
      \<Longrightarrow> (p, d) \<in> generated staged outputs \<Longrightarrow> \<not> temporary p \<and> d \<noteq> []"
  shows "generate pick' loads tools fs module doc artifacts config outputs True w' = (Inr (), w')"
  using assms(1-3) by (rule generate_settled) (rule assms(4))

theorem generate_reproducible_witness:
  "generate (\<lambda>_. ''y'') demo_loads demo_chain demo_lookups (Inr [8]) demo_lock [hexdigest [5] \<mapsto> demo_tool]
     demo_config demo_outputs True (snd (publish (\<lambda>_. ''x'') demo_staged demo_outputs False (demo_world demo_root)))
   = (Inr (), snd (publish (\<lambda>_. ''x'') demo_staged demo_outputs False (demo_world demo_root)))"
proof -
  let ?w = "demo_world demo_root" and ?w' = "snd (publish (\<lambda>_. ''x'') demo_staged demo_outputs False (demo_world demo_root))"
  have "publish (\<lambda>_. ''x'') demo_staged demo_outputs False ?w = (Inr (), ?w')"
    using demo_publish(1) by (metis prod.collapse)
  then have g: "generate (\<lambda>_. ''x'') demo_loads demo_chain demo_lookups (Inr [8]) demo_lock [hexdigest [5] \<mapsto> demo_tool]
      demo_config demo_outputs False ?w = (Inr (), ?w')"
    using demo_staged_output by (simp add: generate_def bindS_def raiseS_def demo_world_def)
  have "safe_path (JStr ''schema'') = Inr [''schema'']"
    by (simp add: safe_path_def split_slash_def)
  then have same: "same_schema demo_lookups demo_config (tree ?w) (tree ?w')"
    using demo_publish(2) by (simp add: same_schema_def demo_config_def demo_lookups_def demo_world_def demo_root_def)
  have plain: "\<not> temporary p \<and> d \<noteq> []"
    if "staged_output demo_loads demo_chain demo_lookups (Inr [8]) demo_lock [hexdigest [5] \<mapsto> demo_tool]
          demo_config demo_outputs (tree ?w) = Inr staged" "(p, d) \<in> generated staged demo_outputs" for staged p d
    using that demo_staged_output demo_generated by (simp add: demo_world_def temporary_def)
  have "map_of demo_config ''owned_output_directory'' = None"
    by (simp add: demo_config_def)
  then show ?thesis
    by (rule generate_reproducible [OF g _ same]) (rule plain)
qed

end
