(* ===== verification/Tool_Generator.thy ===== *)
theory Tool_Generator
  imports Tool_Publish Tool_Install Py_Regex
begin

text \<open>
  The generator cache of \<open>tools/capnp_tool.py\<close>: \<open>mise_pin\<close>, \<open>dependency\<close> and \<open>generator\<close> (lines 175 to
  237). The tree of a world is the directory \<open>cache_root\<close>, which only these tools fill, with
  directories and regular files. Running zig and opening a tar archive are parameters; nothing
  is assumed of them but that they are functions of their inputs. The temporary directory of a
  build holds values here, because nothing else reads it. The lemmas say what the two patterns
  find, that the name of a cache entry binds the inputs of the build, and that a binary the tool
  returns is the one those inputs build, whatever interrupted an earlier run.
\<close>

section \<open>Reading the pins\<close>

text \<open>\<open>r"^" + re.escape(name) + r'\s*=\s*"([^"]+)"'\<close> with \<open>re.MULTILINE\<close>\<close>

definition pin_pattern :: "string \<Rightarrow> regex" where
  "pin_pattern name = seqs [Line_Start, lit name, spaces, chr (CHR ''=''), spaces, lit dq, Group (plus (none_of dq)), lit dq]"

definition mise_pin :: "string \<Rightarrow> string \<Rightarrow> string result" where
  "mise_pin mise name = (case search (pin_pattern name) mise of
       None \<Rightarrow> Inl (ValueError ''missing mise tool pin'')
     | Some (_, _, groups, _) \<Rightarrow> Inr (hd groups))"

definition dependency_pattern :: "string \<Rightarrow> regex" where
  "dependency_pattern name =
     seqs [lit ''.'', lit name, spaces, chr (CHR ''=''), spaces, lit ''.{'', Group (plus (none_of ''}'')), lit ''}'']"

definition field_pattern :: regex where
  "field_pattern = seqs [lit ''.'', Group (Alt (lit ''url'') (lit ''hash'')), spaces, chr (CHR ''=''), spaces,
     lit dq, Group (plus (none_of dq)), lit dq]"

definition dependency :: "string \<Rightarrow> string \<Rightarrow> (string, string) dict result" where
  "dependency zon name = (case search (dependency_pattern name) zon of
       None \<Rightarrow> Inl (ValueError ''missing generator dependency'')
     | Some (_, _, groups, _) \<Rightarrow>
         let fields = dict_update [] (map (\<lambda>g. (g ! 0, g ! 1)) (findall field_pattern (hd groups)))
         in bindE (require (fst ` set fields = {''url'', ''hash''}) ''generator dependency must have a URL and package hash'') (\<lambda>_.
              Inr fields))"

section \<open>The name of a cache entry\<close>

definition generator_flags :: "string list" where
  "generator_flags = [''-target'', ''wasm32-wasi'', ''-O'', ''ReleaseSafe'', ''-fstrip'', ''--stack'', ''8388608'']"

text \<open>\<open>json.dumps([dep, version, flags], sort_keys=True)\<close>\<close>

definition dict_text :: "(string, string) dict \<Rightarrow> string" where
  "dict_text d = ''{'' @ join '', '' (map (\<lambda>(k, v). json_string k @ '': '' @ json_string v) (sorted_items d)) @ ''}''"

definition key_text :: "(string, string) dict \<Rightarrow> string \<Rightarrow> string" where
  "key_text dep zig = ''['' @ join '', '' [dict_text dep, json_string zig,
     ''['' @ join '', '' (map json_string generator_flags) @ '']''] @ '']''"

definition generator_key :: "(string, string) dict \<Rightarrow> string \<Rightarrow> string" where
  "generator_key dep zig = hexdigest (utf8 (key_text dep zig))"

section \<open>Building\<close>

text \<open>What zig does: the version it prints, the hash and the package archives of a fetch, the binary it builds.\<close>

record zig_tool =
  zig_version :: "string result"
  zig_fetch :: "string \<Rightarrow> (string \<times> (string \<Rightarrow> bytes option)) result"
  zig_build :: "string \<Rightarrow> entry \<Rightarrow> string list \<Rightarrow> bytes result"

definition strip_where :: "('a \<Rightarrow> bool) \<Rightarrow> 'a list \<Rightarrow> 'a list" where
  "strip_where P s = rev (dropWhile P (rev (dropWhile P s)))"

fun find_source :: "nat \<Rightarrow> entry \<Rightarrow> entry result" where
  "find_source 0 source = Inr source"
| "find_source (Suc n) source =
     (case look [''src'', ''main.zig''] source of
        Some (File d) \<Rightarrow> Inr source
      | _ \<Rightarrow> (case source of
          Dir [(name, Dir es)] \<Rightarrow> find_source n (Dir es)
        | _ \<Rightarrow> Inl (ValueError ''unexpected generator source archive layout'')))"

definition fresh_binary :: "zig_tool \<Rightarrow> (bytes \<Rightarrow> member list result) \<Rightarrow> (string, string) dict \<Rightarrow> string \<Rightarrow> bytes result" where
  "fresh_binary zig untar dep zig_v =
     bindE (dict_index dep ''url'') (\<lambda>url.
     bindE (zig_fetch zig url) (\<lambda>(out, archives).
     bindE (dict_index dep ''hash'') (\<lambda>h.
     bindE (require (strip_where py_space out = h) ''generator source package hash mismatch'') (\<lambda>_.
     case archives (h @ ''.tar.gz'') of
       None \<Rightarrow> Inl (ValueError ''Zig did not produce the expected verified package archive'')
     | Some archive \<Rightarrow>
         bindE (untar archive) (\<lambda>members.
         bindE (extract_archive members) (\<lambda>unpacked.
         bindE (find_source 4 unpacked) (\<lambda>source.
           zig_build zig zig_v source generator_flags)))))))"

section \<open>The cache\<close>

definition cache_dir :: "string \<Rightarrow> path" where
  "cache_dir key = [''generators'', key]"

definition binary_path :: "string \<Rightarrow> path" where
  "binary_path key = cache_dir key @ [''capnpc-zig.wasm'']"

definition stamp_path :: "string \<Rightarrow> path" where
  "stamp_path key = cache_dir key @ [''sha256'']"

text \<open>\<open>read_text\<close>: the code points of valid UTF-8, and the ones \<open>strip\<close> takes for white space.\<close>

fun utf8_points :: "bytes \<Rightarrow> nat list" where
  "utf8_points [] = []"
| "utf8_points (a # s) =
     (if a < 0x80 then unat a # utf8_points s
      else if a \<le> 0xDF then (case s of b # s \<Rightarrow> (unat a mod 32 * 64 + unat b mod 64) # utf8_points s | _ \<Rightarrow> [])
      else if a \<le> 0xEF then (case s of b # c # s \<Rightarrow>
        ((unat a mod 16 * 64 + unat b mod 64) * 64 + unat c mod 64) # utf8_points s | _ \<Rightarrow> [])
      else (case s of b # c # d # s \<Rightarrow>
        (((unat a mod 8 * 64 + unat b mod 64) * 64 + unat c mod 64) * 64 + unat d mod 64) # utf8_points s | _ \<Rightarrow> []))"

definition read_points :: "bytes \<Rightarrow> nat list result" where
  "read_points d = bindE (require (utf8_ok d) ''codec can't decode'') (\<lambda>_. Inr (utf8_points d))"

definition point_space :: "nat \<Rightarrow> bool" where
  "point_space n \<longleftrightarrow> n \<in> {9, 10, 11, 12, 13, 28, 29, 30, 31, 32, 133, 160, 5760, 8232, 8233, 8239, 8287, 12288}
     \<or> 8192 \<le> n \<and> n \<le> 8202"

definition read_entry :: "entry \<Rightarrow> bytes result" where
  "read_entry e = (case e of
       File d \<Rightarrow> Inr d
     | Dir es \<Rightarrow> Inl (OSError ''is a directory'')
     | _ \<Rightarrow> Inl (OSError ''link or special file''))"

text \<open>\<open>binary.exists() and stamp.exists() and digest(binary.read_bytes()) == stamp.read_text().strip()\<close>\<close>

definition accepted :: "string \<Rightarrow> entry \<Rightarrow> bool result" where
  "accepted key t = (case (look (binary_path key) t, look (stamp_path key) t) of
       (Some b, Some s) \<Rightarrow>
         bindE (read_entry b) (\<lambda>data.
         bindE (read_entry s) (\<lambda>raw.
         bindE (read_points raw) (\<lambda>points.
           Inr (map of_char (hexdigest data) = strip_where point_space points))))
     | _ \<Rightarrow> Inr False)"

text \<open>
  The version and the dependency, or the exception that stops the tool before it touches the
  cache. \<open>mise\<close> and \<open>zon\<close> are what reading \<open>mise.toml\<close> and \<open>build.zig.zon\<close> gives.
\<close>

definition generator_inputs :: "zig_tool \<Rightarrow> string result \<Rightarrow> string result \<Rightarrow> (string, json) dict \<Rightarrow> ((string, string) dict \<times> string) result" where
  "generator_inputs zig mise zon config =
     bindE (zig_version zig) (\<lambda>out.
     let zig_v = strip_where py_space out in
     bindE mise (\<lambda>mise_text.
     bindE (mise_pin mise_text ''zig'') (\<lambda>pinned.
     bindE (require (zig_v = pinned) ''Zig differs from mise.toml; run through mise exec'') (\<lambda>_.
     bindE (dict_index config ''dependency'') (\<lambda>name. case name of
         JStr name \<Rightarrow> bindE zon (\<lambda>zon_text. bindE (dependency zon_text name) (\<lambda>dep. Inr (dep, zig_v)))
       | _ \<Rightarrow> Inl TypeError)))))"

text \<open>\<open>stamp.write_text(...)\<close> truncates the file before it writes.\<close>

definition write_stamp :: "string \<Rightarrow> unit io" where
  "write_stamp key w = (case look (binary_path key) (tree w) of
       Some (File data) \<Rightarrow>
         bindS (callS (put_file (stamp_path key) [])) (\<lambda>_. callS (put_file (stamp_path key) (utf8 (hexdigest data)))) w
     | _ \<Rightarrow> (Inl (OSError ''no such file or directory''), w))"

definition build_entry :: "bytes result \<Rightarrow> string \<Rightarrow> unit io" where
  "build_entry fresh key =
     bindS (callS (mkdirs [''generators''])) (\<lambda>_.
     bindS (raiseS fresh) (\<lambda>output.
     bindS (callS (mkdirs (cache_dir key))) (\<lambda>_.
     bindS (callS (place (binary_path key) output)) (\<lambda>_.
       write_stamp key))))"

definition generator :: "zig_tool \<Rightarrow> (bytes \<Rightarrow> member list result) \<Rightarrow> string result \<Rightarrow> string result \<Rightarrow> (string, json) dict \<Rightarrow> path io" where
  "generator zig untar mise zon config =
     bindS (raiseS (generator_inputs zig mise zon config)) (\<lambda>(dep, zig_v).
     let key = generator_key dep zig_v in
     bindS (\<lambda>w. (accepted key (tree w), w)) (\<lambda>ok.
     if ok then returnS (binary_path key)
     else bindS (build_entry (fresh_binary zig untar dep zig_v) key) (\<lambda>_. returnS (binary_path key))))"

section \<open>Text of stamps and keys\<close>

lemma utf8_Nil [simp]: "utf8 [] = []"
  by (simp add: utf8_def)

lemma utf8_Cons:
  "utf8 (c # s) = (if of_char c < (128 :: nat) then [of_nat (of_char c)]
     else [of_nat (192 + of_char c div 64), of_nat (128 + of_char c mod 64)]) @ utf8 s"
  by (simp add: utf8_def Let_def)

lemma utf8_points_utf8: "utf8_ok (utf8 s) \<and> utf8_points (utf8 s) = map of_char s"
proof (induction s)
  case Nil
  show ?case by simp
next
  case (Cons c s)
  let ?n = "of_char c :: nat"
  have small: "?n < 256" by simp
  show ?case
  proof (cases "?n < 128")
    case True
    then show ?thesis
      using Cons by (simp add: utf8_Cons word_less_nat_alt unat_of_nat)
  next
    case False
    obtain q m where n: "?n = 64 * q + m" and m: "m < 64"
      by (metis mult.commute div_mult_mod_eq mod_less_divisor zero_less_numeral)
    with False small have q: "q = 2 \<or> q = 3" by linarith
    have u: "unat (of_nat (128 + m) :: byte) = 128 + m"
      using m by (simp add: unat_of_nat del: of_nat_add)
    have "?n div 64 = q" "?n mod 64 = m"
      using n m by auto
    with q have "utf8 (c # s) = (if q = 2 then 0xC2 else 0xC3) # of_nat (128 + m) # utf8 s"
      using False by (auto simp: utf8_Cons)
    moreover have "cont_byte (of_nat (128 + m))"
      using m u by (simp add: cont_byte_def word_le_nat_alt del: of_nat_add)
    moreover have "(128 + m) mod 64 = m"
      using m mod_mult_self3 [of 2 64 m] by simp
    ultimately show ?thesis
      using Cons q m n u by (auto simp: word_le_nat_alt word_less_nat_alt simp del: of_nat_add)
  qed
qed

lemma utf8_inj: "utf8 s = utf8 t \<longleftrightarrow> s = t"
  by (metis utf8_points_utf8 of_char_eq_iff inj_onI list.inj_map_strong)

lemma two_fields:
  assumes "dict_ok d" and "fst ` set d = {''url'', ''hash''}"
  shows "\<exists>h u. sorted_items d = [(''hash'', h), (''url'', u)] \<and> map_of d = [''hash'' \<mapsto> h, ''url'' \<mapsto> u]"
proof -
  obtain h where h: "map_of d ''hash'' = Some h"
    using assms(2) by (cases "map_of d ''hash''") (auto simp: map_of_eq_None_iff)
  obtain u where u: "map_of d ''url'' = Some u"
    using assms(2) by (cases "map_of d ''url''") (auto simp: map_of_eq_None_iff)
  have m: "map_of d = [''hash'' \<mapsto> h, ''url'' \<mapsto> u]"
  proof
    fix k
    show "map_of d k = [''hash'' \<mapsto> h, ''url'' \<mapsto> u] k"
      using h u assms(2) by (cases "k \<in> {''url'', ''hash''}") (auto simp: map_of_eq_None_iff)
  qed
  have "sorted_items d = sorted_items [(''hash'', h), (''url'', u)]"
    using assms(1) m by (intro sorted_items_eq) (auto simp: dict_ok_def fun_eq_iff)
  then show ?thesis
    using m by (simp add: sorted_items_def)
qed

lemma key_text_inj:
  assumes "key_text d v = key_text e w" and "dict_ok d" "dict_ok e"
    and "fst ` set d = {''url'', ''hash''}" "fst ` set e = {''url'', ''hash''}"
  shows "map_of d = map_of e \<and> v = w"
proof -
  obtain h u where d: "sorted_items d = [(''hash'', h), (''url'', u)]" "map_of d = [''hash'' \<mapsto> h, ''url'' \<mapsto> u]"
    using two_fields [OF assms(2,4)] by blast
  obtain h' u' where e: "sorted_items e = [(''hash'', h'), (''url'', u')]" "map_of e = [''hash'' \<mapsto> h', ''url'' \<mapsto> u']"
    using two_fields [OF assms(3,5)] by blast
  have "json_string h @ '', '' @ json_string ''url'' @ '': '' @ json_string u @ ''}, '' @ json_string v @ '', [''
        @ join '', '' (map json_string generator_flags) @ '']]''
      = json_string h' @ '', '' @ json_string ''url'' @ '': '' @ json_string u' @ ''}, '' @ json_string w @ '', [''
        @ join '', '' (map json_string generator_flags) @ '']]''"
    using assms(1) by (simp add: key_text_def dict_text_def d(1) e(1))
  then show ?thesis
    using d(2) e(2) json_string_code [of v "[]" w "[]"] by (auto dest!: json_string_code)
qed

section \<open>What the cache holds\<close>

definition stamps :: "bytes \<Rightarrow> bytes \<Rightarrow> bool" where
  "stamps raw data \<longleftrightarrow> utf8_ok raw \<and> map of_char (hexdigest data) = strip_where point_space (utf8_points raw)"

lemma accepted_True:
  "accepted key t = Inr True \<longleftrightarrow> (\<exists>data raw. look (binary_path key) t = Some (File data)
     \<and> look (stamp_path key) t = Some (File raw) \<and> stamps raw data)"
  by (auto simp: accepted_def read_entry_def read_points_def stamps_def bindE_Inr_iff split: option.splits entry.splits)

lemma strip_none: "\<forall>x \<in> set s. \<not> P x \<Longrightarrow> strip_where P s = s"
proof -
  have "dropWhile P xs = xs" if "\<forall>x \<in> set xs. \<not> P x" for xs
    using that by (cases xs) auto
  note this [of s] this [of "rev s"]
  then show "\<forall>x \<in> set s. \<not> P x \<Longrightarrow> strip_where P s = s"
    by (simp add: strip_where_def)
qed

lemma stamps_hexdigest: "stamps (utf8 (hexdigest data)) data"
proof -
  have "\<not> point_space (of_char c)" if "lower_hex c" for c
    using that by (auto simp: lower_hex_def point_space_def)
  then have "strip_where point_space (map of_char (hexdigest data)) = map of_char (hexdigest data)"
    using hexdigest_form(2) by (intro strip_none) auto
  then show ?thesis
    by (simp add: stamps_def utf8_points_utf8)
qed

lemma stamps_Nil: "\<not> stamps [] data"
  using hexdigest_form(1) [of data] by (auto simp: stamps_def strip_where_def)

text \<open>
  Every binary the cache test accepts was built for its key; the tree is otherwise arbitrary.
\<close>

definition built :: "zig_tool \<Rightarrow> (bytes \<Rightarrow> member list result) \<Rightarrow> string \<Rightarrow> bytes \<Rightarrow> bool" where
  "built zig untar key data \<longleftrightarrow> (\<exists>dep zig_v. dict_ok dep \<and> fst ` set dep = {''url'', ''hash''}
     \<and> key = generator_key dep zig_v \<and> fresh_binary zig untar dep zig_v = Inr data)"

definition cache_ok :: "zig_tool \<Rightarrow> (bytes \<Rightarrow> member list result) \<Rightarrow> entry \<Rightarrow> bool" where
  "cache_ok zig untar t \<longleftrightarrow> (\<forall>key data raw. look (binary_path key) t = Some (File data)
     \<longrightarrow> look (stamp_path key) t = Some (File raw) \<longrightarrow> stamps raw data \<longrightarrow> built zig untar key data)"

lemma entry_paths [simp]:
  "binary_path k = binary_path l \<longleftrightarrow> k = l" "stamp_path k = stamp_path l \<longleftrightarrow> k = l"
  "binary_path k \<noteq> stamp_path l" "stamp_path k \<noteq> binary_path l"
  by (simp_all add: binary_path_def stamp_path_def cache_dir_def)

lemma leaf_File [simp]: "leaf (File d)"
  by (simp add: leaf_def)

lemma mkdirs_cache_ok: "mkdirs p t = Inr t' \<Longrightarrow> cache_ok zig untar t \<Longrightarrow> cache_ok zig untar t'"
  by (simp add: cache_ok_def mkdirs_leaf)

lemma place_cache_ok:
  "place (binary_path key) output t = Inr t' \<Longrightarrow> built zig untar key output \<Longrightarrow> cache_ok zig untar t
     \<Longrightarrow> cache_ok zig untar t' \<and> look (binary_path key) t' = Some (File output)"
  by (auto simp: cache_ok_def place_leaf)

lemma stamp_cache_ok:
  assumes "put_file (stamp_path key) raw t = Inr t'" and "cache_ok zig untar t"
    and "look (binary_path key) t = Some (File data)" and "stamps raw data \<longrightarrow> built zig untar key data"
  shows "cache_ok zig untar t' \<and> look (binary_path key) t' = Some (File data) \<and> look (stamp_path key) t' = Some (File raw)"
  using assms by (auto simp: cache_ok_def put_file_leaf)

text \<open>How a call adds one tree.\<close>

lemma callS_seen:
  assumes "callS f w = (r, w')" and "\<forall>t \<in> seen w. I t" and "\<And>t'. f (tree w) = Inr t' \<Longrightarrow> I t'"
  shows "\<forall>t \<in> seen w'. I t"
  using assms by (elim callS_cases) auto

lemma callS_Inr_tree: "callS f w = (Inr u, w') \<Longrightarrow> f (tree w) = Inr (tree w')"
  by (simp add: callS_Inr)

lemma write_stamp_ok:
  assumes w: "write_stamp key w = (r, w')" and ok: "\<forall>t \<in> seen w. cache_ok zig untar t"
    and b: "look (binary_path key) (tree w) = Some (File output)" "built zig untar key output"
  shows "\<forall>t \<in> seen w'. cache_ok zig untar t"
    and "r = Inr () \<Longrightarrow> look (binary_path key) (tree w') = Some (File output)
      \<and> look (stamp_path key) (tree w') = Some (File (utf8 (hexdigest output)))"
proof -
  let ?f = "put_file (stamp_path key) []" and ?g = "put_file (stamp_path key) (utf8 (hexdigest output))"
  have m: "bindS (callS ?f) (\<lambda>_. callS ?g) w = (r, w')"
    using w b(1) by (simp add: write_stamp_def)
  have empty: "cache_ok zig untar t \<and> look (binary_path key) t = Some (File output)" if "?f (tree w) = Inr t" for t
    using stamp_cache_ok [OF that _ b(1), of zig untar] ok stamps_Nil by simp
  have "(\<forall>t \<in> seen w'. cache_ok zig untar t) \<and> (r = Inr () \<longrightarrow> look (binary_path key) (tree w') = Some (File output)
      \<and> look (stamp_path key) (tree w') = Some (File (utf8 (hexdigest output))))"
    using m
  proof (cases rule: bindS_cases)
    case (1 e)
    then show ?thesis
      using callS_seen [OF 1(1) ok] empty by simp
  next
    case (2 u v)
    note v = callS_Inr_tree [OF 2(1)]
    have okv: "\<forall>t \<in> seen v. cache_ok zig untar t"
      using callS_seen [OF 2(1) ok] empty by blast
    have 3: "cache_ok zig untar t \<and> look (binary_path key) t = Some (File output)
        \<and> look (stamp_path key) t = Some (File (utf8 (hexdigest output)))" if "?g (tree v) = Inr t" for t
      using stamp_cache_ok [OF that, of zig untar "output"] okv empty [OF v] b(2) by simp
    show ?thesis
      using callS_seen [OF 2(2) okv] 3 callS_Inr_tree [of ?g v _ w'] 2(2) by auto
  qed
  then show "\<forall>t \<in> seen w'. cache_ok zig untar t"
    and "r = Inr () \<Longrightarrow> look (binary_path key) (tree w') = Some (File output)
      \<and> look (stamp_path key) (tree w') = Some (File (utf8 (hexdigest output)))"
    by blast+
qed

lemma build_entry_ok:
  assumes m: "build_entry fresh key w = (r, w')" and ok: "\<forall>t \<in> seen w. cache_ok zig untar t"
    and b: "\<And>x. fresh = Inr x \<Longrightarrow> built zig untar key x"
  shows "(\<forall>t \<in> seen w'. cache_ok zig untar t) \<and> (r = Inr () \<longrightarrow> (\<exists>x. fresh = Inr x
    \<and> look (binary_path key) (tree w') = Some (File x)
    \<and> look (stamp_path key) (tree w') = Some (File (utf8 (hexdigest x)))))"
proof -
  have dirs: "\<forall>t \<in> seen v'. cache_ok zig untar t"
    if "callS (mkdirs p) v = (a, v')" "\<forall>t \<in> seen v. cache_ok zig untar t" for p v a v'
    using callS_seen [OF that] mkdirs_cache_ok that(2) tree_seen by blast
  show ?thesis
    using m unfolding build_entry_def
  proof (cases rule: bindS_cases)
    case (1 e)
    then show ?thesis using dirs [OF 1(1) ok] by simp
  next
    case (2 u v)
    note okv = dirs [OF 2(1) ok]
    show ?thesis
      using 2(2)
    proof (cases rule: bindS_cases)
      case (1 e)
      then show ?thesis using okv by (simp add: raiseS_def)
    next
      case (2 new v1)
      then have fresh: "fresh = Inr new" and v1: "v1 = v"
        by (simp_all add: raiseS_def)
      show ?thesis
        using 2(2) unfolding v1
      proof (cases rule: bindS_cases)
        case (1 e)
        then show ?thesis using dirs [OF 1(1) okv] by simp
      next
        case (2 u2 v2)
        note ok2 = dirs [OF 2(1) okv]
        have place: "cache_ok zig untar t \<and> look (binary_path key) t = Some (File new)"
          if "place (binary_path key) new (tree v2) = Inr t" for t
          using place_cache_ok [OF that b [OF fresh]] ok2 by simp
        show ?thesis
          using 2(2)
        proof (cases rule: bindS_cases)
          case (1 e)
          then show ?thesis using callS_seen [OF 1(1) ok2] place by simp
        next
          case (2 u3 v3)
          have ok3: "\<forall>t \<in> seen v3. cache_ok zig untar t"
            using callS_seen [OF 2(1) ok2] place by blast
          have "look (binary_path key) (tree v3) = Some (File new)"
            using place [OF callS_Inr_tree [OF 2(1)]] by simp
          then show ?thesis
            using write_stamp_ok [OF 2(2) ok3 _ b [OF fresh]] fresh by blast
        qed
      qed
    qed
  qed
qed

section \<open>What the generator returns\<close>

lemma dependency_fields: "dependency zon name = Inr dep \<Longrightarrow> dict_ok dep \<and> fst ` set dep = {''url'', ''hash''}"
  by (auto simp only: dependency_def Let_def bindE_Inr_iff require_Inr_iff sum.inject dict_ok_Nil dict_ok_update
      split: option.splits prod.splits)

lemma generator_inputs_dep:
  assumes "generator_inputs zig mise zon config = Inr (dep, zig_v)"
  shows "dict_ok dep \<and> fst ` set dep = {''url'', ''hash''}"
proof -
  obtain v w where "(case v of JStr name \<Rightarrow> bindE zon (\<lambda>zon_text. bindE (dependency zon_text name) (\<lambda>dep. Inr (dep, w)))
      | _ \<Rightarrow> Inl TypeError) = Inr (dep, zig_v)"
    using assms by (auto simp: generator_inputs_def bindE_Inr_iff Let_def)
  then show ?thesis
    by (cases v) (auto simp: bindE_Inr_iff simp del: set_map image_iff dest!: dependency_fields)
qed

lemma fresh_binary_map_of: "map_of d = map_of e \<Longrightarrow> fresh_binary zig untar d v = fresh_binary zig untar e v"
  by (simp add: fresh_binary_def dict_index_def)

text \<open>What a key stands for, unless another key text has the same digest.\<close>

definition key_collision :: "(string, string) dict \<Rightarrow> string \<Rightarrow> bool" where
  "key_collision dep zig_v \<longleftrightarrow> (\<exists>dep' zig_v'. key_text dep' zig_v' \<noteq> key_text dep zig_v
     \<and> digest (utf8 (key_text dep' zig_v')) = digest (utf8 (key_text dep zig_v)))"

lemma built_fresh:
  assumes "built zig untar (generator_key dep zig_v) data" and "dict_ok dep" "fst ` set dep = {''url'', ''hash''}"
  shows "fresh_binary zig untar dep zig_v = Inr data \<or> key_collision dep zig_v"
proof -
  obtain d v where d: "dict_ok d" "fst ` set d = {''url'', ''hash''}"
    "generator_key dep zig_v = generator_key d v" "fresh_binary zig untar d v = Inr data"
    using assms(1) by (auto simp: built_def)
  show ?thesis
  proof (cases "key_text dep zig_v = key_text d v")
    case True
    then show ?thesis
      using key_text_inj [OF True assms(2) d(1) assms(3) d(2)] d(4) fresh_binary_map_of by metis
  next
    case False
    then show ?thesis
      using d(3) unfolding key_collision_def generator_key_def hexdigest_def hex_inj by metis
  qed
qed

lemma generator_spec:
  assumes ok: "\<forall>t \<in> seen w. cache_ok zig untar t" and g: "generator zig untar mise zon config w = (r, w')"
  shows "(\<forall>t \<in> seen w'. cache_ok zig untar t) \<and> (\<forall>p. r = Inr p \<longrightarrow>
    (\<exists>dep zig_v data. generator_inputs zig mise zon config = Inr (dep, zig_v)
       \<and> p = binary_path (generator_key dep zig_v) \<and> look p (tree w') = Some (File data)
       \<and> accepted (generator_key dep zig_v) (tree w') = Inr True
       \<and> (fresh_binary zig untar dep zig_v = Inr data \<or> key_collision dep zig_v)))"
proof (cases "generator_inputs zig mise zon config")
  case (Inl e)
  then show ?thesis
    using g ok by (auto simp: generator_def bindS_def raiseS_def)
next
  case (Inr inp)
  obtain dep zig_v where inp: "generator_inputs zig mise zon config = Inr (dep, zig_v)"
    using Inr by (cases inp) auto
  note dep = generator_inputs_dep [OF inp]
  let ?k = "generator_key dep zig_v" and ?fresh = "fresh_binary zig untar dep zig_v"
  have run: "bindS (\<lambda>w. (accepted ?k (tree w), w)) (\<lambda>ok. if ok then returnS (binary_path ?k)
      else bindS (build_entry ?fresh ?k) (\<lambda>_. returnS (binary_path ?k))) w = (r, w')"
    using g inp by (simp add: generator_def bindS_def raiseS_def Let_def)
  show ?thesis
  proof (cases "accepted ?k (tree w)")
    case (Inl e)
    then show ?thesis using run ok by (auto simp: bindS_def)
  next
    case (Inr hit)
    show ?thesis
    proof (cases hit)
      case True
      then have r: "r = Inr (binary_path ?k)" "w' = w"
        using run Inr by (simp_all add: bindS_def returnS_def)
      obtain data raw where "look (binary_path ?k) (tree w) = Some (File data)"
        "look (stamp_path ?k) (tree w) = Some (File raw)" "stamps raw data"
        using Inr True by (auto simp: accepted_True)
      moreover from this have "built zig untar ?k data"
        using ok tree_seen [of w] unfolding cache_ok_def by blast
      ultimately show ?thesis
        using r ok inp Inr True built_fresh [of zig untar dep zig_v data] dep by auto
    next
      case False
      then have b: "bindS (build_entry ?fresh ?k) (\<lambda>_. returnS (binary_path ?k)) w = (r, w')"
        using run Inr by (simp add: bindS_def)
      have new: "built zig untar ?k x" if "?fresh = Inr x" for x
        using dep that by (auto simp: built_def)
      show ?thesis
        using b
      proof (cases rule: bindS_cases)
        case (1 e)
        then show ?thesis using build_entry_ok [OF 1(1) ok new] by simp
      next
        case (2 u v)
        then have "r = Inr (binary_path ?k)" "v = w'"
          by (simp_all add: returnS_def)
        then show ?thesis
          using build_entry_ok [OF 2(1) ok new] inp stamps_hexdigest by (auto simp: accepted_True)
      qed
    qed
  qed
qed

lemma generator_hit:
  assumes "generator_inputs zig mise zon config = Inr (dep, zig_v)"
    and "accepted (generator_key dep zig_v) (tree w) = Inr True"
  shows "generator zig untar mise zon config w = (Inr (binary_path (generator_key dep zig_v)), w)"
  using assms by (simp add: generator_def bindS_def raiseS_def returnS_def Let_def)

section \<open>What the patterns find\<close>

lemma reads_pin_pattern:
  "reads (pin_pattern name) prev u g \<longleftrightarrow> (prev = None \<or> prev = Some (CHR 10)) \<and> (\<exists>a b v. g = [v] \<and> u = name @ a @ ''='' @ b @ dq @ v @ dq
     \<and> list_all py_space a \<and> list_all py_space b \<and> v \<noteq> [] \<and> CHR 34 \<notin> set v)"
  unfolding pin_pattern_def seqs.simps reads_seq
  by (simp add: none_of_def del: lit.simps) (rule iffI; clarsimp; blast)

lemma reads_dependency_pattern:
  "reads (dependency_pattern name) prev u g \<longleftrightarrow> (\<exists>a b v. g = [v] \<and> u = ''.'' @ name @ a @ ''='' @ b @ ''.{'' @ v @ ''}''
     \<and> list_all py_space a \<and> list_all py_space b \<and> v \<noteq> [] \<and> CHR ''}'' \<notin> set v)"
  unfolding dependency_pattern_def seqs.simps reads_seq
  by (simp add: none_of_def del: lit.simps) (rule iffI; clarsimp; blast)

lemma reads_field_pattern:
  "reads field_pattern prev u g \<longleftrightarrow> (\<exists>k a b v. g = [k, v] \<and> u = ''.'' @ k @ a @ ''='' @ b @ dq @ v @ dq
     \<and> k \<in> {''url'', ''hash''} \<and> list_all py_space a \<and> list_all py_space b \<and> v \<noteq> [] \<and> CHR 34 \<notin> set v)"
proof -
  have alt: "reads (Alt (lit ''url'') (lit ''hash'')) q k h \<longleftrightarrow> k \<in> {''url'', ''hash''} \<and> h = []" for q k h
    by (auto simp del: lit.simps intro: reads_Alt1 reads_Alt2)
  show ?thesis
    unfolding field_pattern_def seqs.simps reads_seq alt
    by (simp add: none_of_def del: lit.simps insert_iff) (rule iffI; clarsimp simp del: insert_iff; blast)
qed

text \<open>A pin is the quoted text after the name on a line that starts with it.\<close>

definition pin_at :: "string \<Rightarrow> string \<Rightarrow> string \<Rightarrow> bool" where
  "pin_at mise name v \<longleftrightarrow> (\<exists>a ws ws' b. mise = a @ (name @ ws @ ''='' @ ws' @ dq @ v @ dq) @ b \<and> (a = [] \<or> last a = CHR 10)
     \<and> list_all py_space ws \<and> list_all py_space ws' \<and> v \<noteq> [] \<and> CHR 34 \<notin> set v)"

lemma pin_at_reads: "pin_at mise name v \<longleftrightarrow> (\<exists>a u b. mise = a @ u @ b \<and> reads (pin_pattern name) (prev_after None a) u [v])"
  unfolding pin_at_def reads_pin_pattern line_start_prev by blast

lemma mise_pin_Inr: "mise_pin mise name = Inr v \<Longrightarrow> pin_at mise name v"
proof -
  assume "mise_pin mise name = Inr v"
  then obtain a u g b where "search (pin_pattern name) mise = Some (a, u, g, b)" and v: "v = hd g"
    by (auto simp: mise_pin_def split: option.splits)
  from search_Some [OF this(1)] have s: "mise = a @ u @ b" "reads (pin_pattern name) (prev_after None a) u g"
    by blast+
  then have "g = [v]"
    using v by (auto simp: reads_pin_pattern)
  with s show ?thesis
    unfolding pin_at_reads by blast
qed

lemma mise_pin_Inl: "mise_pin mise name = Inl e \<longleftrightarrow> e = ValueError ''missing mise tool pin'' \<and> (\<forall>v. \<not> pin_at mise name v)"
proof -
  have "(\<forall>v. \<not> pin_at mise name v) \<longleftrightarrow> search (pin_pattern name) mise = None"
    unfolding pin_at_reads search_None reads_pin_pattern by blast
  then show ?thesis
    by (auto simp: mise_pin_def split: option.splits)
qed

text \<open>A dependency block, and a field inside it.\<close>

definition field_in :: "string \<Rightarrow> string \<Rightarrow> string \<Rightarrow> bool" where
  "field_in body k v \<longleftrightarrow> (\<exists>a ws ws' b. body = a @ (''.'' @ k @ ws @ ''='' @ ws' @ dq @ v @ dq) @ b
     \<and> list_all py_space ws \<and> list_all py_space ws' \<and> v \<noteq> [] \<and> CHR 34 \<notin> set v)"

definition dependency_at :: "string \<Rightarrow> string \<Rightarrow> string \<Rightarrow> bool" where
  "dependency_at zon name body \<longleftrightarrow> (\<exists>a ws ws' b. zon = a @ (''.'' @ name @ ws @ ''='' @ ws' @ ''.{'' @ body @ ''}'') @ b
     \<and> list_all py_space ws \<and> list_all py_space ws' \<and> body \<noteq> [] \<and> CHR ''}'' \<notin> set body)"

lemma findall_field: "g \<in> set (findall field_pattern body) \<Longrightarrow> field_in body (g ! 0) (g ! 1)"
proof -
  assume "g \<in> set (findall field_pattern body)"
  note findall_from_sound [OF this [unfolded findall_def]]
  then obtain a u b q where u: "body = a @ u @ b" "reads field_pattern q u g"
    by (elim exE conjE) (rule that)
  then obtain k ws ws' v where g: "g = [k, v]" and f: "u = ''.'' @ k @ ws @ ''='' @ ws' @ dq @ v @ dq"
    "list_all py_space ws" "list_all py_space ws'" "v \<noteq> []" "CHR 34 \<notin> set v"
    using reads_field_pattern [THEN iffD1, OF u(2)] by (elim exE conjE) (rule that)
  have "field_in body k v"
    unfolding field_in_def using u(1) f(2-5) unfolding f(1)
    by (intro exI [of _ a] exI [of _ ws] exI [of _ ws'] exI [of _ b] conjI)
  then show ?thesis
    by (simp add: g)
qed

lemma dependency_Inr:
  assumes "dependency zon name = Inr dep"
  shows "\<exists>body url h. dependency_at zon name body \<and> map_of dep = [''hash'' \<mapsto> h, ''url'' \<mapsto> url]
    \<and> field_in body ''url'' url \<and> field_in body ''hash'' h"
proof -
  obtain a u g b where s: "search (dependency_pattern name) zon = Some (a, u, g, b)"
    and dep: "dep = dict_update [] (map (\<lambda>g. (g ! 0, g ! 1)) (findall field_pattern (hd g)))"
    using assms by (auto simp: dependency_def Let_def bindE_Inr_iff split: option.splits)
  have "zon = a @ u @ b" "reads (dependency_pattern name) (prev_after None a) u g"
    using search_Some [OF s] by blast+
  then have at: "dependency_at zon name (hd g)"
    unfolding dependency_at_def reads_dependency_pattern by (metis list.sel(1))
  have field: "field_in (hd g) k v" if "map_of dep k = Some v" for k v
    using map_of_SomeD [OF that] set_dict_update [of "[]" "map (\<lambda>g. (g ! 0, g ! 1)) (findall field_pattern (hd g))"]
    by (auto simp: dep dest!: findall_field)
  obtain h url where m: "map_of dep = [''hash'' \<mapsto> h, ''url'' \<mapsto> url]"
    using two_fields [OF dependency_fields [OF assms, THEN conjunct1] dependency_fields [OF assms, THEN conjunct2]]
    by (elim exE conjE) (rule that)
  have "field_in (hd g) ''url'' url" "field_in (hd g) ''hash'' h"
    by (rule field, simp add: m)+
  with at m show ?thesis by blast
qed

section \<open>A small run\<close>

definition demo_zig :: zig_tool where
  "demo_zig = \<lparr>zig_version = Inr ''1'', zig_fetch = (\<lambda>url. Inr (''h'', [''h.tar.gz'' \<mapsto> [5]])),
     zig_build = (\<lambda>zig_v source flags. Inr [7])\<rparr>"

definition demo_source :: "member list" where
  "demo_source = [\<lparr>member_name = ''src/main.zig'', member_kind = Regular [0]\<rparr>]"

definition demo_mise :: string where
  "demo_mise = ''zig='' @ dq @ ''1'' @ dq"

definition demo_zon :: string where
  "demo_zon = ''.g=.{.url='' @ dq @ ''u'' @ dq @ ''.hash='' @ dq @ ''h'' @ dq @ ''}''"

lemma demo_pin_found: "mise_pin demo_mise ''zig'' = Inr ''1''"
  by code_simp

lemma demo_dependency: "dependency demo_zon ''g'' = Inr [(''url'', ''u''), (''hash'', ''h'')]"
  by code_simp

lemma demo_extract_source: "extract_archive demo_source = Inr (Dir [(''src'', Dir [(''main.zig'', File [0])])])"
proof -
  have "safe_path (JStr ''src/main.zig'') = Inr [''src'', ''main.zig'']"
    by (simp add: safe_path_def split_slash_def)
  then show ?thesis
    by (simp add: extract_archive_def demo_source_def extract_member_def rstrip_slash_def require_def)
qed

abbreviation demo_dep :: "(string, string) dict" where
  "demo_dep \<equiv> [(''url'', ''u''), (''hash'', ''h'')]"

lemma demo_inputs: "generator_inputs demo_zig (Inr demo_mise) (Inr demo_zon) [(''dependency'', JStr ''g'')] = Inr (demo_dep, ''1'')"
proof -
  have "strip_where py_space ''1'' = ''1''"
    by code_simp
  then show ?thesis
    by (simp add: generator_inputs_def demo_pin_found demo_dependency dict_index_def require_def demo_zig_def)
qed

lemma demo_fresh: "fresh_binary demo_zig (\<lambda>_. Inr demo_source) demo_dep ''1'' = Inr [7]"
proof -
  have "strip_where py_space ''h'' = ''h''"
    by code_simp
  moreover have "find_source 4 (Dir [(''src'', Dir [(''main.zig'', File [0])])]) = Inr (Dir [(''src'', Dir [(''main.zig'', File [0])])])"
    by (simp add: numeral_eq_Suc)
  ultimately show ?thesis
    by (simp add: fresh_binary_def demo_zig_def dict_index_def require_def demo_extract_source)
qed

definition demo_cache :: world where
  "demo_cache = \<lparr>tree = Dir [], past = []\<rparr>"

lemma demo_run: "\<exists>w. generator demo_zig (\<lambda>_. Inr demo_source) (Inr demo_mise) (Inr demo_zon) [(''dependency'', JStr ''g'')] demo_cache
    = (Inr (binary_path (generator_key demo_dep ''1'')), w)"
  by (simp add: generator_def bindS_def raiseS_def returnS_def demo_inputs demo_fresh accepted_def demo_cache_def Let_def
      binary_path_def stamp_path_def cache_dir_def build_entry_def write_stamp_def callS_def)

lemma demo_cache_ok: "\<forall>t \<in> seen demo_cache. cache_ok zig untar t"
  by (simp add: demo_cache_def seen_def cache_ok_def binary_path_def cache_dir_def)

section \<open>Properties of the generator\<close>

text \<open>
  C31: The binary \<open>generator\<close> returns is the one its inputs build, even over a cache that another run
  left half way: in a cache where every accepted entry was built for its key, each tree the run
  goes through keeps that, also when it raises, and when it returns, the file at the returned path
  is what fetching the pinned URL, checking its hash and building with the pinned zig give, or the
  key text of these inputs has the digest of another.
\<close>

theorem generator_verified:
  assumes "\<forall>t \<in> seen w. cache_ok zig untar t" and "generator zig untar mise zon config w = (r, w')"
  shows "(\<forall>t \<in> seen w'. cache_ok zig untar t) \<and> (\<forall>p. r = Inr p \<longrightarrow>
    (\<exists>dep zig_v data. generator_inputs zig mise zon config = Inr (dep, zig_v)
       \<and> p = binary_path (generator_key dep zig_v) \<and> look p (tree w') = Some (File data)
       \<and> accepted (generator_key dep zig_v) (tree w') = Inr True
       \<and> (fresh_binary zig untar dep zig_v = Inr data \<or> key_collision dep zig_v)))"
  using assms by (rule generator_spec)

theorem generator_verified_witness:
  "\<exists>w' dep zig_v data. generator demo_zig (\<lambda>_. Inr demo_source) (Inr demo_mise) (Inr demo_zon) [(''dependency'', JStr ''g'')] demo_cache
      = (Inr (binary_path (generator_key dep zig_v)), w')
    \<and> look (binary_path (generator_key dep zig_v)) (tree w') = Some (File data)"
proof -
  obtain w where "generator demo_zig (\<lambda>_. Inr demo_source) (Inr demo_mise) (Inr demo_zon) [(''dependency'', JStr ''g'')] demo_cache
      = (Inr (binary_path (generator_key demo_dep ''1'')), w)"
    using demo_run by blast
  with generator_verified [OF demo_cache_ok this] show ?thesis
    by auto
qed

text \<open>
  What \<open>generator\<close> has built it does not build again: after it returned, a run with the same
  pins and the same zig version returns the same path and changes nothing, whatever fetching,
  unpacking and building would do now.
\<close>

theorem generator_cached:
  assumes "\<forall>t \<in> seen w. cache_ok zig untar t" and "generator zig untar mise zon config w = (Inr p, w')"
    and "zig_version zig' = zig_version zig"
  shows "generator zig' untar' mise zon config w' = (Inr p, w')"
proof -
  obtain dep zig_v where "generator_inputs zig mise zon config = Inr (dep, zig_v)"
    and "p = binary_path (generator_key dep zig_v)" "accepted (generator_key dep zig_v) (tree w') = Inr True"
    using generator_spec [OF assms(1,2)] by blast
  then show ?thesis
    using generator_hit [of zig' mise zon config dep zig_v w' untar'] assms(3) by (simp add: generator_inputs_def)
qed

theorem generator_cached_witness:
  "\<exists>p w'. generator (demo_zig\<lparr>zig_fetch := \<lambda>_. Inl TypeError\<rparr>) (\<lambda>_. Inl TypeError) (Inr demo_mise) (Inr demo_zon)
    [(''dependency'', JStr ''g'')] w' = (Inr p, w')"
proof -
  obtain w where "generator demo_zig (\<lambda>_. Inr demo_source) (Inr demo_mise) (Inr demo_zon) [(''dependency'', JStr ''g'')] demo_cache
      = (Inr (binary_path (generator_key demo_dep ''1'')), w)"
    using demo_run by blast
  from generator_cached [OF demo_cache_ok this, of "demo_zig\<lparr>zig_fetch := \<lambda>_. Inl TypeError\<rparr>"] show ?thesis
    by auto
qed

text \<open>
  C32: The pins are read from where they stand: \<open>mise_pin\<close> returns the quoted text after a name at
  the start of a line and raises exactly when there is none, and \<open>dependency\<close> returns a URL and a
  hash, both fields inside one block of that name.
\<close>

theorem pins_read:
  "(mise_pin mise name = Inr v \<longrightarrow> pin_at mise name v)
   \<and> (mise_pin mise name = Inl e \<longleftrightarrow> e = ValueError ''missing mise tool pin'' \<and> (\<forall>v. \<not> pin_at mise name v))
   \<and> (dependency zon block = Inr dep \<longrightarrow> (\<exists>body url h. dependency_at zon block body
        \<and> map_of dep = [''hash'' \<mapsto> h, ''url'' \<mapsto> url] \<and> field_in body ''url'' url \<and> field_in body ''hash'' h))"
  using mise_pin_Inr [of mise name v] mise_pin_Inl [of mise name e] dependency_Inr [of zon block dep] by simp

theorem pins_read_witness:
  "pin_at demo_mise ''zig'' ''1'' \<and> (\<exists>body. dependency_at demo_zon ''g'' body \<and> field_in body ''hash'' ''h'')"
proof -
  note p = pins_read [of demo_mise "''zig''" "''1''" undefined demo_zon "''g''" demo_dep]
  have "pin_at demo_mise ''zig'' ''1''"
    using p demo_pin_found by simp
  moreover obtain body url h where "dependency_at demo_zon ''g'' body" "map_of demo_dep = [''hash'' \<mapsto> h, ''url'' \<mapsto> url]"
    "field_in body ''hash'' h"
    using p demo_dependency by auto
  moreover from this(2) have "h = ''h''"
    by (simp add: fun_eq_iff split: if_splits)
  ultimately show ?thesis by blast
qed

end
