(* ===== verification/Tool_Main.thy ===== *)
theory Tool_Main
  imports Tool_Generate Tool_Generator
begin

text \<open>
  The commands of \<open>tools/capnp_tool.py\<close> (\<open>main\<close>, lines 335 to 355) over the three places they share:
  the repository, the cache of installed packages and the cache of built generators. Each command
  reads its settings from the repository as the code does, in the code's order, and \<open>gen\<close> and \<open>check\<close>
  run the generator that \<open>generator\<close> builds or finds. Everything outside the repository is the record
  \<open>environment\<close>. The lemmas show what the commands leave alone, that they keep the caches sound, and
  that \<open>check\<close> succeeds after \<open>gen\<close>.
\<close>

section \<open>The environment and the state\<close>

text \<open>
  The JSON parser on bytes and on the text of a file, zig, the tar reader, the compiler, generator
  and formatter, how the system follows links, the text decoder, a download, the installed
  compiler's version run, and the random part of temporary names.
\<close>

record environment =
  json_bytes :: "bytes \<Rightarrow> json result"
  json_text :: "bytes \<Rightarrow> json result"
  zig :: zig_tool
  untar :: "bytes \<Rightarrow> member list result"
  programs :: toolchain
  paths :: lookups
  decode_text :: "bytes \<Rightarrow> string result"
  download :: "json \<Rightarrow> bytes result"
  run_version :: "entry \<Rightarrow> unit result"
  pick_name :: "string list \<Rightarrow> string"

record tools_state =
  repo :: world
  packages :: cache
  builds :: world

section \<open>Settings\<close>

definition read_root :: "environment \<Rightarrow> entry \<Rightarrow> path \<Rightarrow> bytes result" where
  "read_root env root p = (case followed (paths env) root p of
       None \<Rightarrow> Inl (OSError ''no such file or directory'')
     | Some e \<Rightarrow> read_entry e)"

text \<open>\<open>read_json\<close> of an object; the exception is the one the first use of another value raises.\<close>

definition read_object :: "environment \<Rightarrow> py_error \<Rightarrow> path \<Rightarrow> entry \<Rightarrow> (string, json) dict result" where
  "read_object env err p root = bindE (bindE (read_root env root p) (json_text env)) (\<lambda>v.
     case v of JObj d \<Rightarrow> Inr d | _ \<Rightarrow> Inl err)"

definition read_lock :: "environment \<Rightarrow> entry \<Rightarrow> pin result" where
  "read_lock env = read_object env AttributeError [''tools'', ''capnp-toolchain.json'']"

definition read_config :: "environment \<Rightarrow> entry \<Rightarrow> (string, json) dict result" where
  "read_config env = read_object env TypeError [''tools'', ''capnp-generation.json'']"

definition config_outputs :: "(string, json) dict \<Rightarrow> (string, json) dict result" where
  "config_outputs config = bindE (dict_index config ''outputs'') (\<lambda>v.
     case v of JObj d \<Rightarrow> Inr d | _ \<Rightarrow> Inl AttributeError)"

definition read_string :: "environment \<Rightarrow> entry \<Rightarrow> path \<Rightarrow> string result" where
  "read_string env root p = bindE (read_root env root p) (decode_text env)"

section \<open>Commands\<close>

datatype command = Bootstrap "bytes result option" | Gen | Check | Canonical string

text \<open>The bytes of the module \<open>generator\<close> returns the path of.\<close>

definition module_bytes :: "environment \<Rightarrow> entry \<Rightarrow> (string, json) dict \<Rightarrow> world \<Rightarrow> bytes result \<times> world" where
  "module_bytes env root config =
     bindS (generator (zig env) (untar env) (read_string env root [''mise.toml'']) (read_string env root [''build.zig.zon'']) config)
       (\<lambda>p w. ((case look p (tree w) of Some e \<Rightarrow> read_entry e | None \<Rightarrow> Inl (OSError ''no such file or directory'')), w))"

text \<open>What \<open>generate\<close> reads before it asks for the generator.\<close>

definition generation_settings :: "environment \<Rightarrow> cache \<Rightarrow> entry \<Rightarrow> (pin \<times> (string, json) dict \<times> (string, json) dict) result" where
  "generation_settings env installed root =
     bindE (read_lock env root) (\<lambda>doc.
     bindE (installed_package (json_bytes env) doc installed) (\<lambda>_.
     bindE (read_config env root) (\<lambda>config.
     bindE (config_outputs config) (\<lambda>outputs.
     bindE (check_owned (paths env) config outputs root) (\<lambda>_.
       Inr (doc, config, outputs))))))"

definition run_generate :: "environment \<Rightarrow> bool \<Rightarrow> tools_state \<Rightarrow> unit result \<times> tools_state" where
  "run_generate env check st = (case generation_settings env (packages st) (tree (repo st)) of
       Inl e \<Rightarrow> (Inl e, st)
     | Inr (doc, config, outputs) \<Rightarrow>
         (case module_bytes env (tree (repo st)) config (builds st) of (module, b) \<Rightarrow>
         (case generate (pick_name env) (json_bytes env) (programs env) (paths env) module doc (packages st) config outputs check (repo st) of
            (r, w) \<Rightarrow> (r, st\<lparr>repo := w, builds := b\<rparr>))))"

definition run_bootstrap :: "environment \<Rightarrow> bytes result option \<Rightarrow> tools_state \<Rightarrow> unit result \<times> tools_state" where
  "run_bootstrap env override st = (case read_lock env (tree (repo st)) of
       Inl e \<Rightarrow> (Inl e, st)
     | Inr doc \<Rightarrow>
         (case bootstrap (json_bytes env) (untar env) (run_version env)
            (archive_bytes override (read_root env (tree (repo st))) (download env)) doc (packages st) of
            (r, installed) \<Rightarrow> (r, st\<lparr>packages := installed\<rparr>)))"

definition run_canonical :: "environment \<Rightarrow> string \<Rightarrow> tools_state \<Rightarrow> bytes result" where
  "run_canonical env type_name st =
     (let root = tree (repo st) in
     bindE (require (type_name \<in> {''Statement'', ''QuorumSet''}) ''unsupported SLCP canonical type'') (\<lambda>_.
     bindE (read_lock env root) (\<lambda>doc.
     bindE (installed_package (json_bytes env) doc (packages st)) (\<lambda>_.
     bindE (read_config env root) (\<lambda>config.
       canonical (json_bytes env) (programs env) (paths env) doc (packages st) config type_name root)))))"

text \<open>The exceptions \<open>main\<close> reports with status 1; any other leaves it.\<close>

fun reported :: "py_error \<Rightarrow> bool" where
  "reported (ValueError m) = True"
| "reported (OSError m) = True"
| "reported KeyError = True"
| "reported (TarError m) = True"
| "reported (CalledProcessError m) = True"
| "reported _ = False"

definition exit_status :: "'a result \<Rightarrow> int result" where
  "exit_status r = (case r of Inr _ \<Rightarrow> Inr 0 | Inl e \<Rightarrow> if reported e then Inr 1 else Inl e)"

fun tool_main :: "environment \<Rightarrow> command \<Rightarrow> tools_state \<Rightarrow> int result \<times> tools_state" where
  "tool_main env (Bootstrap override) st = (case run_bootstrap env override st of (r, st') \<Rightarrow> (exit_status r, st'))"
| "tool_main env Gen st = (case run_generate env False st of (r, st') \<Rightarrow> (exit_status r, st'))"
| "tool_main env Check st = (case run_generate env True st of (r, st') \<Rightarrow> (exit_status r, st'))"
| "tool_main env (Canonical type_name) st = (exit_status (run_canonical env type_name st), st)"

section \<open>What commands leave alone\<close>

lemma exit_status_0: "exit_status r = Inr 0 \<longleftrightarrow> (\<exists>x. r = Inr x)"
  by (auto simp: exit_status_def split: sum.splits)

lemma read_entry_Inr [simp]: "read_entry e = Inr d \<longleftrightarrow> e = File d"
  by (auto simp: read_entry_def split: entry.splits)

text \<open>Every tree of the build cache has only genuine accepted binaries.\<close>

definition builds_ok :: "environment \<Rightarrow> tools_state \<Rightarrow> bool" where
  "builds_ok env st \<longleftrightarrow> (\<forall>t \<in> seen (builds st). cache_ok (zig env) (untar env) t)"

lemma module_bytes_ok:
  assumes "module_bytes env root config w = (r, w')" and "\<forall>t \<in> seen w. cache_ok (zig env) (untar env) t"
  shows "\<forall>t \<in> seen w'. cache_ok (zig env) (untar env) t"
  using assms(1) unfolding module_bytes_def
proof (cases rule: bindS_cases)
  case (1 e)
  then show ?thesis using generator_spec [OF assms(2) 1(1)] by blast
next
  case (2 p v)
  then show ?thesis using generator_spec [OF assms(2) 2(1)] by simp
qed

text \<open>The second request finds what the first built.\<close>

lemma module_bytes_again:
  assumes "module_bytes env root config w = (Inr m, w')" and "\<forall>t \<in> seen w. cache_ok (zig env) (untar env) t"
    and "read_string env root' [''mise.toml''] = read_string env root [''mise.toml'']"
    and "read_string env root' [''build.zig.zon''] = read_string env root [''build.zig.zon'']"
  shows "module_bytes env root' config w' = (Inr m, w')"
proof -
  obtain p where g: "generator (zig env) (untar env) (read_string env root [''mise.toml'']) (read_string env root [''build.zig.zon'']) config w = (Inr p, w')"
    and m: "(case look p (tree w') of Some e \<Rightarrow> read_entry e | None \<Rightarrow> Inl (OSError ''no such file or directory'')) = Inr m"
    using assms(1) unfolding module_bytes_def bindS_Inr by auto
  obtain dep zig_v where i: "generator_inputs (zig env) (read_string env root [''mise.toml'']) (read_string env root [''build.zig.zon'']) config = Inr (dep, zig_v)"
    and p: "p = binary_path (generator_key dep zig_v)" and a: "accepted (generator_key dep zig_v) (tree w') = Inr True"
    using generator_spec [OF assms(2) g] by blast
  have "generator (zig env) (untar env) (read_string env root' [''mise.toml'']) (read_string env root' [''build.zig.zon'']) config w' = (Inr p, w')"
    using generator_hit [OF i a] p assms(3,4) by simp
  then show ?thesis
    using m by (simp add: module_bytes_def bindS_def)
qed

lemma run_generate_keeps:
  assumes "run_generate env check st = (r, st')" and "builds_ok env st"
  shows "builds_ok env st' \<and> packages st' = packages st \<and> (check \<longrightarrow> repo st' = repo st)"
proof (cases "generation_settings env (packages st) (tree (repo st))")
  case (Inl e)
  then show ?thesis using assms by (simp add: run_generate_def)
next
  case (Inr s)
  obtain doc config outputs where s: "s = (doc, config, outputs)" by (cases s) auto
  obtain m b where m: "module_bytes env (tree (repo st)) config (builds st) = (m, b)" by fastforce
  obtain w where w: "generate (pick_name env) (json_bytes env) (programs env) (paths env) m doc (packages st) config outputs check (repo st) = (r, w)"
    and st': "st' = st\<lparr>repo := w, builds := b\<rparr>"
    using assms(1) Inr s m by (auto simp: run_generate_def split: prod.splits)
  have "check \<longrightarrow> w = repo st"
    using w generate_check_reads by (cases check) auto
  then show ?thesis
    using st' module_bytes_ok [OF m] assms(2) by (simp add: builds_ok_def)
qed

lemma tool_main_keeps:
  assumes "tool_main env cmd st = (status, st')" and "builds_ok env st"
  shows "builds_ok env st' \<and> (cmd \<noteq> Gen \<longrightarrow> repo st' = repo st) \<and> ((\<forall>a. cmd \<noteq> Bootstrap a) \<longrightarrow> packages st' = packages st)
    \<and> (case status of Inr n \<Rightarrow> n = 0 \<or> n = 1 | Inl e \<Rightarrow> \<not> reported e)"
proof -
  have status: "case exit_status r of Inr n \<Rightarrow> n = 0 \<or> n = 1 | Inl e \<Rightarrow> \<not> reported e" for r :: "'x result"
    by (auto simp: exit_status_def split: sum.split)
  have boot: "run_bootstrap env a st = (r, st1) \<Longrightarrow> repo st1 = repo st \<and> builds st1 = builds st" for a r st1
    by (auto simp: run_bootstrap_def split: sum.splits prod.splits)
  show ?thesis
  proof (cases cmd)
    case (Bootstrap a)
    then obtain r where r: "run_bootstrap env a st = (r, st')" "status = exit_status r"
      using assms(1) by (auto split: prod.splits)
    then show ?thesis
      using boot [OF r(1)] assms(2) status [of r] Bootstrap by (simp add: builds_ok_def)
  next
    case Gen
    then obtain r where r: "run_generate env False st = (r, st')" "status = exit_status r"
      using assms(1) by (auto split: prod.splits)
    then show ?thesis
      using run_generate_keeps [OF r(1) assms(2)] status [of r] Gen by simp
  next
    case Check
    then obtain r where r: "run_generate env True st = (r, st')" "status = exit_status r"
      using assms(1) by (auto split: prod.splits)
    then show ?thesis
      using run_generate_keeps [OF r(1) assms(2)] status [of r] Check by simp
  next
    case (Canonical a)
    then show ?thesis
      using assms status [of "run_canonical env a st"] by auto
  qed
qed

section \<open>Check after gen\<close>

text \<open>
  What a run of \<open>gen\<close> must not touch for the next run to see the same inputs: the four files of
  settings and the schema tree. The generated files are not empty and not named like temporary
  files, and no directory is owned.
\<close>

definition settings_files :: "path list" where
  "settings_files = [[''tools'', ''capnp-toolchain.json''], [''tools'', ''capnp-generation.json''], [''mise.toml''], [''build.zig.zon'']]"

definition outputs_apart :: "environment \<Rightarrow> tools_state \<Rightarrow> entry \<Rightarrow> bool" where
  "outputs_apart env st later \<longleftrightarrow>
     (\<forall>p \<in> set settings_files. followed (paths env) later p = followed (paths env) (tree (repo st)) p)
     \<and> (\<forall>doc config outputs. generation_settings env (packages st) (tree (repo st)) = Inr (doc, config, outputs) \<longrightarrow>
          map_of config ''owned_output_directory'' = None \<and> same_schema (paths env) config (tree (repo st)) later
          \<and> (\<forall>staged p d. staged_output (json_bytes env) (programs env) (paths env)
                 (fst (module_bytes env (tree (repo st)) config (builds st))) doc (packages st) config outputs (tree (repo st)) = Inr staged
               \<longrightarrow> (p, d) \<in> generated staged outputs \<longrightarrow> \<not> temporary p \<and> d \<noteq> []))"

lemma read_same:
  assumes "\<forall>p \<in> set settings_files. followed (paths env) later p = followed (paths env) earlier p"
  shows "read_lock env later = read_lock env earlier" "read_config env later = read_config env earlier"
    "read_string env later [''mise.toml''] = read_string env earlier [''mise.toml'']"
    "read_string env later [''build.zig.zon''] = read_string env earlier [''build.zig.zon'']"
proof -
  have "read_root env later p = read_root env earlier p" if "p \<in> set settings_files" for p
    using assms that by (simp add: read_root_def)
  then show "read_lock env later = read_lock env earlier" "read_config env later = read_config env earlier"
    "read_string env later [''mise.toml''] = read_string env earlier [''mise.toml'']"
    "read_string env later [''build.zig.zon''] = read_string env earlier [''build.zig.zon'']"
    by (simp_all add: read_lock_def read_config_def read_object_def read_string_def settings_files_def)
qed

lemma generation_settings_same:
  assumes f: "\<forall>p \<in> set settings_files. followed (paths env) later p = followed (paths env) earlier p"
    and g: "generation_settings env installed earlier = Inr (doc, config, outputs)"
    and o: "map_of config ''owned_output_directory'' = None"
  shows "generation_settings env installed later = Inr (doc, config, outputs)"
  using g o unfolding generation_settings_def read_same [OF f]
  by (auto simp: bindE_Inr_iff check_owned_def)

lemma gen_then_check_spec:
  assumes run: "tool_main env Gen st = (Inr 0, st')" and ok: "builds_ok env st"
    and apart: "outputs_apart env st (tree (repo st'))"
  shows "tool_main (env\<lparr>pick_name := pick'\<rparr>) Check st' = (Inr 0, st')"
proof -
  let ?root = "tree (repo st)"
  obtain u where r: "run_generate env False st = (Inr u, st')"
    using run exit_status_0 by (auto split: prod.splits) (metis exit_status_0 old.unit.exhaust)
  obtain doc config outputs where s: "generation_settings env (packages st) ?root = Inr (doc, config, outputs)"
    using r by (cases "generation_settings env (packages st) ?root") (auto simp: run_generate_def)
  obtain m b where m: "module_bytes env ?root config (builds st) = (m, b)" by fastforce
  obtain w where w: "generate (pick_name env) (json_bytes env) (programs env) (paths env) m doc (packages st) config outputs False (repo st) = (Inr (), w)"
    and st': "st' = st\<lparr>repo := w, builds := b\<rparr>"
    using r s m by (auto simp: run_generate_def split: prod.splits)
  have files: "\<forall>p \<in> set settings_files. followed (paths env) (tree w) p = followed (paths env) ?root p"
    and owned: "map_of config ''owned_output_directory'' = None" and same: "same_schema (paths env) config ?root (tree w)"
    and plain: "\<And>staged p d. staged_output (json_bytes env) (programs env) (paths env) m doc (packages st) config outputs ?root = Inr staged
      \<Longrightarrow> (p, d) \<in> generated staged outputs \<Longrightarrow> \<not> temporary p \<and> d \<noteq> []"
    using apart s m st' unfolding outputs_apart_def by auto
  obtain staged where "staged_output (json_bytes env) (programs env) (paths env) m doc (packages st) config outputs ?root = Inr staged"
    using w by (auto simp: generate_def bindS_Inr raiseS_def)
  then obtain x where mx: "m = Inr x"
    by (auto simp: staged_output_def bindE_Inr_iff)
  have again: "module_bytes env (tree w) config b = (m, b)"
    using module_bytes_again [OF m [unfolded mx]] ok read_same(3,4) [OF files] by (simp add: builds_ok_def mx)
  have check: "generate pick' (json_bytes env) (programs env) (paths env) m doc (packages st) config outputs True w = (Inr (), w)"
    by (rule generate_settled [OF w owned same]) (rule plain)
  have "run_generate (env\<lparr>pick_name := pick'\<rparr>) True st' = (Inr (), st')"
  proof -
    have "generation_settings (env\<lparr>pick_name := pick'\<rparr>) (packages st) (tree w) = Inr (doc, config, outputs)"
      using generation_settings_same [OF files s owned]
      by (simp add: generation_settings_def read_lock_def read_config_def read_object_def read_root_def)
    moreover have "module_bytes (env\<lparr>pick_name := pick'\<rparr>) (tree w) config b = (m, b)"
      using again by (simp add: module_bytes_def read_string_def read_root_def)
    ultimately show ?thesis
      using check by (simp add: run_generate_def st')
  qed
  then show ?thesis
    by (simp add: exit_status_def)
qed

section \<open>A small repository\<close>

definition demo_settings :: "(string, json) dict" where
  "demo_settings = [(''schemas_root'', JStr ''schema''), (''entrypoints'', JList [JStr ''a.capnp'']),
     (''outputs'', JObj demo_outputs), (''format'', JInt 0), (''dependency'', JStr ''g'')]"

definition demo_tools :: entry where
  "demo_tools = Dir [(''capnp-toolchain.json'', File [20]), (''capnp-generation.json'', File [21])]"

definition demo_repo :: "bytes \<Rightarrow> entry" where
  "demo_repo gen = Dir [(''schema'', Dir [(''a.capnp'', File [9])]), (''src'', Dir [(''gen.zig'', File gen)]),
     (''tools'', demo_tools), (''mise.toml'', File [22]), (''build.zig.zon'', File [23])]"

definition demo_env :: environment where
  "demo_env = \<lparr>json_bytes = demo_loads, json_text = (\<lambda>d. Inr (if d = [20] then JObj demo_lock else JObj demo_settings)),
     zig = demo_zig, untar = (\<lambda>_. Inr demo_source), programs = demo_chain, paths = demo_lookups,
     decode_text = (\<lambda>d. Inr (if d = [22] then demo_mise else demo_zon)), download = (\<lambda>_. Inl KeyError),
     run_version = (\<lambda>_. Inr ()), pick_name = (\<lambda>_. ''x'')\<rparr>"

definition demo_state :: tools_state where
  "demo_state = \<lparr>repo = demo_world (demo_repo [1]), packages = [hexdigest [5] \<mapsto> demo_tool], builds = demo_cache\<rparr>"

lemma demo_main_reads:
  "read_lock demo_env (demo_repo g) = Inr demo_lock" "read_config demo_env (demo_repo g) = Inr demo_settings"
  "read_string demo_env (demo_repo g) [''mise.toml''] = Inr demo_mise" "read_string demo_env (demo_repo g) [''build.zig.zon''] = Inr demo_zon"
  by (simp_all add: read_lock_def read_config_def read_object_def read_string_def read_root_def demo_env_def demo_lookups_def
      demo_repo_def demo_tools_def read_entry_def)

lemma demo_generation_settings:
  "generation_settings demo_env (packages demo_state) (demo_repo g) = Inr (demo_lock, demo_settings, demo_outputs)"
proof -
  have "json_bytes demo_env = demo_loads" "packages demo_state = [hexdigest [5] \<mapsto> demo_tool]"
    by (simp_all add: demo_env_def demo_state_def)
  then show ?thesis
    by (simp add: generation_settings_def demo_main_reads demo_installed config_outputs_def check_owned_def)
      (simp add: demo_settings_def dict_index_def)
qed

lemma demo_module: "\<exists>m b. module_bytes demo_env (demo_repo g) demo_settings demo_cache = (Inr m, b)"
proof -
  have i: "generator_inputs demo_zig (Inr demo_mise) (Inr demo_zon) demo_settings = Inr (demo_dep, ''1'')"
    using demo_inputs by (simp add: generator_inputs_def demo_settings_def dict_index_def)
  obtain w where "generator demo_zig (\<lambda>_. Inr demo_source) (Inr demo_mise) (Inr demo_zon) [(''dependency'', JStr ''g'')] demo_cache
      = (Inr (binary_path (generator_key demo_dep ''1'')), w)"
    using demo_run by blast
  then have g: "generator demo_zig (\<lambda>_. Inr demo_source) (Inr demo_mise) (Inr demo_zon) demo_settings demo_cache
      = (Inr (binary_path (generator_key demo_dep ''1'')), w)"
    using i demo_inputs by (simp add: generator_def)
  obtain data where d: "look (binary_path (generator_key demo_dep ''1'')) (tree w) = Some (File data)"
    using generator_spec [OF demo_cache_ok g] by auto
  have "zig demo_env = demo_zig" "untar demo_env = (\<lambda>_. Inr demo_source)"
    by (simp_all add: demo_env_def)
  then show ?thesis
    using g d by (simp add: module_bytes_def demo_main_reads bindS_def)
qed

lemma demo_repo_snapshot:
  "snapshot (found demo_lookups (demo_repo g)) demo_tool demo_settings (Dir [])
     = Inr (Dir [(''src'', Dir [(''a.capnp'', File [9])]), (''include'', Dir [])])"
proof -
  have "found demo_lookups (demo_repo g) [''schema''] = found demo_lookups demo_root [''schema'']"
    by (simp add: demo_lookups_def demo_repo_def demo_root_def)
  moreover have "safe_path (JStr ''schema'') = Inr [''schema'']"
    by (simp add: safe_path_def split_slash_def)
  moreover have e: "dict_index demo_settings ''schemas_root'' = Inr (JStr ''schema'')"
    "dict_index demo_config ''schemas_root'' = Inr (JStr ''schema'')"
    "dict_index demo_settings ''entrypoints'' = dict_index demo_config ''entrypoints''"
    by (simp_all add: demo_settings_def demo_config_def dict_index_def)
  ultimately show ?thesis
    using demo_snapshot unfolding snapshot_def e by simp
qed

lemma demo_repo_staged:
  "staged_output demo_loads demo_chain demo_lookups (Inr m) demo_lock [hexdigest [5] \<mapsto> demo_tool]
     demo_settings demo_outputs (demo_repo g) = Inr demo_staged"
  by (simp add: staged_output_def demo_installed demo_repo_snapshot check_owned_def)
    (simp add: demo_settings_def dict_index_def demo_chain_def)

lemma demo_repo_plan: "publish_plan demo_staged demo_outputs False (demo_repo [1]) = Inr [([''src'', ''gen.zig''], [1, 2])]"
proof -
  have "\<not> has_symlink [''src'', ''gen.zig''] (demo_repo [1])"
    by (auto simp: has_symlink_def demo_repo_def upt_conv_Cons simp del: set_upt)
  then show ?thesis
    by (simp add: publish_plan_def demo_staged_inventory demo_outputs_def demo_safe_paths require_def posix_def dict_index_def
        old_bytes_def demo_repo_def)
qed

lemma demo_repo_publish:
  "\<exists>w. publish (\<lambda>_. ''x'') demo_staged demo_outputs False (demo_world (demo_repo [1])) = (Inr (), w) \<and> tree w = demo_repo [1, 2]"
  by (simp add: publish_def demo_world_def demo_repo_plan [unfolded demo_repo_def] bindS_def raiseS_def require_def publish_file_def callS_def
      finallyS_def returnS_def demo_repo_def os_replace_def unlink_missing_ok_def)

lemma demo_gen:
  "\<exists>st. tool_main demo_env Gen demo_state = (Inr 0, st) \<and> tree (repo st) = demo_repo [1, 2]"
proof -
  obtain m b where m: "module_bytes demo_env (demo_repo [1]) demo_settings demo_cache = (Inr m, b)"
    using demo_module by blast
  obtain w where w: "publish (\<lambda>_. ''x'') demo_staged demo_outputs False (demo_world (demo_repo [1])) = (Inr (), w)" "tree w = demo_repo [1, 2]"
    using demo_repo_publish by blast
  have e: "pick_name demo_env = (\<lambda>_. ''x'')" "json_bytes demo_env = demo_loads" "programs demo_env = demo_chain" "paths demo_env = demo_lookups"
    by (simp_all add: demo_env_def)
  have st: "repo demo_state = demo_world (demo_repo [1])" "tree (demo_world (demo_repo [1])) = demo_repo [1]" "builds demo_state = demo_cache"
    "packages demo_state = [hexdigest [5] \<mapsto> demo_tool]"
    by (simp_all add: demo_state_def demo_world_def)
  have "generate (\<lambda>_. ''x'') demo_loads demo_chain demo_lookups (Inr m) demo_lock (packages demo_state)
      demo_settings demo_outputs False (demo_world (demo_repo [1])) = (Inr (), w)"
    using w(1) demo_repo_staged [of m "[1]"] by (simp add: generate_def bindS_def raiseS_def st)
  then have "run_generate demo_env False demo_state = (Inr (), demo_state\<lparr>repo := w, builds := b\<rparr>)"
    using demo_generation_settings [of "[1]"] m by (simp add: run_generate_def st e)
  then show ?thesis
    using w(2) by (simp add: exit_status_def)
qed

lemma demo_apart: "outputs_apart demo_env demo_state (demo_repo [1, 2])"
proof -
  have e: "json_bytes demo_env = demo_loads" "programs demo_env = demo_chain" "paths demo_env = demo_lookups"
    by (simp_all add: demo_env_def)
  have st: "tree (repo demo_state) = demo_repo [1]" "packages demo_state = [hexdigest [5] \<mapsto> demo_tool]" "builds demo_state = demo_cache"
    by (simp_all add: demo_state_def demo_world_def)
  obtain m b where m: "module_bytes demo_env (demo_repo [1]) demo_settings demo_cache = (Inr m, b)"
    using demo_module by blast
  have files: "\<forall>p \<in> set settings_files. followed demo_lookups (demo_repo [1, 2]) p = followed demo_lookups (demo_repo [1]) p"
    by (simp add: settings_files_def demo_lookups_def demo_repo_def)
  have "safe_path (JStr ''schema'') = Inr [''schema'']"
    by (simp add: safe_path_def split_slash_def)
  then have same: "same_schema demo_lookups demo_settings (demo_repo [1]) (demo_repo [1, 2])"
    by (simp add: same_schema_def demo_settings_def demo_lookups_def demo_repo_def)
  have "map_of demo_settings ''owned_output_directory'' = None"
    by (simp add: demo_settings_def)
  moreover have "\<not> temporary p \<and> d \<noteq> []" if "(p, d) \<in> generated demo_staged demo_outputs" for p d
    using that by (simp add: demo_generated temporary_def)
  ultimately show ?thesis
    using files same demo_generation_settings [of "[1]"] demo_repo_staged [of m "[1]"] m
    by (auto simp: outputs_apart_def st e)
qed

section \<open>Properties\<close>





end
