(* ===== verification/Fuzz_Wrapper.thy ===== *)
theory Fuzz_Wrapper
  imports Py_Regex Py_Json Complex_Main
begin

text \<open>
  \<open>tools/guided-fuzz.py\<close>: the watchdog, the parser of mapped inputs, the diagnostics searched for in
  the log, the recovery of inputs and the verdict. The child processes are parameters: what polling
  and the clock return, the exit status of a replay, the log and the files left in the cache. The
  lemmas show when the watchdog returns and with what, that the parser inverts the layout of a
  mapped file, and that the wrapper is fail-closed.
\<close>

section \<open>Constants\<close>

definition EXIT_CLEAN :: int where "EXIT_CLEAN = 0"
definition EXIT_MISUSE :: int where "EXIT_MISUSE = 1"
definition EXIT_RECOVERY_FAILED :: int where "EXIT_RECOVERY_FAILED = 2"
definition EXIT_WATCHDOG :: int where "EXIT_WATCHDOG = 3"
definition EXIT_BUILD_FAILED :: int where "EXIT_BUILD_FAILED = 4"
definition EXIT_NOT_REPRODUCED :: int where "EXIT_NOT_REPRODUCED = 5"
definition EXIT_FOUND_FAILURE :: int where "EXIT_FOUND_FAILURE = 7"

lemmas exit_codes = EXIT_CLEAN_def EXIT_MISUSE_def EXIT_RECOVERY_FAILED_def EXIT_WATCHDOG_def
  EXIT_BUILD_FAILED_def EXIT_NOT_REPRODUCED_def EXIT_FOUND_FAILURE_def

definition MAX_SMITH_INPUT :: nat where
  "MAX_SMITH_INPUT = 4 + 64 * 1024"

definition digit :: regex where
  "digit = Cls (\<lambda>c. CHR ''0'' \<le> c \<and> c \<le> CHR ''9'')"

definition non_space :: regex where
  "non_space = Cls (\<lambda>c. \<not> py_space c)"

definition FAILURE_DIAGNOSTICS :: "regex list" where
  "FAILURE_DIAGNOSTICS =
     [seqs [Line_Start, lit ''+- run test failure''],
      seqs [Line_Start, lit ''failed with error.'', plus non_space],
      seqs [lit ''error: test '', chr (CHR 39), plus (none_of [CHR 39]), chr (CHR 39), lit '' exited with code '',
        plus digit, lit ''; input saved to '', chr (CHR 39), Group (plus (none_of [CHR 39])), chr (CHR 39)]]"

definition ERROR_NAME :: regex where
  "ERROR_NAME = seqs [Line_Start, lit ''failed with error.'', Group (plus non_space)]"

definition FUZZ_TEST :: regex where
  "FUZZ_TEST = seqs [Line_Start, lit ''Fuzz test: '', chr (CHR 34), Group (plus (none_of [CHR 34])), chr (CHR 34), lit '' ('',
     Group (plus (Cls (\<lambda>c. CHR ''0'' \<le> c \<and> c \<le> CHR ''9'' \<or> CHR ''a'' \<le> c \<and> c \<le> CHR ''f''))), lit '')'']"

definition TARGET_BY_SUFFIX :: "(string, string) dict" where
  "TARGET_BY_SUFFIX = [(''codec'', ''codec''), (''bucket'', ''bucket''), (''checkpoint'', ''checkpoint''),
     (''proof'', ''proof''), (''synthetic failure'', ''probe'')]"

section \<open>The watchdog\<close>

text \<open>
  One call of \<open>poll\<close> and of the clock per iteration; \<open>killed\<close> is the return code after the process group
  has been killed and waited for. A loop that never ends returns no value.
\<close>

partial_function (option) wait_loop :: "(nat \<Rightarrow> int option) \<Rightarrow> (nat \<Rightarrow> real) \<Rightarrow> real \<Rightarrow> int \<Rightarrow> nat \<Rightarrow> (int \<times> bool) option" where
  "wait_loop poll clock deadline killed n =
     (case poll n of
        Some code \<Rightarrow> Some (code, False)
      | None \<Rightarrow> if deadline < clock n then Some (killed, True)
                else wait_loop poll clock deadline killed (n + 1))"

definition wait_with_watchdog :: "(nat \<Rightarrow> int option) \<Rightarrow> real \<Rightarrow> (nat \<Rightarrow> real) \<Rightarrow> int \<Rightarrow> real \<Rightarrow> (int \<times> bool) option" where
  "wait_with_watchdog poll start clock killed timeout = wait_loop poll clock (start + timeout) killed 0"

section \<open>Mapped inputs\<close>

text \<open>Little-endian fields, as \<open>struct\<close> reads them.\<close>

definition le_val :: "bytes \<Rightarrow> nat" where
  "le_val bs = be_val (rev bs)"

record mapped =
  m_file :: string
  m_valid :: bool
  m_coverage :: "string option"
  m_instance :: "nat option"
  m_test_index :: "nat option"
  m_length :: "nat option"
  m_size :: nat
  m_test_name :: "string option"
  m_target :: "string option"
  m_error :: "string option"
  m_padding :: "nat option"

definition blank_entry :: "string \<Rightarrow> nat \<Rightarrow> mapped" where
  "blank_entry name sz = \<lparr>m_file = name, m_valid = False, m_coverage = None, m_instance = None, m_test_index = None,
     m_length = None, m_size = sz, m_test_name = None, m_target = None, m_error = None, m_padding = None\<rparr>"

text \<open>\<open>blob\<close> is what reading the file gives, \<open>Inl\<close> the message of the exception.\<close>

definition parse_mapped :: "string \<Rightarrow> nat \<Rightarrow> string + bytes \<Rightarrow> mapped" where
  "parse_mapped name sz blob_read =
     (let entry = blank_entry name sz in
      case blob_read of
        Inl err \<Rightarrow> entry\<lparr>m_error := Some (''read_failed:'' @ err)\<rparr>
      | Inr blob \<Rightarrow>
          if length blob < 20 then entry\<lparr>m_error := Some ''truncated_header''\<rparr>
          else let
            coverage = le_val (take 8 blob);
            inst = le_val (take 4 (drop 8 blob));
            test_index = le_val (take 4 (drop 12 blob));
            len = le_val (take 4 (drop 16 blob));
            entry = entry\<lparr>m_coverage := Some (hex (be 8 coverage)), m_instance := Some inst,
              m_test_index := Some test_index, m_length := Some len\<rparr>
          in if MAX_SMITH_INPUT < len then entry\<lparr>m_error := Some ''length_above_cap''\<rparr>
             else if length blob < 20 + len then entry\<lparr>m_error := Some ''truncated_input''\<rparr>
             else entry\<lparr>m_valid := True, m_padding := Some (length blob - 20 - len)\<rparr>)"

section \<open>Recovery\<close>

definition ends_with :: "string \<Rightarrow> string \<Rightarrow> bool" where
  "ends_with name suffix \<longleftrightarrow> length suffix \<le> length name \<and> drop (length name - length suffix) name = suffix"

text \<open>The loop over the suffixes keeps the last that matches.\<close>

definition target_of :: "string \<Rightarrow> string option" where
  "target_of name = fold (\<lambda>(suffix, target) t. if ends_with name suffix then Some target else t) TARGET_BY_SUFFIX None"

text \<open>The tests found in the log, each its name and digest.\<close>

definition name_entry :: "string list list \<Rightarrow> mapped \<Rightarrow> mapped" where
  "name_entry fuzz_tests entry = (case m_test_index entry of
       Some i \<Rightarrow> if fuzz_tests \<noteq> [] \<and> i < length fuzz_tests
         then let name = hd (fuzz_tests ! i) in
           entry\<lparr>m_test_name := Some name, m_target := (case target_of name of None \<Rightarrow> m_target entry | Some t \<Rightarrow> Some t)\<rparr>
         else entry
     | None \<Rightarrow> entry)"

record recovery =
  crash_size :: "nat option"
  preserved :: "(string \<times> bytes) list"
  recovered :: "mapped list"

text \<open>One file of the cache directory; a file that cannot be read the second time raises.\<close>

definition recover_file :: "string list list \<Rightarrow> string \<times> nat \<times> (string + bytes) \<Rightarrow> recovery \<Rightarrow> recovery result" where
  "recover_file fuzz_tests f st = (case f of (name, sz, blob_read) \<Rightarrow>
     if name = ''crash'' then
       (case blob_read of
          Inl err \<Rightarrow> Inl (OSError err)
        | Inr blob \<Rightarrow> Inr (st\<lparr>crash_size := Some sz, preserved := preserved st @ [(''crash'', blob)]\<rparr>))
     else if take 2 name \<noteq> ''in'' then Inr st
     else let entry = parse_mapped name sz blob_read in
       (case blob_read of
          Inl err \<Rightarrow> Inl (OSError err)
        | Inr blob \<Rightarrow>
            if m_valid entry then Inr (st\<lparr>
              preserved := preserved st @ [(name @ ''.mapped'', blob), (name @ ''.smith'', take (the (m_length entry)) (drop 20 blob))],
              recovered := recovered st @ [name_entry fuzz_tests entry]\<rparr>)
            else Inr (st\<lparr>recovered := recovered st @ [entry]\<rparr>)))"

fun recover_files :: "string list list \<Rightarrow> (string \<times> nat \<times> (string + bytes)) list \<Rightarrow> recovery \<Rightarrow> recovery result" where
  "recover_files fuzz_tests [] st = Inr st"
| "recover_files fuzz_tests (f # fs) st = bindE (recover_file fuzz_tests f st) (recover_files fuzz_tests fs)"

definition recover :: "string list list \<Rightarrow> (string \<times> nat \<times> (string + bytes)) list \<Rightarrow> recovery result" where
  "recover fuzz_tests files = recover_files fuzz_tests (sort_key fst files) \<lparr>crash_size = None, preserved = [], recovered = []\<rparr>"

section \<open>Replays\<close>

text \<open>\<open>run file target wanted\<close> is the exit status of the replay of a preserved input, once it ended.\<close>

type_synonym replayer = "string \<Rightarrow> string \<Rightarrow> string \<Rightarrow> int"

definition replay_reproduces :: "replayer \<Rightarrow> mapped \<Rightarrow> string \<Rightarrow> string \<Rightarrow> bool" where
  "replay_reproduces run entry target wanted_error = (run (m_file entry @ ''.mapped'') target wanted_error = 0)"

definition truthy_text :: "string option \<Rightarrow> string option" where
  "truthy_text t = (case t of Some s \<Rightarrow> if s = [] then None else Some s | None \<Rightarrow> None)"

text \<open>The targets an entry is replayed as, in order; without a known target the library's are tried.\<close>

definition replay_targets :: "string option \<Rightarrow> mapped \<Rightarrow> string list" where
  "replay_targets replay_target entry = (case truthy_text replay_target of
       Some t \<Rightarrow> [t]
     | None \<Rightarrow> (case m_target entry of Some t \<Rightarrow> [t] | None \<Rightarrow> [''codec'', ''bucket'', ''checkpoint'']))"

definition replay_entry :: "replayer \<Rightarrow> string option \<Rightarrow> string \<Rightarrow> mapped \<Rightarrow> (mapped \<times> string) option" where
  "replay_entry run replay_target wanted entry =
     map_option (\<lambda>t. (entry, t)) (find (\<lambda>t. replay_reproduces run entry t wanted) (replay_targets replay_target entry))"

definition reproduced :: "replayer \<Rightarrow> string option \<Rightarrow> string \<Rightarrow> mapped list \<Rightarrow> (mapped \<times> string) list" where
  "reproduced run replay_target wanted valid = List.map_filter (replay_entry run replay_target wanted) valid"

section \<open>The verdict\<close>

record options =
  o_cycles :: int
  o_seed :: int
  o_self_test :: bool
  o_replay_target :: "string option"

text \<open>What a campaign left: the build's exit status and expiry, the log, and the files of the cache, if there is one.\<close>

record campaign =
  c_exit :: int
  c_expired :: bool
  c_log :: string
  c_files :: "(string \<times> nat \<times> (string + bytes)) list"

definition found_failure :: "string \<Rightarrow> bool" where
  "found_failure txt \<longleftrightarrow> (\<exists>pattern \<in> set FAILURE_DIAGNOSTICS. search pattern txt \<noteq> None)"

definition wanted_error :: "string option \<Rightarrow> string \<Rightarrow> string" where
  "wanted_error expected txt = (case expected of
       Some e \<Rightarrow> e
     | None \<Rightarrow> (case sort (remdups (map hd (findall ERROR_NAME txt))) of [] \<Rightarrow> ''any'' | name # _ \<Rightarrow> name))"

text \<open>The end of \<open>main\<close>, from the first test of \<open>expired\<close>: the exit code and the inputs reproduced.\<close>

definition verdict :: "replayer \<Rightarrow> options \<Rightarrow> campaign \<Rightarrow> recovery \<Rightarrow> int \<times> (mapped \<times> string) list" where
  "verdict run opts c rec =
     (let found = found_failure (c_log c);
          expected = (if o_self_test opts then Some ''SyntheticProbeFailure'' else None);
          replay_target = (if o_self_test opts then (case truthy_text (o_replay_target opts) of None \<Rightarrow> Some ''probe'' | t \<Rightarrow> t)
            else o_replay_target opts)
      in if c_expired c \<and> \<not> found then (EXIT_WATCHDOG, [])
      else if found then
        let valid = filter m_valid (recovered rec) in
        if valid = [] then (EXIT_RECOVERY_FAILED, [])
        else let good = reproduced run replay_target (wanted_error expected (c_log c)) valid in
          if good = [] then (EXIT_NOT_REPRODUCED, [])
          else if o_self_test opts then (EXIT_CLEAN, good) else (EXIT_FOUND_FAILURE, good)
      else if c_exit c \<noteq> 0 then (EXIT_BUILD_FAILED, [])
      else if o_self_test opts then (EXIT_MISUSE, [])
      else (EXIT_CLEAN, []))"

text \<open>\<open>main\<close>; \<open>campaign\<close> is what the build leaves behind.\<close>

definition guided_main :: "replayer \<Rightarrow> options \<Rightarrow> campaign \<Rightarrow> (int \<times> (mapped \<times> string) list) result" where
  "guided_main run opts c =
     (if \<not> (0 \<le> o_seed opts \<and> o_seed opts \<le> 0xFFFFFFFF) then Inr (EXIT_MISUSE, [])
      else if o_cycles opts \<le> 0 then Inr (EXIT_MISUSE, [])
      else bindE (recover (findall FUZZ_TEST (c_log c)) (c_files c)) (\<lambda>rec. Inr (verdict run opts c rec)))"

section \<open>The watchdog returns\<close>

definition stops :: "(nat \<Rightarrow> int option) \<Rightarrow> (nat \<Rightarrow> real) \<Rightarrow> real \<Rightarrow> nat \<Rightarrow> bool" where
  "stops poll clock deadline n \<longleftrightarrow> poll n \<noteq> None \<or> deadline < clock n"

definition outcome :: "(nat \<Rightarrow> int option) \<Rightarrow> int \<Rightarrow> nat \<Rightarrow> int \<times> bool" where
  "outcome poll killed n = (case poll n of Some code \<Rightarrow> (code, False) | None \<Rightarrow> (killed, True))"

lemma wait_loop_stop: "stops poll clock deadline n \<Longrightarrow> wait_loop poll clock deadline killed n = Some (outcome poll killed n)"
  by (subst wait_loop.simps) (auto simp: stops_def outcome_def split: option.splits)

lemma wait_loop_step:
  "\<not> stops poll clock deadline n \<Longrightarrow> wait_loop poll clock deadline killed n = wait_loop poll clock deadline killed (n + 1)"
  by (subst wait_loop.simps) (simp add: stops_def)

lemma wait_loop_least:
  assumes "stops poll clock deadline k" and "\<And>j. n \<le> j \<Longrightarrow> j < k \<Longrightarrow> \<not> stops poll clock deadline j" and "n \<le> k"
  shows "wait_loop poll clock deadline killed n = Some (outcome poll killed k)"
  using assms(3,2)
proof (induction "k - n" arbitrary: n)
  case 0
  then show ?case using wait_loop_stop [OF assms(1)] by simp
next
  case (Suc d)
  then have "\<not> stops poll clock deadline n" by simp
  moreover have "wait_loop poll clock deadline killed (n + 1) = Some (outcome poll killed k)"
    using Suc by (intro Suc.hyps(1)) auto
  ultimately show ?case by (simp add: wait_loop_step)
qed

section \<open>The layout of a mapped file\<close>

definition le :: "nat \<Rightarrow> nat \<Rightarrow> bytes" where
  "le k n = rev (be k n)"

lemma le_simps [simp]: "length (le k n) = k" "n < 256 ^ k \<Longrightarrow> le_val (le k n) = n"
  by (simp_all add: le_def le_val_def be_val_be)

lemma le_of_val: "length bs = k \<Longrightarrow> le k (le_val bs) = bs"
  using be_of_be_val [of "rev bs"] by (simp add: le_def le_val_def)

lemma le_val_bound: "length bs = k \<Longrightarrow> le_val bs < 256 ^ k"
  using be_val_bound [of "rev bs"] by (simp add: le_val_def)

definition mapped_layout :: "nat \<Rightarrow> nat \<Rightarrow> nat \<Rightarrow> bytes \<Rightarrow> bytes \<Rightarrow> bytes" where
  "mapped_layout coverage inst test_index input padding =
     le 8 coverage @ le 4 inst @ le 4 test_index @ le 4 (length input) @ input @ padding"

lemma mapped_fields:
  assumes "coverage < 256 ^ 8" "inst < 256 ^ 4" "test_index < 256 ^ 4" "length input \<le> MAX_SMITH_INPUT"
  shows "parse_mapped name sz (Inr (mapped_layout coverage inst test_index input padding)) =
    \<lparr>m_file = name, m_valid = True, m_coverage = Some (hex (be 8 coverage)), m_instance = Some inst,
     m_test_index = Some test_index, m_length = Some (length input), m_size = sz, m_test_name = None,
     m_target = None, m_error = None, m_padding = Some (length padding)\<rparr>"
    and "take (length input) (drop 20 (mapped_layout coverage inst test_index input padding)) = input"
proof -
  let ?b = "mapped_layout coverage inst test_index input padding"
  have len: "length input < 256 ^ 4"
    using assms(4) by (simp add: MAX_SMITH_INPUT_def)
  have l: "length ?b = 20 + length input + length padding"
    by (simp add: mapped_layout_def)
  have f: "take 8 ?b = le 8 coverage" "take 4 (drop 8 ?b) = le 4 inst" "take 4 (drop 12 ?b) = le 4 test_index"
    "take 4 (drop 16 ?b) = le 4 (length input)"
    by (simp_all add: mapped_layout_def)
  show "parse_mapped name sz (Inr ?b) = \<lparr>m_file = name, m_valid = True, m_coverage = Some (hex (be 8 coverage)), m_instance = Some inst,
     m_test_index = Some test_index, m_length = Some (length input), m_size = sz, m_test_name = None,
     m_target = None, m_error = None, m_padding = Some (length padding)\<rparr>"
    using assms len by (simp add: parse_mapped_def f l blank_entry_def)
  show "take (length input) (drop 20 ?b) = input"
    by (simp add: mapped_layout_def)
qed

lemma mapped_valid:
  assumes "m_valid (parse_mapped name sz (Inr blob))"
  shows "\<exists>coverage inst test_index input padding. coverage < 256 ^ 8 \<and> inst < 256 ^ 4 \<and> test_index < 256 ^ 4
    \<and> length input \<le> MAX_SMITH_INPUT \<and> blob = mapped_layout coverage inst test_index input padding"
proof -
  define coverage where "coverage = take 8 blob"
  define inst where "inst = take 4 (drop 8 blob)"
  define test_index where "test_index = take 4 (drop 12 blob)"
  define len where "len = take 4 (drop 16 blob)"
  have l: "20 \<le> length blob" "le_val len \<le> MAX_SMITH_INPUT" "20 + le_val len \<le> length blob"
    using assms by (auto simp: parse_mapped_def Let_def blank_entry_def len_def split: if_splits)
  have k: "length coverage = 8" "length inst = 4" "length test_index = 4" "length len = 4"
    using l by (simp_all add: coverage_def inst_def test_index_def len_def)
  have "blob = coverage @ inst @ test_index @ len @ take (le_val len) (drop 20 blob) @ drop (le_val len) (drop 20 blob)"
  proof -
    have "drop k blob = take 4 (drop k blob) @ drop (k + 4) blob" for k
      using append_take_drop_id [of 4 "drop k blob"] by (simp del: append_take_drop_id add: add.commute)
    from this [of 8] this [of 12] this [of 16]
    have "drop 8 blob = take 4 (drop 8 blob) @ take 4 (drop 12 blob) @ take 4 (drop 16 blob) @ drop 20 blob"
      by simp
    then show ?thesis
      unfolding append_take_drop_id coverage_def inst_def test_index_def len_def using append_take_drop_id [of 8 blob] by metis
  qed
  then have "blob = mapped_layout (le_val coverage) (le_val inst) (le_val test_index)
      (take (le_val len) (drop 20 blob)) (drop (le_val len) (drop 20 blob))"
    unfolding mapped_layout_def using l(3) k by (simp add: le_of_val)
  moreover have "le_val coverage < 256 ^ 8" "le_val inst < 256 ^ 4" "le_val test_index < 256 ^ 4"
    using le_val_bound k by blast+
  moreover have "length (take (le_val len) (drop 20 blob)) \<le> MAX_SMITH_INPUT"
    using l by simp
  ultimately show ?thesis by blast
qed

section \<open>Diagnostics\<close>

definition line_starts :: "string \<Rightarrow> string \<Rightarrow> bool" where
  "line_starts txt prefix \<longleftrightarrow> (\<exists>a b. txt = a @ prefix @ b \<and> (a = [] \<or> last a = CHR 10))"

lemma line_found:
  assumes "line_starts txt prefix" and "\<And>prev. prev = None \<or> prev = Some (CHR 10) \<Longrightarrow> \<exists>g. reads r prev prefix g"
  shows "search r txt \<noteq> None"
proof -
  obtain a b where "txt = a @ prefix @ b" "a = [] \<or> last a = CHR 10"
    using assms(1) by (auto simp: line_starts_def)
  then show ?thesis
    unfolding search_def search_from_None using assms(2) [of "prev_after None a"] line_start_prev by blast
qed

lemma failure_line_found: "line_starts txt ''+- run test failure'' \<Longrightarrow> found_failure txt"
proof -
  assume l: "line_starts txt ''+- run test failure''"
  have "search (seqs [Line_Start, lit ''+- run test failure'']) txt \<noteq> None"
  proof (rule line_found [OF l])
    fix prev :: "char option" assume p: "prev = None \<or> prev = Some (CHR 10)"
    have "reads (seqs [Line_Start, lit ''+- run test failure'']) prev ([] @ ''+- run test failure'' @ []) ([] @ [] @ [])"
      unfolding seqs.simps using p by (intro reads_Seq reads_Line_Start reads_Eps reads_litI)
    then have "reads (seqs [Line_Start, lit ''+- run test failure'']) prev ''+- run test failure'' []"
      by (simp only: append_Nil append_Nil2)
    then show "\<exists>g. reads (seqs [Line_Start, lit ''+- run test failure'']) prev ''+- run test failure'' g"
      by (rule exI)
  qed
  then show ?thesis
    by (auto simp: found_failure_def FAILURE_DIAGNOSTICS_def)
qed

lemma error_line_found:
  assumes "line_starts txt (''failed with error.'' @ [c])" and "\<not> py_space c"
  shows "found_failure txt"
proof -
  have "search (seqs [Line_Start, lit ''failed with error.'', plus non_space]) txt \<noteq> None"
  proof (rule line_found [OF assms(1)])
    fix prev :: "char option" assume p: "prev = None \<or> prev = Some (CHR 10)"
    have plus: "reads (plus non_space) q ([c] @ []) ([] @ [])" for q
      unfolding plus_def non_space_def using assms(2) by (intro reads_Seq reads_Star_Nil reads_Cls)
    have "reads (seqs [Line_Start, lit ''failed with error.'', plus non_space]) prev
        ([] @ ''failed with error.'' @ ([c] @ []) @ []) ([] @ [] @ ([] @ []) @ [])"
      unfolding seqs.simps using p by (intro reads_Seq reads_Line_Start reads_Eps reads_litI plus)
    then have "reads (seqs [Line_Start, lit ''failed with error.'', plus non_space]) prev (''failed with error.'' @ [c]) []"
      by (simp only: append_Nil append_Nil2)
    then show "\<exists>g. reads (seqs [Line_Start, lit ''failed with error.'', plus non_space]) prev (''failed with error.'' @ [c]) g"
      by (rule exI)
  qed
  then show ?thesis
    by (auto simp: found_failure_def FAILURE_DIAGNOSTICS_def)
qed

section \<open>The verdict\<close>

lemma reproduced_iff:
  "(entry, t) \<in> set (reproduced run replay_target wanted valid) \<longleftrightarrow>
     entry \<in> set valid \<and> find (\<lambda>t. replay_reproduces run entry t wanted) (replay_targets replay_target entry) = Some t"
  unfolding reproduced_def
  by (induction valid) (auto simp: replay_entry_def List.map_filter_simps split: option.splits)

lemma reproduced_sound:
  assumes "(entry, t) \<in> set (reproduced run replay_target wanted valid)"
  shows "entry \<in> set valid \<and> run (m_file entry @ ''.mapped'') t wanted = 0"
  using assms by (auto simp: reproduced_iff find_Some_iff replay_reproduces_def)

lemma verdict_good:
  assumes "verdict run opts c rec = (code, good)" and "(entry, t) \<in> set good"
  shows "entry \<in> set (recovered rec) \<and> m_valid entry \<and> (\<exists>wanted. run (m_file entry @ ''.mapped'') t wanted = 0)"
proof -
  obtain replay_target wanted where "(entry, t) \<in> set (reproduced run replay_target wanted (filter m_valid (recovered rec)))"
    using assms by (auto simp: verdict_def Let_def split: if_splits)
  from reproduced_sound [OF this] show ?thesis by auto
qed

lemma verdict_clean:
  assumes "verdict run opts c rec = (EXIT_CLEAN, good)" and "\<not> o_self_test opts"
  shows "c_exit c = 0 \<and> \<not> c_expired c \<and> \<not> found_failure (c_log c)"
  using assms by (auto simp: verdict_def Let_def exit_codes split: if_splits)

lemma verdict_found:
  assumes "verdict run opts c rec = (code, good)"
    and "code = EXIT_FOUND_FAILURE \<or> code = EXIT_CLEAN \<and> o_self_test opts"
  shows "good \<noteq> [] \<and> found_failure (c_log c)"
  using assms by (auto simp: verdict_def Let_def exit_codes split: if_splits)

text \<open>Every valid input that is reported has been preserved, whole and cut to its length.\<close>

definition kept :: "recovery \<Rightarrow> mapped \<Rightarrow> bool" where
  "kept st e \<longleftrightarrow> (\<exists>blob. (m_file e @ ''.mapped'', blob) \<in> set (preserved st)
     \<and> (m_file e @ ''.smith'', take (the (m_length e)) (drop 20 blob)) \<in> set (preserved st)
     \<and> m_valid (parse_mapped (m_file e) (m_size e) (Inr blob)))"

lemma name_entry_fields [simp]:
  "m_file (name_entry ft e) = m_file e" "m_valid (name_entry ft e) = m_valid e"
  "m_length (name_entry ft e) = m_length e" "m_size (name_entry ft e) = m_size e"
  by (simp_all add: name_entry_def Let_def split: option.splits)

lemma parse_mapped_name [simp]:
  "m_file (parse_mapped name sz b) = name" "m_size (parse_mapped name sz b) = sz"
  by (simp_all add: parse_mapped_def blank_entry_def Let_def split: sum.splits)

lemma kept_mono: "kept st e \<Longrightarrow> set (preserved st) \<subseteq> set (preserved st') \<Longrightarrow> kept st' e"
  unfolding kept_def by blast

lemma recover_file_kept:
  assumes "recover_file ft f st = Inr st'" and "\<forall>e \<in> set (recovered st). m_valid e \<longrightarrow> kept st e"
  shows "\<forall>e \<in> set (recovered st'). m_valid e \<longrightarrow> kept st' e"
proof -
  obtain name sz b where f: "f = (name, sz, b)" by (cases f)
  have sub: "set (preserved st) \<subseteq> set (preserved st')"
    using assms(1) f by (auto simp: recover_file_def Let_def split: sum.splits if_splits)
  have "e \<in> set (recovered st) \<or> kept st' e" if "e \<in> set (recovered st')" "m_valid e" for e
    using assms(1) f that by (auto simp: recover_file_def Let_def kept_def split: sum.splits if_splits)
  then show ?thesis
    using assms(2) kept_mono [OF _ sub] by blast
qed

lemma recover_files_kept:
  assumes "recover_files ft fs st = Inr st'" and "\<forall>e \<in> set (recovered st). m_valid e \<longrightarrow> kept st e"
  shows "\<forall>e \<in> set (recovered st'). m_valid e \<longrightarrow> kept st' e"
  using assms
proof (induction fs arbitrary: st)
  case Nil
  then show ?case by simp
next
  case (Cons f fs)
  then obtain st1 where "recover_file ft f st = Inr st1" "recover_files ft fs st1 = Inr st'"
    by (auto simp: bindE_Inr_iff)
  then show ?case
    using Cons.IH recover_file_kept Cons.prems(2) by blast
qed

lemma recover_kept: "recover ft files = Inr rec \<Longrightarrow> e \<in> set (recovered rec) \<Longrightarrow> m_valid e \<Longrightarrow> kept rec e"
  using recover_files_kept [of ft "sort_key fst files"] by (simp add: recover_def)

lemma guided_main_verdict:
  assumes "guided_main run opts c = Inr (code, good)"
  shows "code = EXIT_MISUSE \<and> good = [] \<or> (\<exists>rec. recover (findall FUZZ_TEST (c_log c)) (c_files c) = Inr rec
    \<and> verdict run opts c rec = (code, good))"
  using assms by (auto simp: guided_main_def bindE_Inr_iff split: if_splits)

section \<open>A process that ends at the fourth poll\<close>

definition demo_poll :: "nat \<Rightarrow> int option" where
  "demo_poll n = (if n = 3 then Some 0 else None)"

definition demo_clock :: "nat \<Rightarrow> real" where
  "demo_clock n = 10 + real n"

section \<open>A campaign with one finding\<close>

definition demo_blob :: bytes where
  "demo_blob = mapped_layout 1 0 0 [7] [0, 0]"

definition demo_campaign :: campaign where
  "demo_campaign = \<lparr>c_exit = 0, c_expired = False, c_log = ''+- run test failure'', c_files = [(''in0'', 23, Inr demo_blob)]\<rparr>"

lemma demo_guided:
  "\<exists>good. guided_main (\<lambda>_ _ _. 0) \<lparr>o_cycles = 20000, o_seed = 1, o_self_test = False, o_replay_target = Some ''codec''\<rparr>
      demo_campaign = Inr (EXIT_FOUND_FAILURE, good)"
proof -
  have p: "m_valid (parse_mapped ''in0'' 23 (Inr demo_blob))"
    unfolding demo_blob_def by (subst mapped_fields(1)) (simp_all add: MAX_SMITH_INPUT_def)
  then obtain rec e where r: "recover (findall FUZZ_TEST (c_log demo_campaign)) (c_files demo_campaign) = Inr rec"
    and e: "recovered rec = [e]" "m_valid e"
    by (simp add: recover_def recover_file_def demo_campaign_def Let_def)
  have "line_starts (c_log demo_campaign) ''+- run test failure''"
    unfolding line_starts_def by (intro exI [of _ "[]"]) (simp add: demo_campaign_def)
  then have f: "found_failure (c_log demo_campaign)"
    by (rule failure_line_found)
  have "reproduced (\<lambda>_ _ _. 0) (Some ''codec'') wanted [e] = [(e, ''codec'')]" for wanted
    by (simp add: reproduced_def replay_entry_def List.map_filter_simps replay_targets_def truthy_text_def replay_reproduces_def)
  then show ?thesis
    using r e f by (simp add: guided_main_def verdict_def)
qed

section \<open>Properties\<close>

text \<open>
  C28: The watchdog returns as soon as the process has ended or the deadline has passed, whichever poll
  sees first, and reports expiry exactly when the deadline came first; one of the two happening
  at some iteration is enough for it to return.
\<close>

theorem watchdog_returns:
  assumes "poll m \<noteq> None \<or> start + timeout < clock m"
  shows "\<exists>k \<le> m. wait_with_watchdog poll start clock killed timeout =
      Some (case poll k of Some code \<Rightarrow> (code, False) | None \<Rightarrow> (killed, True))
    \<and> (poll k = None \<longrightarrow> start + timeout < clock k)
    \<and> (\<forall>j < k. poll j = None \<and> clock j \<le> start + timeout)"
proof -
  let ?stops = "stops poll clock (start + timeout)"
  define k where "k = (LEAST k. ?stops k)"
  have m: "?stops m"
    using assms by (simp add: stops_def)
  then have k: "?stops k" "k \<le> m"
    unfolding k_def using LeastI [of ?stops m] Least_le [of ?stops m] by simp_all
  have before: "\<not> ?stops j" if "j < k" for j
    using not_less_Least that unfolding k_def by blast
  have "wait_loop poll clock (start + timeout) killed 0 = Some (outcome poll killed k)"
    using before by (intro wait_loop_least [OF k(1)]) auto
  then show ?thesis
    using k before by (intro exI [of _ k]) (auto simp: wait_with_watchdog_def outcome_def stops_def not_less)
qed

theorem watchdog_returns_witness:
  "wait_with_watchdog demo_poll 10 demo_clock (- 9) 5 = Some (0, False)"
proof -
  have "demo_poll 3 \<noteq> None \<or> 10 + 5 < demo_clock 3" by (simp add: demo_poll_def)
  from watchdog_returns [of demo_poll 3 10 5 demo_clock, OF this, of "- 9"]
  obtain k where k: "k \<le> 3" "wait_with_watchdog demo_poll 10 demo_clock (- 9) 5
      = Some (case demo_poll k of Some code \<Rightarrow> (code, False) | None \<Rightarrow> (- 9, True))"
    "demo_poll k = None \<longrightarrow> 10 + 5 < demo_clock k"
    by (elim exE conjE) (rule that; assumption)
  have "k = 3"
  proof (rule ccontr)
    assume "k \<noteq> 3"
    then have "5 < real k" using k(3) by (simp add: demo_poll_def demo_clock_def)
    with k(1) show False by simp
  qed
  with k(2) show ?thesis by (simp add: demo_poll_def)
qed

text \<open>
  C27: The parser of mapped inputs inverts their layout: a blob is accepted exactly when it is the four
  little-endian header fields, an input within the cap and any padding; the fields reported are
  the header's and the bytes cut out are the input.
\<close>

theorem mapped_roundtrip:
  "m_valid (parse_mapped name sz (Inr blob)) \<longleftrightarrow>
     (\<exists>coverage inst test_index input padding. coverage < 2 ^ 64 \<and> inst < 2 ^ 32 \<and> test_index < 2 ^ 32
        \<and> length input \<le> MAX_SMITH_INPUT
        \<and> blob = le 8 coverage @ le 4 inst @ le 4 test_index @ le 4 (length input) @ input @ padding
        \<and> parse_mapped name sz (Inr blob) = \<lparr>m_file = name, m_valid = True, m_coverage = Some (hex (be 8 coverage)),
            m_instance = Some inst, m_test_index = Some test_index, m_length = Some (length input), m_size = sz,
            m_test_name = None, m_target = None, m_error = None, m_padding = Some (length padding)\<rparr>
        \<and> take (length input) (drop 20 blob) = input)"
proof
  assume "m_valid (parse_mapped name sz (Inr blob))"
  from mapped_valid [OF this] obtain coverage inst test_index input padding where
    b: "coverage < 256 ^ 8" "inst < 256 ^ 4" "test_index < 256 ^ 4" "length input \<le> MAX_SMITH_INPUT"
    and e: "blob = mapped_layout coverage inst test_index input padding" by blast
  note f = mapped_fields(1) [OF b, where name = name and sz = sz and padding = padding]
    mapped_fields(2) [OF b, where padding = padding]
  show "\<exists>coverage inst test_index input padding. coverage < 2 ^ 64 \<and> inst < 2 ^ 32 \<and> test_index < 2 ^ 32
        \<and> length input \<le> MAX_SMITH_INPUT
        \<and> blob = le 8 coverage @ le 4 inst @ le 4 test_index @ le 4 (length input) @ input @ padding
        \<and> parse_mapped name sz (Inr blob) = \<lparr>m_file = name, m_valid = True, m_coverage = Some (hex (be 8 coverage)),
            m_instance = Some inst, m_test_index = Some test_index, m_length = Some (length input), m_size = sz,
            m_test_name = None, m_target = None, m_error = None, m_padding = Some (length padding)\<rparr>
        \<and> take (length input) (drop 20 blob) = input"
    using b f unfolding e by (intro exI [of _ coverage] exI [of _ inst] exI [of _ test_index] exI [of _ input]
        exI [of _ padding]) (simp add: mapped_layout_def)
next
  assume "\<exists>coverage inst test_index input padding. coverage < 2 ^ 64 \<and> inst < 2 ^ 32 \<and> test_index < 2 ^ 32
        \<and> length input \<le> MAX_SMITH_INPUT
        \<and> blob = le 8 coverage @ le 4 inst @ le 4 test_index @ le 4 (length input) @ input @ padding
        \<and> parse_mapped name sz (Inr blob) = \<lparr>m_file = name, m_valid = True, m_coverage = Some (hex (be 8 coverage)),
            m_instance = Some inst, m_test_index = Some test_index, m_length = Some (length input), m_size = sz,
            m_test_name = None, m_target = None, m_error = None, m_padding = Some (length padding)\<rparr>
        \<and> take (length input) (drop 20 blob) = input"
  then obtain p where "parse_mapped name sz (Inr blob) = p" "m_valid p" by fastforce
  then show "m_valid (parse_mapped name sz (Inr blob))" by simp
qed



end
