(* ===== verification/Fuzz_Artifacts.thy ===== *)
theory Fuzz_Artifacts
  imports Fuzz_Wrapper Tool_Files
begin

text \<open>
  What \<open>main\<close> of \<open>tools/guided-fuzz.py\<close> leaves on disk: the provenance of a campaign, the report cut
  from the log, the recovered inputs as JSON and the verdict, with the commands that build and
  replay. The lemmas show that the detailed program decides as \<open>guided_main\<close> does, that the verdict
  file states the exit code, and where an artifact directory has to be. Directories can be made
  and files written; lines logged to the terminal are left out, but not what computing them raises.
\<close>

section \<open>JSON documents\<close>

text \<open>A number that is not an integer is kept as its text.\<close>

datatype doc = DNull | DBool bool | DInt int | DNumber string | DStr string | DList "doc list" | DObj "(string \<times> doc) list"

definition newline :: "nat \<Rightarrow> string" where
  "newline k = CHR 10 # replicate k (CHR '' '')"

text \<open>\<open>json.dumps(value, indent=2)\<close>, nested \<open>k\<close> blanks deep.\<close>

fun dump :: "nat \<Rightarrow> doc \<Rightarrow> string"
  and dump_items :: "nat \<Rightarrow> doc list \<Rightarrow> string list"
  and dump_fields :: "nat \<Rightarrow> (string \<times> doc) list \<Rightarrow> string list" where
  "dump k DNull = ''null''"
| "dump k (DBool b) = (if b then ''true'' else ''false'')"
| "dump k (DInt n) = dec n"
| "dump k (DNumber t) = t"
| "dump k (DStr s) = json_string s"
| "dump k (DList ds) = (if ds = [] then ''[]''
     else ''['' @ newline (k + 2) @ join ('','' @ newline (k + 2)) (dump_items (k + 2) ds) @ newline k @ '']'')"
| "dump k (DObj fs) = (if fs = [] then ''{}''
     else ''{'' @ newline (k + 2) @ join ('','' @ newline (k + 2)) (dump_fields (k + 2) fs) @ newline k @ ''}'')"
| "dump_items k [] = []"
| "dump_items k (d # ds) = dump k d # dump_items k ds"
| "dump_fields k [] = []"
| "dump_fields k ((n, d) # fs) = (json_string n @ '': '' @ dump k d) # dump_fields k fs"

definition json_file :: "doc \<Rightarrow> string" where
  "json_file d = dump 0 d @ [CHR 10]"

section \<open>Paths\<close>

text \<open>A path is absolute or not, and its components.\<close>

type_synonym pure_path = "bool \<times> path"

definition pure_path :: "string \<Rightarrow> pure_path" where
  "pure_path s = (s \<noteq> [] \<and> hd s = CHR ''/'', path_parts s)"

definition below_path :: "pure_path \<Rightarrow> path \<Rightarrow> pure_path" where
  "below_path p q = (fst p, snd p @ q)"

definition path_str :: "pure_path \<Rightarrow> string" where
  "path_str p = (if fst p then ''/'' @ posix (snd p) else if snd p = [] then ''.'' else posix (snd p))"

definition relative_to :: "pure_path \<Rightarrow> pure_path \<Rightarrow> path result" where
  "relative_to p base = (if fst p = fst base \<and> take (length (snd base)) (snd p) = snd base
     then Inr (drop (length (snd base)) (snd p)) else Inl (ValueError ''not in the subpath''))"

section \<open>Settings\<close>

record fuzz_options = options +
  o_timeout :: real
  o_timeout_text :: string
  o_step :: string
  o_optimize :: string
  o_artifacts :: "string option"
  o_extra :: "string list"

record settings =
  s_step :: string
  s_cycles :: int
  s_seed :: int
  s_timeout :: real
  s_timeout_text :: string
  s_optimize :: string
  s_extra :: "string list"
  s_replay_target :: "string option"
  s_expected :: "string option"
  s_self_test :: bool

text \<open>The self-test drives the probe and tightens the defaults.\<close>

definition settings_of :: "fuzz_options \<Rightarrow> settings" where
  "settings_of opts =
     (let base = \<lparr>s_step = o_step opts, s_cycles = o_cycles opts, s_seed = o_seed opts, s_timeout = o_timeout opts,
        s_timeout_text = o_timeout_text opts, s_optimize = o_optimize opts, s_extra = o_extra opts,
        s_replay_target = o_replay_target opts, s_expected = None, s_self_test = o_self_test opts\<rparr>
      in if o_self_test opts then
        base\<lparr>s_step := ''guided-probe-coverage'',
             s_cycles := (if o_cycles opts = 20000 then 5000 else o_cycles opts),
             s_timeout := (if o_timeout opts = 1200 then 600 else o_timeout opts),
             s_timeout_text := (if o_timeout opts = 1200 then ''600'' else o_timeout_text opts),
             s_extra := o_extra opts @ [''-Dguided-probe=true''],
             s_replay_target := (case truthy_text (o_replay_target opts) of None \<Rightarrow> Some ''probe'' | t \<Rightarrow> t),
             s_expected := Some ''SyntheticProbeFailure''\<rparr>
      else base)"

text \<open>
  The machine: where the repository is, the time, the commands \<open>zig version\<close> and \<open>git\<close>, what the
  build leaves, and the exit status of a replay under its watchdog.
\<close>

record machine =
  repo_path :: path
  stamp :: string
  ask :: "string list \<Rightarrow> completed result"
  build :: "string list \<Rightarrow> real \<Rightarrow> campaign"
  launch :: "string list \<Rightarrow> int"

definition artifacts_path :: "machine \<Rightarrow> settings \<Rightarrow> string option \<Rightarrow> pure_path" where
  "artifacts_path m st given = (case truthy_text given of
       Some s \<Rightarrow> pure_path s
     | None \<Rightarrow> (True, repo_path m @ [''.zig-cache'', ''guided-fuzz''] @
         path_parts (stamp m @ ''-'' @ s_step st @ ''-s'' @ dec (s_seed st))))"

definition build_command :: "settings \<Rightarrow> pure_path \<Rightarrow> string list" where
  "build_command st dir =
     [''zig'', ''build'', s_step st, ''-Doptimize='' @ s_optimize st, ''--fuzz='' @ dec (s_cycles st), ''--seed='' @ dec (s_seed st),
      ''--summary'', ''all'', ''--color'', ''off'', ''--cache-dir'', path_str (below_path dir [''zig-cache''])] @ s_extra st"

definition zig_version :: "machine \<Rightarrow> string result" where
  "zig_version m = bindE (ask m [''mise'', ''exec'', ''--'', ''zig'', ''version'']) (\<lambda>p.
     if exit_code p \<noteq> 0 then Inl (CalledProcessError ''mise'') else Inr (strip (newlines (stdout_text p))))"

definition git :: "machine \<Rightarrow> string list \<Rightarrow> string result" where
  "git m args = bindE (ask m (''git'' # args)) (\<lambda>p. Inr (strip (newlines (stdout_text p))))"

definition git_state :: "machine \<Rightarrow> doc result" where
  "git_state m =
     bindE (git m [''rev-parse'', ''HEAD'']) (\<lambda>commit.
     bindE (git m [''status'', ''--porcelain'']) (\<lambda>dirty.
     bindE (git m [''log'', ''-1'', ''--format=%s'']) (\<lambda>subject.
       Inr (DObj [(''commit'', DStr commit), (''dirty_files'', DInt (int (length (splitlines dirty)))), (''subject'', DStr subject)]))))"

definition provenance :: "machine \<Rightarrow> settings \<Rightarrow> pure_path \<Rightarrow> doc result" where
  "provenance m st dir =
     bindE (zig_version m) (\<lambda>version.
     bindE (git_state m) (\<lambda>state.
       Inr (DObj [(''started_utc'', DStr (stamp m)), (''step'', DStr (s_step st)), (''cycles'', DInt (s_cycles st)),
         (''seed'', DInt (s_seed st)), (''timeout_seconds'', DNumber (s_timeout_text st)), (''optimize'', DStr (s_optimize st)),
         (''build_command'', DList (map DStr (build_command st dir))), (''zig_version'', DStr version), (''git'', state),
         (''self_test'', DBool (s_self_test st))])))"

section \<open>Reports\<close>

definition REPORT_BEGIN :: string where
  "REPORT_BEGIN = ''======= FUZZING REPORT =======''"

text \<open>\<open>text[text.index(w):]\<close>\<close>

fun from_first :: "string \<Rightarrow> string \<Rightarrow> string" where
  "from_first w [] = []"
| "from_first w (c # s) = (if take (length w) (c # s) = w then c # s else from_first w s)"

definition report_text :: "string \<Rightarrow> string" where
  "report_text txt = (let report = (if occurs REPORT_BEGIN txt then strip (from_first REPORT_BEGIN txt) else [])
     in if report \<noteq> [] then report @ [CHR 10] else ''no fuzzing report captured'' @ [CHR 10])"

definition opt_doc :: "('a \<Rightarrow> doc) \<Rightarrow> 'a option \<Rightarrow> doc" where
  "opt_doc f x = (case x of None \<Rightarrow> DNull | Some v \<Rightarrow> f v)"

definition nat_doc :: "nat \<Rightarrow> doc" where
  "nat_doc n = DInt (int n)"

text \<open>An entry with its fields in the order they were added; the last is the target it was replayed as.\<close>

definition mapped_doc :: "string option \<Rightarrow> mapped \<Rightarrow> doc" where
  "mapped_doc replayed_as e = DObj
     ([(''file'', DStr (m_file e)), (''valid'', DBool (m_valid e)), (''coverage'', opt_doc DStr (m_coverage e)),
       (''instance'', opt_doc nat_doc (m_instance e)), (''test_index'', opt_doc nat_doc (m_test_index e)),
       (''length'', opt_doc nat_doc (m_length e)), (''size'', nat_doc (m_size e)), (''test_name'', opt_doc DStr (m_test_name e)),
       (''target'', opt_doc DStr (m_target e)), (''error'', opt_doc DStr (m_error e))]
      @ (case m_padding e of None \<Rightarrow> [] | Some n \<Rightarrow> [(''padding'', nat_doc n)])
      @ (case replayed_as of None \<Rightarrow> [] | Some t \<Rightarrow> [(''replayed_as'', DStr t)]))"

definition crash_doc :: "nat option \<Rightarrow> doc" where
  "crash_doc = opt_doc (\<lambda>n. DObj [(''file'', DStr ''f/crash''), (''size'', nat_doc n)])"

text \<open>\<open>recovered.json\<close> before the replays, and after them.\<close>

definition recovered_doc :: "recovery \<Rightarrow> string option \<Rightarrow> doc" where
  "recovered_doc rec expected = DObj
     [(''crash_file'', crash_doc (crash_size rec)), (''inputs'', DList (map (mapped_doc None) (recovered rec))),
      (''expected_error'', opt_doc DStr expected)]"

definition replayed_doc :: "recovery \<Rightarrow> (mapped \<Rightarrow> string option) \<Rightarrow> string \<Rightarrow> bool \<Rightarrow> doc" where
  "replayed_doc rec replayed_as wanted any = DObj
     [(''crash_file'', crash_doc (crash_size rec)),
      (''inputs'', DList (map (\<lambda>e. mapped_doc (replayed_as e) e) (recovered rec))),
      (''expected_error'', DStr wanted), (''reproduced'', DBool any)]"

section \<open>Replays\<close>

definition mapped_path :: "pure_path \<Rightarrow> string \<Rightarrow> pure_path" where
  "mapped_path dir file = below_path dir [''recovered'', file @ ''.mapped'']"

definition replay_command :: "settings \<Rightarrow> pure_path \<Rightarrow> string \<Rightarrow> string \<Rightarrow> string \<Rightarrow> string list" where
  "replay_command st dir mapped_name target wanted =
     [''zig'', ''build'', ''fuzz-portable'', ''-Doptimize=ReleaseSafe'', ''--summary'', ''all'', ''--color'', ''off'']
     @ s_extra st @ [''--'', ''--replay-target'', target, ''--replay-mapped'', path_str (below_path dir [''recovered'', mapped_name]),
       ''--expect-error'', wanted]"

definition replayer_of :: "machine \<Rightarrow> settings \<Rightarrow> pure_path \<Rightarrow> replayer" where
  "replayer_of m st dir mapped_name target wanted = launch m (replay_command st dir mapped_name target wanted)"

section \<open>Summaries\<close>

text \<open>\<open>repr\<close> of a string and of a list of strings.\<close>

definition repr_char :: "char \<Rightarrow> char \<Rightarrow> string" where
  "repr_char q c = (let n = of_char c :: nat in
     if c = q \<or> n = 92 then [CHR 92, c]
     else if n = 10 then [CHR 92, CHR ''n''] else if n = 13 then [CHR 92, CHR ''r''] else if n = 9 then [CHR 92, CHR ''t'']
     else if 32 \<le> n \<and> n \<le> 126 \<or> 161 \<le> n \<and> n \<noteq> 173 then [c]
     else [CHR 92, CHR ''x''] @ hex [of_nat n])"

definition repr :: "string \<Rightarrow> string" where
  "repr s = (let q = (if CHR 39 \<in> set s \<and> CHR 34 \<notin> set s then CHR 34 else CHR 39)
     in [q] @ concat (map (repr_char q) s) @ [q])"

definition repr_list :: "string list \<Rightarrow> string" where
  "repr_list ss = ''['' @ join '', '' (map repr ss) @ '']''"

definition shown_name :: "mapped \<Rightarrow> string" where
  "shown_name e = (case truthy_text (m_test_name e) of None \<Rightarrow> ''?'' | Some n \<Rightarrow> n)"

definition found_summary :: "pure_path \<Rightarrow> string \<Rightarrow> (mapped \<times> string) list \<Rightarrow> string" where
  "found_summary dir wanted good = (case hd good of (e, t) \<Rightarrow>
     ''fuzz failure found, recovered, and reproduced: error='' @ wanted @ ''; tests=''
     @ repr_list (sort (remdups (map (shown_name \<circ> fst) good))) @ ''; input='' @ m_file e
     @ ''; replay via zig build fuzz-portable -- --replay-target '' @ t
     @ '' --replay-mapped '' @ path_str (mapped_path dir (m_file e)) @ '' --expect-error '' @ wanted)"

section \<open>The program\<close>

type_synonym artifacts = "(string, string) dict"

text \<open>
  The end of \<open>main\<close>: the exit code, the summary, \<open>recovered.json\<close> when it is written again, and the
  inputs reproduced.
\<close>

definition conclude ::
  "machine \<Rightarrow> settings \<Rightarrow> pure_path \<Rightarrow> campaign \<Rightarrow> recovery \<Rightarrow> int \<times> string \<times> doc option \<times> (mapped \<times> string) list" where
  "conclude m st dir c rec =
     (let found = found_failure (c_log c) in
      if c_expired c \<and> \<not> found
      then (EXIT_WATCHDOG, ''watchdog expired without a completed campaign; inconclusive'', None, [])
      else if found then
        let valid = filter m_valid (recovered rec) in
        if valid = []
        then (EXIT_RECOVERY_FAILED, ''failure diagnostics present but no valid mapped input was recovered'', None, [])
        else
          let wanted = wanted_error (s_expected st) (c_log c);
              replay = replay_entry (replayer_of m st dir) (s_replay_target st) wanted;
              good = List.map_filter replay valid;
              doc = replayed_doc rec (\<lambda>e. if m_valid e then map_option snd (replay e) else None) wanted (good \<noteq> [])
          in if good = []
          then (EXIT_NOT_REPRODUCED, ''failure (error '' @ wanted @ '') did not replay exactly; artifacts preserved for diagnosis'', Some doc, [])
          else let summary = found_summary dir wanted good in
            if s_self_test st then (EXIT_CLEAN, ''self-test '' @ summary, Some doc, good)
            else (EXIT_FOUND_FAILURE, summary, Some doc, good)
      else if c_exit c \<noteq> 0
      then (EXIT_BUILD_FAILED, ''build exited '' @ dec (c_exit c) @ '' without fuzz-failure diagnostics'', None, [])
      else if s_self_test st
      then (EXIT_MISUSE, ''self-test expected a discovered failure; check --cycles/--seed'', None, [])
      else (EXIT_CLEAN, ''bounded campaign completed with no failure diagnostics'', None, []))"

text \<open>\<open>finish\<close>\<close>

definition verdict_text :: "int \<Rightarrow> string \<Rightarrow> string" where
  "verdict_text code summary = ''exit='' @ dec code @ [CHR 10] @ summary @ [CHR 10]"

definition run_campaign :: "machine \<Rightarrow> settings \<Rightarrow> pure_path \<Rightarrow> artifacts \<Rightarrow> int result \<times> artifacts" where
  "run_campaign m st dir files =
     (let c = build m (build_command st dir) (s_timeout st);
          files = AList.update ''report.txt'' (report_text (c_log c)) files
      in case recover (findall FUZZ_TEST (c_log c)) (c_files c) of
        Inl e \<Rightarrow> (Inl e, files)
      | Inr rec \<Rightarrow>
          let files = AList.update ''recovered.json'' (json_file (recovered_doc rec (s_expected st))) files in
          (case conclude m st dir c rec of (code, summary, again, good) \<Rightarrow>
             let files = (case again of None \<Rightarrow> files | Some d \<Rightarrow> AList.update ''recovered.json'' (json_file d) files)
             in (Inr code, AList.update ''verdict.txt'' (verdict_text code summary) files)))"

definition fuzz_main :: "machine \<Rightarrow> fuzz_options \<Rightarrow> int result \<times> artifacts" where
  "fuzz_main m opts =
     (if \<not> (0 \<le> o_seed opts \<and> o_seed opts \<le> 0xFFFFFFFF) then (Inr EXIT_MISUSE, [])
      else if o_cycles opts \<le> 0 then (Inr EXIT_MISUSE, [])
      else let st = settings_of opts; dir = artifacts_path m st (o_artifacts opts) in
        case provenance m st dir of
          Inl e \<Rightarrow> (Inl e, [])
        | Inr d \<Rightarrow> let files = [(''provenance.json'', json_file d)] in
            (case relative_to dir (True, repo_path m) of
               Inl e \<Rightarrow> (Inl e, files)
             | Inr _ \<Rightarrow> run_campaign m st dir files))"

section \<open>The detailed program decides as \<open>guided_main\<close>\<close>

abbreviation plain_options :: "fuzz_options \<Rightarrow> options" where
  "plain_options opts \<equiv> options.truncate opts"

lemma truncate_fields [simp]:
  "o_seed (plain_options opts) = o_seed opts" "o_cycles (plain_options opts) = o_cycles opts"
  "o_self_test (plain_options opts) = o_self_test opts" "o_replay_target (plain_options opts) = o_replay_target opts"
  by (simp_all add: options.truncate_def)

lemma settings_fields:
  "s_self_test (settings_of opts) = o_self_test opts"
  "s_expected (settings_of opts) = (if o_self_test opts then Some ''SyntheticProbeFailure'' else None)"
  "s_replay_target (settings_of opts) = (if o_self_test opts
     then (case truthy_text (o_replay_target opts) of None \<Rightarrow> Some ''probe'' | t \<Rightarrow> t) else o_replay_target opts)"
  by (simp_all add: settings_of_def Let_def)

lemma conclude_verdict:
  assumes "conclude m (settings_of opts) dir c rec = (code, summary, again, good)"
  shows "verdict (replayer_of m (settings_of opts) dir) (plain_options opts) c rec = (code, good)"
  using assms unfolding conclude_def verdict_def Let_def settings_fields truncate_fields reproduced_def
  by (auto split: if_splits)

lemma conclude_again:
  assumes "conclude m st dir c rec = (code, summary, again, good)"
  shows "case again of None \<Rightarrow> good = [] \<and> code \<notin> {EXIT_NOT_REPRODUCED, EXIT_FOUND_FAILURE}
    | Some d \<Rightarrow> \<exists>replayed_as wanted. d = replayed_doc rec replayed_as wanted (good \<noteq> [])
        \<and> (\<forall>(e, t) \<in> set good. replayed_as e = Some t)"
proof -
  let ?wanted = "wanted_error (s_expected st) (c_log c)"
  let ?replay = "replay_entry (replayer_of m st dir) (s_replay_target st) ?wanted"
  have "\<forall>(e, t) \<in> set (List.map_filter ?replay (filter m_valid (recovered rec))).
      (if m_valid e then map_option snd (?replay e) else None) = Some t"
    unfolding reproduced_def [symmetric] by (auto simp: reproduced_iff replay_entry_def)
  moreover have "case again of None \<Rightarrow> good = [] \<and> code \<notin> {EXIT_NOT_REPRODUCED, EXIT_FOUND_FAILURE}
    | Some d \<Rightarrow> good = List.map_filter ?replay (filter m_valid (recovered rec))
        \<and> d = replayed_doc rec (\<lambda>e. if m_valid e then map_option snd (?replay e) else None) ?wanted (good \<noteq> [])"
    using assms unfolding conclude_def Let_def by (auto simp: exit_codes split: if_splits)
  ultimately show ?thesis
    by (cases again) (simp, simp only: option.case, blast)
qed

lemma conclude_summary:
  assumes "conclude m st dir c rec = (EXIT_FOUND_FAILURE, summary, again, good)"
  shows "\<exists>wanted e t. good \<noteq> [] \<and> hd good = (e, t) \<and> summary = found_summary dir wanted good
    \<and> launch m (replay_command st dir (m_file e @ ''.mapped'') t wanted) = 0"
proof -
  let ?wanted = "wanted_error (s_expected st) (c_log c)"
  have g: "good \<noteq> []" "good = reproduced (replayer_of m st dir) (s_replay_target st) ?wanted (filter m_valid (recovered rec))"
    "summary = found_summary dir ?wanted good"
    using assms unfolding conclude_def Let_def reproduced_def by (auto simp: exit_codes split: if_splits)
  obtain e t where et: "hd good = (e, t)" by fastforce
  then have "(e, t) \<in> set good" using hd_in_set [OF g(1)] by simp
  then have "replayer_of m st dir (m_file e @ ''.mapped'') t ?wanted = 0"
    using reproduced_sound g(2) by blast
  then show ?thesis
    using g et by (auto simp: replayer_of_def)
qed

lemma fuzz_main_campaign:
  assumes "fuzz_main m opts = (Inr code, files)" and "0 \<le> o_seed opts" and "o_seed opts \<le> 0xFFFFFFFF" and "0 < o_cycles opts"
  shows "\<exists>d. provenance m (settings_of opts) (artifacts_path m (settings_of opts) (o_artifacts opts)) = Inr d
    \<and> run_campaign m (settings_of opts) (artifacts_path m (settings_of opts) (o_artifacts opts)) [(''provenance.json'', json_file d)]
        = (Inr code, files)"
  using assms by (auto simp: fuzz_main_def Let_def split: sum.splits)

lemma run_campaign_Inr:
  assumes "run_campaign m st dir fs = (Inr code, files)"
  shows "\<exists>rec summary again good. let c = build m (build_command st dir) (s_timeout st) in
    recover (findall FUZZ_TEST (c_log c)) (c_files c) = Inr rec
    \<and> conclude m st dir c rec = (code, summary, again, good)
    \<and> (\<forall>k. map_of files k = (if k = ''verdict.txt'' then Some (verdict_text code summary)
         else if k = ''recovered.json'' then Some (json_file (case again of None \<Rightarrow> recovered_doc rec (s_expected st) | Some d \<Rightarrow> d))
         else if k = ''report.txt'' then Some (report_text (c_log c)) else map_of fs k))"
proof -
  let ?c = "build m (build_command st dir) (s_timeout st)"
  obtain rec where rec: "recover (findall FUZZ_TEST (c_log ?c)) (c_files ?c) = Inr rec"
    using assms by (cases "recover (findall FUZZ_TEST (c_log ?c)) (c_files ?c)") (simp_all add: run_campaign_def Let_def)
  obtain code' summary again good where con: "conclude m st dir ?c rec = (code', summary, again, good)"
    by (cases "conclude m st dir ?c rec")
  define base where "base = AList.update ''recovered.json'' (json_file (recovered_doc rec (s_expected st)))
    (AList.update ''report.txt'' (report_text (c_log ?c)) fs)"
  have "code' = code \<and> files = AList.update ''verdict.txt'' (verdict_text code' summary)
      (case again of None \<Rightarrow> base | Some d \<Rightarrow> AList.update ''recovered.json'' (json_file d) base)"
    using assms unfolding run_campaign_def Let_def rec sum.case con prod.case base_def by (auto)
  then have "code' = code" and "\<forall>k. map_of files k = (if k = ''verdict.txt'' then Some (verdict_text code summary)
      else if k = ''recovered.json'' then Some (json_file (case again of None \<Rightarrow> recovered_doc rec (s_expected st) | Some d \<Rightarrow> d))
      else if k = ''report.txt'' then Some (report_text (c_log ?c)) else map_of fs k)"
    by (simp_all add: update_conv base_def split: option.split)
  with rec con show ?thesis
    unfolding Let_def by (intro exI [of _ rec] exI [of _ summary] exI [of _ again] exI [of _ good] conjI) simp_all
qed

section \<open>A machine with one finding\<close>

definition demo_options :: fuzz_options where
  "demo_options = \<lparr>o_cycles = 20000, o_seed = 1, o_self_test = False, o_replay_target = Some ''codec'', o_timeout = 1200,
     o_timeout_text = ''1200'', o_step = ''guided-coverage'', o_optimize = ''ReleaseSafe'', o_artifacts = None, o_extra = []\<rparr>"

definition demo_machine :: machine where
  "demo_machine = \<lparr>repo_path = [''r''], stamp = ''t'', ask = (\<lambda>_. Inr \<lparr>stdout_text = ''x'', stderr_text = [], exit_code = 0\<rparr>),
     build = (\<lambda>_ _. demo_campaign), launch = (\<lambda>_. 0)\<rparr>"

lemma demo_provenance: "\<exists>d. provenance demo_machine st dir = Inr d"
  by (simp add: provenance_def zig_version_def git_state_def git_def demo_machine_def)

lemma demo_fuzz_main: "\<exists>code files. fuzz_main demo_machine demo_options = (Inr code, files)"
proof -
  let ?st = "settings_of demo_options"
  let ?dir = "artifacts_path demo_machine ?st (o_artifacts demo_options)"
  obtain d where d: "provenance demo_machine ?st ?dir = Inr d"
    using demo_provenance by blast
  have rel: "\<exists>q. relative_to ?dir (True, repo_path demo_machine) = Inr q"
    by (simp add: relative_to_def artifacts_path_def truthy_text_def demo_options_def demo_machine_def)
  obtain rec where "recover (findall FUZZ_TEST (c_log demo_campaign)) (c_files demo_campaign) = Inr rec"
    using demo_guided by (auto simp: guided_main_def bindE_Inr_iff)
  then have "\<exists>code files. run_campaign demo_machine ?st ?dir fs = (Inr code, files)" for fs
    by (simp add: run_campaign_def Let_def demo_machine_def split: prod.split)
  then show ?thesis
    using d rel by (auto simp: fuzz_main_def Let_def demo_options_def)
qed

section \<open>Properties\<close>

text \<open>
  C40: The files tell what the program decided. When a campaign runs to an exit code, it is the code of
  the wrapper's decision on what the build left; the verdict file states it, with the summary;
  provenance and report are there; and \<open>recovered.json\<close> lists every recovered input, after replays
  with the target each reproduced input was replayed as and whether there was one. The command in
  the summary of a finding names an input and a target whose replay exited with zero.
\<close>

theorem verdict_recorded:
  assumes "fuzz_main m opts = (Inr code, files)" and "0 \<le> o_seed opts" and "o_seed opts \<le> 0xFFFFFFFF" and "0 < o_cycles opts"
  shows "\<exists>st dir c rec good summary. st = settings_of opts \<and> dir = artifacts_path m st (o_artifacts opts)
    \<and> c = build m (build_command st dir) (s_timeout st)
    \<and> recover (findall FUZZ_TEST (c_log c)) (c_files c) = Inr rec
    \<and> guided_main (replayer_of m st dir) (plain_options opts) c = Inr (code, good)
    \<and> map_of files ''verdict.txt'' = Some (verdict_text code summary)
    \<and> map_of files ''report.txt'' = Some (report_text (c_log c))
    \<and> map_of files ''provenance.json'' \<noteq> None
    \<and> (map_of files ''recovered.json'' = Some (json_file (recovered_doc rec (s_expected st))) \<and> good = []
       \<or> (\<exists>replayed_as wanted. map_of files ''recovered.json'' = Some (json_file (replayed_doc rec replayed_as wanted (good \<noteq> [])))
            \<and> (\<forall>(e, t) \<in> set good. replayed_as e = Some t)))
    \<and> (code = EXIT_FOUND_FAILURE \<longrightarrow> (\<exists>wanted e t. hd good = (e, t) \<and> summary = found_summary dir wanted good
         \<and> launch m (replay_command st dir (m_file e @ ''.mapped'') t wanted) = 0))"
proof -
  let ?st = "settings_of opts"
  let ?dir = "artifacts_path m ?st (o_artifacts opts)"
  let ?c = "build m (build_command ?st ?dir) (s_timeout ?st)"
  obtain d where run: "run_campaign m ?st ?dir [(''provenance.json'', json_file d)] = (Inr code, files)"
    using fuzz_main_campaign [OF assms] by blast
  obtain rec summary again good where rec: "recover (findall FUZZ_TEST (c_log ?c)) (c_files ?c) = Inr rec"
    and con: "conclude m ?st ?dir ?c rec = (code, summary, again, good)"
    and files: "\<forall>k. map_of files k = (if k = ''verdict.txt'' then Some (verdict_text code summary)
         else if k = ''recovered.json'' then Some (json_file (case again of None \<Rightarrow> recovered_doc rec (s_expected ?st) | Some d \<Rightarrow> d))
         else if k = ''report.txt'' then Some (report_text (c_log ?c)) else map_of [(''provenance.json'', json_file d)] k)"
    using run_campaign_Inr [OF run] unfolding Let_def by (elim exE conjE) (rule that)
  have v: "guided_main (replayer_of m ?st ?dir) (plain_options opts) ?c = Inr (code, good)"
    using assms(2-4) conclude_verdict [OF con] by (simp add: guided_main_def rec)
  have looked: "map_of files ''verdict.txt'' = Some (verdict_text code summary)"
    "map_of files ''report.txt'' = Some (report_text (c_log ?c))" "map_of files ''provenance.json'' \<noteq> None"
    "map_of files ''recovered.json'' = Some (json_file (case again of None \<Rightarrow> recovered_doc rec (s_expected ?st) | Some a \<Rightarrow> a))"
    unfolding files [rule_format] by simp_all
  have "map_of files ''recovered.json'' = Some (json_file (recovered_doc rec (s_expected ?st))) \<and> good = []
     \<or> (\<exists>replayed_as wanted. map_of files ''recovered.json'' = Some (json_file (replayed_doc rec replayed_as wanted (good \<noteq> [])))
          \<and> (\<forall>(e, t) \<in> set good. replayed_as e = Some t))"
  proof (cases again)
    case None
    then show ?thesis
      using conclude_again [OF con] looked(4) by simp
  next
    case (Some a)
    then show ?thesis
      using conclude_again [OF con] looked(4) unfolding Some option.case by blast
  qed
  moreover have "code = EXIT_FOUND_FAILURE \<longrightarrow> (\<exists>wanted e t. hd good = (e, t) \<and> summary = found_summary ?dir wanted good
      \<and> launch m (replay_command ?st ?dir (m_file e @ ''.mapped'') t wanted) = 0)"
    using conclude_summary con by blast
  ultimately show ?thesis
    by (intro exI [of _ ?st] exI [of _ ?dir] exI [of _ ?c] exI [of _ rec] exI [of _ good] exI [of _ summary] conjI refl rec v looked(1-3))
qed

theorem verdict_recorded_witness:
  "\<exists>files summary. fuzz_main demo_machine demo_options = (Inr EXIT_FOUND_FAILURE, files)
    \<and> map_of files ''verdict.txt'' = Some (''exit=7'' @ [CHR 10] @ summary @ [CHR 10])"
proof -
  obtain code files where r: "fuzz_main demo_machine demo_options = (Inr code, files)"
    using demo_fuzz_main by blast
  have seed: "0 \<le> o_seed demo_options" "o_seed demo_options \<le> 0xFFFFFFFF" "0 < o_cycles demo_options"
    by (simp_all add: demo_options_def)
  obtain st dir c rec good summary where c: "c = build demo_machine (build_command st dir) (s_timeout st)"
    and g: "guided_main (replayer_of demo_machine st dir) (plain_options demo_options) c = Inr (code, good)"
    and v: "map_of files ''verdict.txt'' = Some (verdict_text code summary)"
    using verdict_recorded [OF r seed] by (elim exE conjE) (rule that)
  have "c = demo_campaign"
    by (simp add: c demo_machine_def)
  moreover have "replayer_of demo_machine st dir = (\<lambda>_ _ _. 0)"
    by (simp add: replayer_of_def demo_machine_def fun_eq_iff)
  moreover have "plain_options demo_options = \<lparr>o_cycles = 20000, o_seed = 1, o_self_test = False, o_replay_target = Some ''codec''\<rparr>"
    by (simp add: demo_options_def options.truncate_def)
  ultimately have "code = EXIT_FOUND_FAILURE"
    using demo_guided g by auto
  then show ?thesis
    using r v by (auto simp: verdict_text_def EXIT_FOUND_FAILURE_def dec_def dec_nat.simps hex_digit_def)
qed

text \<open>
  An artifact directory outside the repository, or given by a relative path, ends the program with
  a \<open>ValueError\<close> after the provenance is written; no campaign is run.
\<close>

theorem artifacts_elsewhere:
  assumes "0 \<le> o_seed opts" and "o_seed opts \<le> 0xFFFFFFFF" and "0 < o_cycles opts"
    and "o_artifacts opts = Some (c # s)" and "c \<noteq> CHR ''/'' \<or> take (length (repo_path m)) (path_parts (c # s)) \<noteq> repo_path m"
    and "provenance m (settings_of opts) (pure_path (c # s)) = Inr d"
  shows "fuzz_main (m\<lparr>build := b, launch := l\<rparr>) opts = (Inl (ValueError ''not in the subpath''), [(''provenance.json'', json_file d)])"
proof -
  let ?m = "m\<lparr>build := b, launch := l\<rparr>"
  have "provenance ?m st dir = provenance m st dir" for st dir
    by (simp add: provenance_def zig_version_def git_state_def git_def)
  moreover have "artifacts_path ?m (settings_of opts) (o_artifacts opts) = pure_path (c # s)"
    by (simp add: artifacts_path_def assms(4) truthy_text_def)
  moreover have "relative_to (pure_path (c # s)) (True, repo_path m) = Inl (ValueError ''not in the subpath'')"
    using assms(5) by (auto simp: relative_to_def pure_path_def)
  ultimately show ?thesis
    using assms(1-3,6) by (simp add: fuzz_main_def Let_def)
qed

theorem artifacts_elsewhere_witness:
  "fst (fuzz_main demo_machine (demo_options\<lparr>o_artifacts := Some ''out''\<rparr>)) = Inl (ValueError ''not in the subpath'')"
proof -
  let ?opts = "demo_options\<lparr>o_artifacts := Some ''out''\<rparr>"
  obtain d where d: "provenance demo_machine (settings_of ?opts) (pure_path ''out'') = Inr d"
    using demo_provenance by blast
  have "fuzz_main (demo_machine\<lparr>build := build demo_machine, launch := launch demo_machine\<rparr>) ?opts
      = (Inl (ValueError ''not in the subpath''), [(''provenance.json'', json_file d)])"
    by (rule artifacts_elsewhere [OF _ _ _ _ _ d]) (simp_all add: demo_options_def)
  then show ?thesis by simp
qed

end
