(* ===== verification/Check_Api.thy ===== *)
theory Check_Api
  imports Py_Regex
begin

text \<open>
  The gate on the public interface of \<open>tools/check-api.py\<close>: the compiler's report of the interface is
  compared with a committed snapshot after the numbers of anonymous types are masked. The program
  that prints the report and the text of a difference (\<open>difflib\<close>) are parameters; the directory of
  the snapshot can be made. The lemmas show that the masking forgets these numbers and nothing
  else, and that a check accepts exactly the reports that differ from the one recorded in them.
\<close>

section \<open>The report\<close>

text \<open>\<open>result.stdout + result.stderr\<close>\<close>

definition output_text :: "completed \<Rightarrow> string" where
  "output_text p = newlines (stdout_text p) @ newlines (stderr_text p)"

section \<open>Masking\<close>

definition is_digit :: "char \<Rightarrow> bool" where
  "is_digit c = (digit_value c \<noteq> None)"

definition anon_kinds :: "string list" where
  "anon_kinds = [''struct'', ''enum'', ''union'']"

text \<open>\<open>__(struct|enum|union)_\d+\<close>\<close>

definition anon_pattern :: regex where
  "anon_pattern = seqs [lit ''__'', Group (Alt (lit ''struct'') (Alt (lit ''enum'') (lit ''union''))), lit ''_'',
     plus (Cls is_digit)]"

text \<open>The replacement \<open>__\1_ANON\<close>.\<close>

definition masked :: "string \<Rightarrow> string" where
  "masked s = sub (\<lambda>u g. ''__'' @ hd g @ ''_ANON'') anon_pattern s"

section \<open>The program\<close>

record api_outcome =
  api_printed :: "string list"
  api_snapshot :: "string option"
  api_end :: "unit result"

text \<open>
  The snapshot is the text of the file, or \<open>None\<close> when there is none. \<open>diff\<close> is the unified
  difference of the expected and the actual text.
\<close>

definition check_api :: "(string \<Rightarrow> string \<Rightarrow> string) \<Rightarrow> bool \<Rightarrow> completed result \<Rightarrow> string option \<Rightarrow> api_outcome" where
  "check_api diff update run snapshot = (case run of
       Inl e \<Rightarrow> \<lparr>api_printed = [], api_snapshot = snapshot, api_end = Inl e\<rparr>
     | Inr p \<Rightarrow>
         if exit_code p \<noteq> 0 then \<lparr>api_printed = [], api_snapshot = snapshot, api_end = Inl (CalledProcessError ''api'')\<rparr>
         else let actual = masked (output_text p) in
         if update then \<lparr>api_printed = [], api_snapshot = Some actual, api_end = Inr ()\<rparr>
         else (case snapshot of
             None \<Rightarrow> \<lparr>api_printed = [], api_snapshot = snapshot, api_end = Inl (OSError ''no such file or directory'')\<rparr>
           | Some raw \<Rightarrow> let expected = newlines raw in
               if actual \<noteq> expected
               then \<lparr>api_printed = [diff expected actual], api_snapshot = snapshot, api_end = Inl (SystemExit ''1'')\<rparr>
               else \<lparr>api_printed = [''[check-api] Experimental public interface matches snapshot''],
                     api_snapshot = snapshot, api_end = Inr ()\<rparr>))"

section \<open>Greedy matching\<close>

lemma match_lit: "match_all (lit w) prev s = (if take (length w) s = w then [(w, [], drop (length w) s)] else [])"
proof (induction w arbitrary: prev s)
  case (Cons c w)
  then show ?case by (cases s) auto
qed simp

lemma match_Star_Cls: "\<exists>xs. match_all (Star (Cls P)) prev s = (takeWhile P s, [], dropWhile P s) # xs"
proof (induction s arbitrary: prev)
  case Nil
  show ?case by (subst match_all.simps(6)) simp
next
  case (Cons c s)
  obtain xs where "match_all (Star (Cls P)) (prev_after prev [c]) s = (takeWhile P s, [], dropWhile P s) # xs"
    using Cons by blast
  then show ?case
    by (subst match_all.simps(6)) simp
qed

lemma match_plus_Cls:
  "if s \<noteq> [] \<and> P (hd s) then \<exists>xs. match_all (plus (Cls P)) prev s = (takeWhile P s, [], dropWhile P s) # xs
   else match_all (plus (Cls P)) prev s = []"
proof (cases s)
  case (Cons c t)
  obtain xs where "match_all (Star (Cls P)) (prev_after prev [c]) t = (takeWhile P t, [], dropWhile P t) # xs"
    using match_Star_Cls by blast
  then show ?thesis
    by (simp add: plus_def Cons)
qed (simp add: plus_def)

section \<open>What masking does\<close>

definition anon_id :: "string \<Rightarrow> string \<Rightarrow> string" where
  "anon_id k d = ''__'' @ k @ ''_'' @ d"

definition number :: "string \<Rightarrow> bool" where
  "number d \<longleftrightarrow> d \<noteq> [] \<and> (\<forall>c \<in> set d. is_digit c)"

definition no_digit :: "string \<Rightarrow> bool" where
  "no_digit s \<longleftrightarrow> s = [] \<or> \<not> is_digit (hd s)"

lemma no_digit_simps [simp]: "no_digit []" "no_digit (c # s) \<longleftrightarrow> \<not> is_digit c"
  by (simp_all add: no_digit_def)

definition anon_at :: "string \<Rightarrow> bool" where
  "anon_at s \<longleftrightarrow> (\<exists>k d t. s = anon_id k d @ t \<and> k \<in> set anon_kinds \<and> number d \<and> no_digit t)"

lemma anon_atI:
  assumes "s = anon_id k d @ t" and "k \<in> set anon_kinds" and "number d"
  shows "anon_at s"
proof -
  have "s = anon_id k (d @ takeWhile is_digit t) @ dropWhile is_digit t"
    by (simp add: assms(1) anon_id_def)
  moreover have "number (d @ takeWhile is_digit t)"
    using assms(3) by (auto simp: number_def dest: set_takeWhileD)
  moreover have "no_digit (dropWhile is_digit t)"
    by (induction t) simp_all
  ultimately show ?thesis
    using assms(2) unfolding anon_at_def by blast
qed

lemma takeWhile_number:
  assumes "number d" and "no_digit t"
  shows "takeWhile is_digit (d @ t) = d" "dropWhile is_digit (d @ t) = t" "d @ t \<noteq> []" "is_digit (hd (d @ t))"
  using assms by (cases t; cases d; simp add: number_def takeWhile_append dropWhile_append)+

lemma match_anon:
  assumes "k \<in> set anon_kinds" and "number d" and "no_digit t"
  shows "\<exists>xs. match_all anon_pattern prev (anon_id k d @ t) = (anon_id k d, [k], t) # xs"
proof -
  have "\<exists>xs. match_all (plus (Cls is_digit)) (Some (CHR ''_'')) (d @ t) = (d, [], t) # xs"
    using match_plus_Cls [of "d @ t" is_digit "Some (CHR ''_'')"] takeWhile_number [OF assms(2,3)] by simp
  then obtain xs where "match_all (plus (Cls is_digit)) (Some (CHR ''_'')) (d @ t) = (d, [], t) # xs" by blast
  then show ?thesis
    using assms(1) by (auto simp: anon_kinds_def anon_pattern_def anon_id_def match_lit prev_after_def simp del: lit.simps)
qed

lemma match_anon_None:
  assumes "\<not> anon_at s"
  shows "match_all anon_pattern prev s = []"
proof (rule ccontr)
  assume "match_all anon_pattern prev s \<noteq> []"
  then obtain u g t where "(u, g, t) \<in> set (match_all anon_pattern prev s)"
    by (metis hd_in_set prod_cases3)
  then have s: "s = u @ t" and r: "reads anon_pattern prev u g"
    using match_all_sound by blast+
  have "\<exists>k \<in> set anon_kinds. \<exists>d. u = anon_id k d \<and> number d"
    using r unfolding anon_pattern_def seqs.simps anon_id_def number_def anon_kinds_def
    by (auto simp: reads_seq simp del: lit.simps)
  then show False
    using assms s anon_atI by blast
qed

definition mask_from :: "char option \<Rightarrow> string \<Rightarrow> string" where
  "mask_from = sub_from (\<lambda>u g. ''__'' @ hd g @ ''_ANON'') anon_pattern"

lemma mask_Nil [simp]: "mask_from prev [] = []"
  by (simp add: mask_from_def)

lemma mask_anon:
  assumes "k \<in> set anon_kinds" and "number d" and "no_digit t"
  shows "\<exists>prev'. mask_from prev (anon_id k d @ t) = ''__'' @ k @ ''_ANON'' @ mask_from prev' t"
proof -
  obtain xs where "match_all anon_pattern prev (anon_id k d @ t) = (anon_id k d, [k], t) # xs"
    using match_anon [OF assms] by blast
  from sub_match [OF this] show ?thesis
    by (auto simp: mask_from_def anon_id_def)
qed

lemma mask_char: "\<not> anon_at (c # s) \<Longrightarrow> mask_from prev (c # s) = c # mask_from (Some c) s"
  unfolding mask_from_def by (rule sub_skip) (simp add: match_anon_None)

lemma mask_prev: "mask_from prev s = mask_from None s"
proof (induction "length s" arbitrary: prev s rule: less_induct)
  case less
  show ?case
  proof (cases "anon_at s")
    case True
    then obtain k d t where s: "s = anon_id k d @ t" "k \<in> set anon_kinds" "number d" "no_digit t"
      unfolding anon_at_def by blast
    have "length t < length s" by (simp add: s(1) anon_id_def)
    then show ?thesis
      using mask_anon [OF s(2-4), of prev] mask_anon [OF s(2-4), of None] less [of t] unfolding s(1) by metis
  next
    case False
    show ?thesis
    proof (cases s)
      case (Cons c s')
      then show ?thesis
        using mask_char [of c s'] False by simp
    qed simp
  qed
qed

lemma masked_Nil [simp]: "masked [] = []"
  by (simp add: masked_def sub_def)

lemma masked_mask: "masked s = mask_from prev s"
  unfolding mask_prev [of prev s] by (simp add: masked_def sub_def mask_from_def)

lemma masked_anon:
  assumes "k \<in> set anon_kinds" and "number d" and "no_digit t"
  shows "masked (anon_id k d @ t) = ''__'' @ k @ ''_ANON'' @ masked t"
  using mask_anon [OF assms, of None] masked_mask by metis

lemma masked_char: "\<not> anon_at (c # s) \<Longrightarrow> masked (c # s) = c # masked s"
  using mask_char masked_mask by metis

text \<open>Reports that differ in the numbers of anonymous types only.\<close>

inductive same_api :: "string \<Rightarrow> string \<Rightarrow> bool" where
  same_Nil: "same_api [] []"
| same_char: "same_api s t \<Longrightarrow> same_api (c # s) (c # t)"
| same_anon: "k \<in> set anon_kinds \<Longrightarrow> number d \<Longrightarrow> number e \<Longrightarrow> no_digit s \<Longrightarrow> no_digit t \<Longrightarrow> same_api s t
    \<Longrightarrow> same_api (anon_id k d @ s) (anon_id k e @ t)"

lemma same_api_sym: "same_api s t \<Longrightarrow> same_api t s"
  by (induction rule: same_api.induct) (auto intro: same_api.intros)

lemma same_api_refl: "same_api s s"
  by (induction s) (auto intro: same_api.intros)

text \<open>A piece inside of which no identifier of an anonymous type can begin.\<close>

fun plain :: "string \<Rightarrow> string \<Rightarrow> bool" where
  "plain [] s = True"
| "plain (c # w) s = (\<not> (c = CHR ''_'' \<and> w @ s \<noteq> [] \<and> hd (w @ s) = CHR ''_'') \<and> plain w s)"

lemma plain_number: "\<forall>c \<in> set d. is_digit c \<Longrightarrow> plain d s"
  by (induction d) (auto simp: is_digit_def digit_value_def)

lemma plain_anon: "k \<in> set anon_kinds \<Longrightarrow> number d \<Longrightarrow> plain (''_'' @ k @ ''_'' @ d) s"
  by (cases d) (auto simp: anon_kinds_def number_def plain_number is_digit_def digit_value_def)

lemma plain_mark: "k \<in> set anon_kinds \<Longrightarrow> plain (''_'' @ k @ ''_ANON'') s"
  by (auto simp: anon_kinds_def)

lemma anon_id_Cons: "anon_id k d @ t = CHR ''_'' # ''_'' @ k @ ''_'' @ d @ t"
  by (simp add: anon_id_def)

text \<open>Such a piece is the same on both sides, and comes out of the mask as it went in.\<close>

lemma same_api_plain: "same_api (w @ s) t \<Longrightarrow> plain w s \<Longrightarrow> \<exists>t'. t = w @ t' \<and> same_api s t'"
proof (induction w arbitrary: t)
  case (Cons c w)
  from Cons.prems(1) show ?case
  proof (cases rule: same_api.cases)
    case (same_char a b c')
    then show ?thesis
      using Cons.IH [of b] Cons.prems(2) by auto
  next
    case (same_anon k d e a b)
    then show ?thesis
      using Cons.prems(2) by (simp add: anon_id_Cons)
  qed simp
qed simp

lemma masked_hd: "anon_at s \<Longrightarrow> \<exists>z. masked s = CHR ''_'' # CHR ''_'' # z"
  unfolding anon_at_def using masked_anon by fastforce

lemma masked_plain: "masked t = w @ z \<Longrightarrow> plain w z \<Longrightarrow> \<exists>t'. t = w @ t' \<and> masked t' = z"
proof (induction w arbitrary: t)
  case (Cons c w)
  show ?case
  proof (cases "anon_at t")
    case True
    then show ?thesis
      using masked_hd [OF True] Cons.prems by (cases w) auto
  next
    case False
    then obtain c' t1 where t: "t = c' # t1"
      using Cons.prems(1) by (cases t) auto
    then show ?thesis
      using Cons.prems Cons.IH [of t1] masked_char False by auto
  qed
qed simp

section \<open>Masking forgets the numbers and nothing else\<close>

lemma same_api_anon_at:
  assumes "same_api s t" and "s = anon_id k d @ s'" and "k \<in> set anon_kinds" and "number d" and "no_digit s'"
  shows "\<exists>e t'. t = anon_id k e @ t' \<and> number e \<and> no_digit t' \<and> same_api s' t'"
  using assms(1)
proof (cases rule: same_api.cases)
  case (same_char a b c)
  have a: "a = (''_'' @ k @ ''_'' @ d) @ s'" and c: "c = CHR ''_''"
    using same_char(1) assms(2) by (auto simp: anon_id_Cons)
  from same_api_plain [OF same_char(3) [unfolded a]] obtain t' where t': "b = (''_'' @ k @ ''_'' @ d) @ t'" "same_api s' t'"
    using plain_anon [OF assms(3,4)] by blast
  have "no_digit t'"
    using t'(2) assms(5) by (cases rule: same_api.cases) (simp_all add: anon_id_Cons)
  then show ?thesis
    using t' same_char(2) c assms(4) by (auto simp: anon_id_def)
next
  case (same_anon k' d' e a b)
  have "k' = k"
    using same_anon(1,3) assms(2,3) by (auto simp: anon_kinds_def anon_id_def)
  then have "d' @ a = d @ s'"
    using same_anon(1) assms(2) by (simp add: anon_id_def)
  then have "d' = d" "a = s'"
    using takeWhile_number same_anon(4,6) assms(4,5) by metis+
  then show ?thesis
    using same_anon \<open>k' = k\<close> by blast
qed (use assms(2) in \<open>simp add: anon_id_def\<close>)

lemma same_api_masked: "same_api s t \<Longrightarrow> masked s = masked t"
proof (induction "length s" arbitrary: s t rule: less_induct)
  case less
  show ?case
  proof (cases "anon_at s")
    case True
    then obtain k d s' where s: "s = anon_id k d @ s'" "k \<in> set anon_kinds" "number d" "no_digit s'"
      unfolding anon_at_def by blast
    obtain e t' where t: "t = anon_id k e @ t'" "number e" "no_digit t'" "same_api s' t'"
      using same_api_anon_at [OF less.prems s] by blast
    have "masked s' = masked t'"
      by (rule less.hyps [OF _ t(4)]) (simp add: s(1) anon_id_def)
    then show ?thesis
      using s t masked_anon by simp
  next
    case False
    have t: "\<not> anon_at t"
      using same_api_anon_at [OF same_api_sym [OF less.prems]] False unfolding anon_at_def by metis
    from less.prems show ?thesis
    proof (cases rule: same_api.cases)
      case (same_char a b c)
      then show ?thesis
        using less.hyps [of a b] False t masked_char by simp
    next
      case (same_anon k d e a b)
      then show ?thesis using False unfolding anon_at_def by blast
    qed simp
  qed
qed

text \<open>The other direction, for reports that do not spell a masked name themselves.\<close>

definition no_mask :: "string \<Rightarrow> bool" where
  "no_mask s \<longleftrightarrow> (\<forall>a b. s \<noteq> a @ ''_ANON'' @ b)"

lemma no_mask_drop: "no_mask (a @ s) \<Longrightarrow> no_mask s"
  unfolding no_mask_def by (metis append.assoc)

lemma masked_marked:
  assumes "masked (c # t) = ''__'' @ k @ ''_ANON'' @ z" and "k \<in> set anon_kinds" and "\<not> anon_at (c # t)"
  shows "\<not> no_mask (c # t)"
proof -
  have "masked t = (''_'' @ k @ ''_ANON'') @ z"
    using assms(1) masked_char [OF assms(3)] by simp
  then obtain t' where "t = (''_'' @ k @ ''_ANON'') @ t'"
    using masked_plain plain_mark [OF assms(2)] by blast
  then have "c # t = (c # ''_'' @ k) @ ''_ANON'' @ t'" by simp
  then show ?thesis
    unfolding no_mask_def by blast
qed

lemma kinds_prefix: "k \<in> set anon_kinds \<Longrightarrow> k' \<in> set anon_kinds \<Longrightarrow> k @ ''_ANON'' @ y = k' @ ''_ANON'' @ z \<Longrightarrow> k = k' \<and> y = z"
  by (auto simp: anon_kinds_def)

lemma masked_same_api: "masked s = masked t \<Longrightarrow> no_mask s \<Longrightarrow> no_mask t \<Longrightarrow> same_api s t"
proof (induction "length s" arbitrary: s t rule: less_induct)
  case less
  have nil: "masked u = [] \<Longrightarrow> u = []" for u
    using masked_hd [of u] masked_char by (cases "anon_at u"; cases u) auto
  show ?case
  proof (cases "anon_at s")
    case True
    then obtain k d s' where s: "s = anon_id k d @ s'" "k \<in> set anon_kinds" "number d" "no_digit s'"
      unfolding anon_at_def by blast
    have ms: "masked s = ''__'' @ k @ ''_ANON'' @ masked s'"
      using masked_anon [OF s(2-4)] s(1) by simp
    have "anon_at t"
      using masked_marked [OF _ s(2)] less.prems ms by (cases t) (force, metis)
    then obtain k' e t' where t: "t = anon_id k' e @ t'" "k' \<in> set anon_kinds" "number e" "no_digit t'"
      unfolding anon_at_def by blast
    have "k = k' \<and> masked s' = masked t'"
      using ms masked_anon [OF t(2-4)] less.prems(1) t(1) by (intro kinds_prefix [OF s(2) t(2)]) simp
    moreover have "same_api s' t'" if "masked s' = masked t'"
      using less.hyps [OF _ that] less.prems(2,3) no_mask_drop s(1) t(1) by (simp add: anon_id_def) (metis append.assoc append_Cons)
    ultimately show ?thesis
      using s t same_anon by blast
  next
    case False
    show ?thesis
    proof (cases t)
      case Nil
      then show ?thesis
        using less.prems(1) nil [of s] by (simp add: same_Nil)
    next
      case (Cons c t1)
      have "s \<noteq> []"
        using less.prems(1) nil [of t] Cons by auto
      then obtain c' s1 where s: "s = c' # s1" by (cases s) auto
      have "\<not> anon_at t"
      proof
        assume "anon_at t"
        then obtain k e t' where t: "t = anon_id k e @ t'" "k \<in> set anon_kinds" "number e" "no_digit t'"
          unfolding anon_at_def by blast
        have "masked (c' # s1) = ''__'' @ k @ ''_ANON'' @ masked t'"
          using masked_anon [OF t(2-4)] less.prems(1) s t(1) by simp
        then show False
          using masked_marked [OF _ t(2)] False less.prems(2) s by blast
      qed
      then have "c' = c" "masked s1 = masked t1"
        using less.prems(1) False s Cons masked_char by simp_all
      moreover have "no_mask s1" "no_mask t1"
        using no_mask_drop [of "[c']" s1] no_mask_drop [of "[c]" t1] less.prems(2,3) s Cons by simp_all
      ultimately show ?thesis
        using less.hyps [of s1 t1] s Cons by (simp add: same_char)
    qed
  qed
qed

section \<open>Snapshots\<close>

lemma masked_clean: "CHR 13 \<notin> set s \<Longrightarrow> CHR 13 \<notin> set (masked s)"
proof (induction "length s" arbitrary: s rule: less_induct)
  case less
  show ?case
  proof (cases "anon_at s")
    case True
    then obtain k d t where s: "s = anon_id k d @ t" "k \<in> set anon_kinds" "number d" "no_digit t"
      unfolding anon_at_def by blast
    have "CHR 13 \<notin> set (masked t)"
      using less.prems by (intro less.hyps) (simp_all add: s(1) anon_id_def)
    then show ?thesis
      using s(2) unfolding s(1) masked_anon [OF s(2-4)] by (auto simp: anon_kinds_def)
  next
    case False
    then show ?thesis
      using less masked_char by (cases s) auto
  qed
qed

lemma output_clean: "CHR 13 \<notin> set (output_text p)"
  by (simp add: output_text_def newlines_clean)

lemma check_recorded:
  assumes "exit_code p = 0" and "exit_code q = 0"
  shows "api_end (check_api diff False (Inr q) (api_snapshot (check_api diff True (Inr p) snapshot)))
    = (if masked (output_text q) = masked (output_text p) then Inr () else Inl (SystemExit ''1''))"
  using assms newlines_id [OF masked_clean [OF output_clean [of p]]]
  by (simp add: check_api_def Let_def)

section \<open>Property\<close>


definition demo_process :: "string \<Rightarrow> completed" where
  "demo_process d = \<lparr>stdout_text = [], stderr_text = ''fn f(x: __struct_'' @ d @ '')'', exit_code = 0\<rparr>"


end
