(* ===== verification/Check_Rejections.thy ===== *)
theory Check_Rejections
  imports Check_Api Tool_Files
begin

text \<open>
  The compile rejections of \<open>tools/check-rejections.py\<close>: every deliberately invalid consumer must
  fail to compile with the intended diagnostic. The compiler is a parameter, as is the temporary
  directory. The lemmas show when the check passes and what it reports first when it does not.
\<close>

section \<open>Text\<close>

text \<open>\<open>str.lower()\<close> for characters below 256.\<close>

definition lower_char :: "char \<Rightarrow> char" where
  "lower_char c = (let n = of_char c :: nat in
     if 65 \<le> n \<and> n \<le> 90 \<or> 192 \<le> n \<and> n \<le> 222 \<and> n \<noteq> 215 then char_of (n + 32) else c)"

definition lower :: "string \<Rightarrow> string" where
  "lower s = map lower_char s"

section \<open>Cases\<close>

definition reject_cases :: "(string, string) dict" where
  "reject_cases = [(''float'', ''unsupported''), (''pointer'', ''unsupported''),
     (''duplicate_table'', ''schema table IDs must be unique''),
     (''oversize_key'', ''table keys must encode in at most 1024 bytes'')]"

text \<open>\<open>str\<close> of an absolute path.\<close>

definition path_text :: "path \<Rightarrow> string" where
  "path_text p = ''/'' @ posix p"

definition compile_args :: "path \<Rightarrow> string \<Rightarrow> string \<Rightarrow> string list" where
  "compile_args root tmp name =
     [''zig'', ''build-obj'', ''--dep'', ''bucketlist'',
      ''-Mroot='' @ path_text (root @ [''tests'', ''rejections'', name @ ''.zig'']),
      ''-Mbucketlist='' @ path_text (root @ [''src'', ''lib.zig'']),
      ''--cache-dir'', tmp, ''-fno-emit-bin'']"

definition rejected :: "completed \<Rightarrow> string \<Rightarrow> bool" where
  "rejected p message \<longleftrightarrow> exit_code p \<noteq> 0 \<and> occurs (lower message) (lower (newlines (stderr_text p)))"

text \<open>The \<open>repr\<close> of a message without quotes or escapes.\<close>

definition expectation :: "string \<Rightarrow> string \<Rightarrow> string" where
  "expectation name message = name @ '': expected compile rejection containing '' @ [CHR 39] @ message @ [CHR 39]"

text \<open>The lines printed, and how the program ends.\<close>

fun reject_loop :: "(string list \<Rightarrow> completed result) \<Rightarrow> path \<Rightarrow> string \<Rightarrow> (string, string) dict \<Rightarrow> string list \<times> unit result" where
  "reject_loop run root tmp [] = ([], Inr ())"
| "reject_loop run root tmp ((name, message) # cases) = (case run (compile_args root tmp name) of
       Inl e \<Rightarrow> ([], Inl e)
     | Inr p \<Rightarrow>
         if \<not> rejected p message then ([newlines (stderr_text p)], Inl (SystemExit (expectation name message)))
         else reject_loop run root tmp cases)"

definition check_rejections :: "(string list \<Rightarrow> completed result) \<Rightarrow> path \<Rightarrow> string \<Rightarrow> string list \<times> unit result" where
  "check_rejections run root tmp = (case reject_loop run root tmp reject_cases of
       (out, Inl e) \<Rightarrow> (out, Inl e)
     | (out, Inr u) \<Rightarrow>
         (out @ [''[schema-rejections] '' @ dec (int (length reject_cases)) @ '' malformed consumers rejected''], Inr u))"

section \<open>When the check passes\<close>

definition rejects :: "(string list \<Rightarrow> completed result) \<Rightarrow> path \<Rightarrow> string \<Rightarrow> string \<times> string \<Rightarrow> bool" where
  "rejects run root tmp x \<longleftrightarrow> (\<exists>p. run (compile_args root tmp (fst x)) = Inr p \<and> rejected p (snd x))"

lemma reject_loop_Inr: "snd (reject_loop run root tmp cases) = Inr u \<longleftrightarrow> (\<forall>x \<in> set cases. rejects run root tmp x)"
  by (induction run root tmp cases rule: reject_loop.induct) (auto simp: rejects_def split: sum.splits)

lemma reject_loop_out: "snd (reject_loop run root tmp cases) = Inr u \<Longrightarrow> fst (reject_loop run root tmp cases) = []"
  by (induction run root tmp cases rule: reject_loop.induct) (auto split: sum.splits if_splits)

lemma reject_loop_first:
  "\<forall>x \<in> set passed. rejects run root tmp x \<Longrightarrow> reject_loop run root tmp (passed @ rest) = reject_loop run root tmp rest"
  by (induction passed) (auto simp: rejects_def)

section \<open>Property\<close>

text \<open>
  The rejection check succeeds exactly when each of the four invalid consumers was compiled from
  its own file and failed with its intended diagnostic, letter case apart. Otherwise, at the first
  consumer that compiled or failed for another reason, it prints the compiler's messages and names
  the consumer and the diagnostic it wanted.
\<close>

theorem rejections_exact:
  shows "(snd (check_rejections run root tmp) = Inr () \<longleftrightarrow>
      (\<forall>(name, message) \<in> set reject_cases. \<exists>p. run (compile_args root tmp name) = Inr p
         \<and> exit_code p \<noteq> 0 \<and> (\<exists>a b. lower (newlines (stderr_text p)) = a @ lower message @ b)))
    \<and> (\<forall>passed name message rest p. reject_cases = passed @ (name, message) # rest
         \<and> (\<forall>x \<in> set passed. rejects run root tmp x) \<and> run (compile_args root tmp name) = Inr p \<and> \<not> rejected p message
         \<longrightarrow> check_rejections run root tmp
               = ([newlines (stderr_text p)], Inl (SystemExit (expectation name message))))"
proof (intro conjI allI impI)
  have "snd (check_rejections run root tmp) = Inr () \<longleftrightarrow> snd (reject_loop run root tmp reject_cases) = Inr ()"
    by (auto simp: check_rejections_def split: prod.split sum.split)
  then show "snd (check_rejections run root tmp) = Inr () \<longleftrightarrow>
      (\<forall>(name, message) \<in> set reject_cases. \<exists>p. run (compile_args root tmp name) = Inr p
         \<and> exit_code p \<noteq> 0 \<and> (\<exists>a b. lower (newlines (stderr_text p)) = a @ lower message @ b))"
    unfolding reject_loop_Inr rejects_def rejected_def occurs_iff by (simp add: case_prod_unfold)
next
  fix passed name message rest p
  assume a: "reject_cases = passed @ (name, message) # rest \<and> (\<forall>x \<in> set passed. rejects run root tmp x)
    \<and> run (compile_args root tmp name) = Inr p \<and> \<not> rejected p message"
  then have "reject_loop run root tmp reject_cases = reject_loop run root tmp ((name, message) # rest)"
    using reject_loop_first [of passed run root tmp] by metis
  then have "reject_loop run root tmp reject_cases = ([newlines (stderr_text p)], Inl (SystemExit (expectation name message)))"
    using a by simp
  then show "check_rejections run root tmp = ([newlines (stderr_text p)], Inl (SystemExit (expectation name message)))"
    by (simp add: check_rejections_def)
qed

definition demo_compiler :: "string list \<Rightarrow> completed result" where
  "demo_compiler args = Inr \<lparr>stdout_text = [], stderr_text = (if args ! 4 = ''-Mroot=/r/tests/rejections/float.zig''
     then ''error: Unsupported'' else []), exit_code = 1\<rparr>"

theorem rejections_exact_witness:
  "snd (check_rejections demo_compiler [''r''] ''t'') = Inl (SystemExit (expectation ''pointer'' ''unsupported''))"
proof -
  have "rejects demo_compiler [''r''] ''t'' (''float'', ''unsupported'')"
    by (simp add: rejects_def rejected_def demo_compiler_def compile_args_def path_text_def posix_def) code_simp
  moreover have "demo_compiler (compile_args [''r''] ''t'' ''pointer'') = Inr \<lparr>stdout_text = [], stderr_text = [], exit_code = 1\<rparr>"
    by (simp add: demo_compiler_def compile_args_def path_text_def posix_def)
  moreover have "\<not> rejected \<lparr>stdout_text = [], stderr_text = [], exit_code = 1\<rparr> ''unsupported''"
    by (simp add: rejected_def lower_def)
  moreover have "reject_cases = [(''float'', ''unsupported'')] @ (''pointer'', ''unsupported'') # drop 2 reject_cases"
    by (simp add: reject_cases_def)
  ultimately have "check_rejections demo_compiler [''r''] ''t''
      = ([newlines (stderr_text \<lparr>stdout_text = [], stderr_text = [], exit_code = 1\<rparr>)], Inl (SystemExit (expectation ''pointer'' ''unsupported'')))"
    by (intro rejections_exact [THEN conjunct2, rule_format, of "[(''float'', ''unsupported'')]" _ _ "drop 2 reject_cases"] conjI) auto
  then show ?thesis by simp
qed

end
