(* ===== verification/Preflight.thy ===== *)
theory Preflight
  imports Tool_World Check_Rejections
begin

text \<open>
  The package preflight of \<open>tools/package-preflight.py\<close>: the files the manifest lists are copied to
  a staging directory, packed, unpacked elsewhere, and built and run there. The repository is a
  tree as the system calls of the copy see it, with links followed; a \<open>Link\<close> is one that leads
  nowhere. The commands and the package hash of \<open>zig fetch\<close> are parameters. The lemmas show which
  files are staged, that packing and unpacking loses none, and what the commands then see.
\<close>

section \<open>The manifest's paths\<close>

definition quote :: char where
  "quote = CHR 34"

text \<open>\<open>\.paths\s*=\s*\.\{([^}]+)\}\<close> and \<open>"([^"]+)"\<close>\<close>

definition paths_pattern :: regex where
  "paths_pattern = seqs [lit ''.paths'', spaces, lit ''='', spaces, lit ''.{'', Group (plus (none_of ''}'')), lit ''}'']"

definition name_pattern :: regex where
  "name_pattern = seqs [chr quote, Group (plus (none_of [quote])), chr quote]"

text \<open>\<open>group(1)\<close> of no match is an \<open>AttributeError\<close>.\<close>

definition manifest_paths :: "string \<Rightarrow> string list result" where
  "manifest_paths manifest = (case search paths_pattern manifest of
       Some (_, _, block # _, _) \<Rightarrow> Inr (map hd (findall name_pattern block))
     | _ \<Rightarrow> Inl AttributeError)"

section \<open>Staging\<close>

text \<open>\<open>shutil.ignore_patterns\<close>: the patterns have no wildcard.\<close>

definition ignored :: "string \<Rightarrow> bool" where
  "ignored n \<longleftrightarrow> n \<in> {''.zig-cache'', ''zig-out'', ''zig-pkg'', ''__pycache__''}"

text \<open>What \<open>shutil.copytree\<close> copies; it reports failures when it is done.\<close>

fun copied :: "entry \<Rightarrow> entry result"
  and copied_entries :: "(string \<times> entry) list \<Rightarrow> (string \<times> entry) list result" where
  "copied (File d) = Inr (File d)"
| "copied (Dir es) = bindE (copied_entries es) (\<lambda>fs. Inr (Dir fs))"
| "copied Link = Inl (OSError ''shutil.Error'')"
| "copied Special = Inl (OSError ''shutil.Error'')"
| "copied_entries [] = Inr []"
| "copied_entries ((n, e) # es) =
     (if ignored n then copied_entries es
      else bindE (copied e) (\<lambda>f. bindE (copied_entries es) (\<lambda>fs. Inr ((n, f) # fs))))"

text \<open>A new entry below an existing directory.\<close>

fun put_new :: "path \<Rightarrow> entry \<Rightarrow> entry \<Rightarrow> entry result" where
  "put_new [n] x (Dir es) =
     (if map_of es n = None then Inr (Dir (es @ [(n, x)])) else Inl (OSError ''file exists''))"
| "put_new (n # m # p) x (Dir es) =
     (case map_of es n of
        None \<Rightarrow> Inl (OSError ''no such file or directory'')
      | Some e \<Rightarrow> bindE (put_new (m # p) x e) (\<lambda>e'. Inr (Dir (AList.update n e' es))))"
| "put_new [] x e = Inl (OSError ''file exists'')"
| "put_new p x _ = Inl (OSError ''not a directory'')"

text \<open>
  The body of the loop. A component \<open>..\<close> names no entry of a tree, so a path with one counts as missing. A file replaces one already staged. That a directory is in its place cannot
  be: staging makes a directory only where the repository has one.
\<close>

definition stage :: "entry \<Rightarrow> string \<Rightarrow> entry \<Rightarrow> entry result" where
  "stage root name staging =
     (let p = path_parts name in
      bindE (mkdirs (butlast p) staging) (\<lambda>staging.
      case look p root of
        Some (Dir es) \<Rightarrow> bindE (copied (Dir es)) (\<lambda>x. put_new p x staging)
      | Some (File d) \<Rightarrow> put_file p d staging
      | _ \<Rightarrow> Inl (OSError ''no such file or directory'')))"

fun stage_all :: "entry \<Rightarrow> string list \<Rightarrow> entry \<Rightarrow> entry result" where
  "stage_all root [] staging = Inr staging"
| "stage_all root (name # names) staging = bindE (stage root name staging) (stage_all root names)"

section \<open>The archive\<close>

text \<open>
  \<open>tar.add\<close> of every entry in order of name, each directory before what is in it; the names are
  single directory entries, which the filter \<open>data\<close> lets through. Unpacking makes the directories
  a file needs.
\<close>

definition packed :: "entry \<Rightarrow> (path \<times> entry) list" where
  "packed staging = sort_key fst (walk [] staging)"

definition unpack_member :: "path \<times> entry \<Rightarrow> entry \<Rightarrow> entry result" where
  "unpack_member m t = (case m of
       (p, File d) \<Rightarrow> bindE (mkdirs (butlast p) t) (put_file p d)
     | (p, Dir es) \<Rightarrow> mkdirs p t
     | _ \<Rightarrow> Inl (TarError ''special file''))"

fun unpack :: "(path \<times> entry) list \<Rightarrow> entry \<Rightarrow> entry result" where
  "unpack [] t = Inr t"
| "unpack (m # ms) t = bindE (unpack_member m t) (unpack ms)"

section \<open>The commands\<close>

definition build_commands :: "path \<Rightarrow> string list list" where
  "build_commands scratch =
     [[''zig'', ''build'', ''test'', ''-Doptimize=ReleaseSafe'', ''--summary'', ''all''],
      [''zig'', ''build'', ''run'', ''--build-file'', ''examples/directory/build.zig''],
      [''zig'', ''build'', ''run'', ''--build-file'', ''examples/persistent-directory/build.zig'', ''--'',
       path_text (scratch @ [''native-store''])],
      [''zig'', ''build'', ''run'', ''--build-file'', ''examples/disk-directory/build.zig'', ''--'',
       path_text (scratch @ [''disk-store''])]]"

text \<open>\<open>subprocess.run(..., cwd=extracted, check=True)\<close>; a command may change the directory it runs in.\<close>

fun run_checked :: "(string list \<Rightarrow> entry \<Rightarrow> int result \<times> entry) \<Rightarrow> string list list \<Rightarrow> entry \<Rightarrow> unit result \<times> entry" where
  "run_checked run [] t = (Inr (), t)"
| "run_checked run (c # cs) t = (case run c t of
       (Inl e, t') \<Rightarrow> (Inl e, t')
     | (Inr code, t') \<Rightarrow> if code = 0 then run_checked run cs t' else (Inl (CalledProcessError (hd c)), t'))"

text \<open>The line printed. \<open>fetch\<close> runs \<open>zig fetch\<close> on the archive.\<close>

definition preflight :: "(string list \<Rightarrow> entry \<Rightarrow> int result \<times> entry) \<Rightarrow> ((path \<times> entry) list \<Rightarrow> completed result) \<Rightarrow>
    string \<Rightarrow> entry \<Rightarrow> path \<Rightarrow> string result" where
  "preflight run fetch manifest root scratch =
     bindE (manifest_paths manifest) (\<lambda>names.
     bindE (stage_all root names (Dir [])) (\<lambda>staging.
     bindE (unpack (packed staging) (Dir [])) (\<lambda>extracted.
     bindE (fst (run_checked run (build_commands scratch) extracted)) (\<lambda>_.
     bindE (fetch (packed staging)) (\<lambda>p.
     if exit_code p \<noteq> 0 then Inl (CalledProcessError ''zig'')
     else Inr (''[package-preflight] clean extracted tests + standalone consumer passed; ''
       @ strip (newlines (stdout_text p))))))))"

section \<open>What is copied\<close>

lemma look_Dir_other: "r \<noteq> [] \<Longrightarrow> hd r \<noteq> n \<Longrightarrow> look r (Dir ((n, e) # es)) = look r (Dir es)"
  by (cases r) auto

lemma copied_files:
  "copied e = Inr f \<Longrightarrow> leaf x \<Longrightarrow> look r f = Some x \<longleftrightarrow> look r e = Some x \<and> (\<forall>n \<in> set r. \<not> ignored n)"
  "copied_entries es = Inr fs \<Longrightarrow> leaf x \<Longrightarrow> look r (Dir fs) = Some x \<longleftrightarrow> look r (Dir es) = Some x \<and> (\<forall>n \<in> set r. \<not> ignored n)"
proof (induction e and es arbitrary: f r and fs r rule: copied_copied_entries.induct)
  case (6 n e es)
  show ?case
  proof (cases "ignored n")
    case True
    then have "copied_entries es = Inr fs"
      using "6.prems"(1) by simp
    note ih = "6.IH"(1) [OF True this "6.prems"(2), of r]
    consider "r = []" | "r \<noteq> []" "hd r = n" | "r \<noteq> []" "hd r \<noteq> n" by blast
    then show ?thesis
    proof cases
      case 2
      then show ?thesis using ih True by (cases r) auto
    next
      case 3
      then show ?thesis using ih look_Dir_other [OF 3] by simp
    qed (use "6.prems"(2) in auto)
  next
    case False
    then obtain f gs where f: "copied e = Inr f" "copied_entries es = Inr gs" "fs = (n, f) # gs"
      using "6.prems"(1) by (auto simp: bindE_Inr_iff)
    note e = "6.IH"(2) [OF False f(1) "6.prems"(2)]
    note es = "6.IH"(3) [OF False f(1,2) "6.prems"(2), of r]
    show ?thesis
      using e es False "6.prems"(2) unfolding f(3) by (cases r) auto
  qed
qed (auto simp: bindE_Inr_iff look_file dest: look_Dir_Nil)

lemma put_new_leaf:
  "put_new p y t = Inr t' \<Longrightarrow> leaf x \<Longrightarrow> look q t' = Some x \<longleftrightarrow> look q t = Some x \<or> (\<exists>r. q = p @ r \<and> look r y = Some x)"
proof (induction p y t arbitrary: t' q rule: put_new.induct)
  case (1 n y es)
  then have None: "map_of es n = None" and t': "t' = Dir (AList.update n y es)"
    using update_absent [of es n y] by (auto split: if_splits)
  show ?case
    using update_leaf [OF "1.prems"(2), of y es n "\<lambda>r. look r y = Some x" "\<lambda>q. \<exists>r. q = [n] @ r \<and> look r y = Some x"] None t'
    by simp
next
  case (2 n m p y es)
  then obtain e e' where e: "map_of es n = Some e" and w: "put_new (m # p) y e = Inr e'"
    and t': "t' = Dir (AList.update n e' es)"
    by (auto simp: bindE_Inr_iff split: option.splits)
  show ?case
    using update_leaf [OF "2.prems"(2), of e' es n "\<lambda>r. \<exists>s. r = (m # p) @ s \<and> look s y = Some x"
        "\<lambda>q. \<exists>s. q = (n # m # p) @ s \<and> look s y = Some x" q]
      "2.IH" [OF e w "2.prems"(2)] e t' by (simp, blast)
qed simp_all

text \<open>A file of the package: it is listed, or below a listed directory by names that are not ignored.\<close>

definition packaged :: "entry \<Rightarrow> string list \<Rightarrow> path \<Rightarrow> entry \<Rightarrow> bool" where
  "packaged root names q x \<longleftrightarrow> (\<exists>name \<in> set names. \<exists>r. q = path_parts name @ r \<and> look q root = Some x \<and> (\<forall>n \<in> set r. \<not> ignored n))"

lemma stage_cases:
  assumes "stage root name t = Inr t'"
  shows "\<exists>t1. mkdirs (butlast (path_parts name)) t = Inr t1
    \<and> ((\<exists>d. look (path_parts name) root = Some (File d) \<and> put_file (path_parts name) d t1 = Inr t')
      \<or> (\<exists>es f. look (path_parts name) root = Some (Dir es) \<and> copied (Dir es) = Inr f \<and> put_new (path_parts name) f t1 = Inr t'))"
proof -
  let ?p = "path_parts name"
  obtain t1 where 1: "mkdirs (butlast ?p) t = Inr t1"
    and rest: "(case look ?p root of
        Some (Dir es) \<Rightarrow> bindE (copied (Dir es)) (\<lambda>x. put_new ?p x t1)
      | Some (File d) \<Rightarrow> put_file ?p d t1
      | _ \<Rightarrow> Inl (OSError ''no such file or directory'')) = Inr t'"
    using assms by (auto simp: stage_def Let_def bindE_Inr_iff)
  obtain x where x: "look ?p root = Some x"
    using rest by (cases "look ?p root") auto
  show ?thesis
  proof (cases x)
    case (Dir es)
    then obtain f where "copied (Dir es) = Inr f" "put_new ?p f t1 = Inr t'"
      using rest x by (auto simp: bindE_Inr_iff simp del: copied.simps)
    then show ?thesis using 1 x Dir by blast
  qed (use rest x 1 in auto)
qed

lemma stage_files:
  assumes "stage root name t = Inr t'" and "leaf x" and "\<And>e. leaf e \<Longrightarrow> look q t = Some e \<Longrightarrow> look q root = Some e"
  shows "look q t' = Some x \<longleftrightarrow> look q t = Some x \<or> packaged root [name] q x"
proof -
  let ?p = "path_parts name"
  obtain t1 where 1: "mkdirs (butlast ?p) t = Inr t1"
    and how: "(\<exists>d. look ?p root = Some (File d) \<and> put_file ?p d t1 = Inr t')
      \<or> (\<exists>es f. look ?p root = Some (Dir es) \<and> copied (Dir es) = Inr f \<and> put_new ?p f t1 = Inr t')"
    using stage_cases [OF assms(1)] by (elim exE conjE) (rule that)
  note same = mkdirs_leaf [OF 1]
  consider d where "look ?p root = Some (File d)" "put_file ?p d t1 = Inr t'"
    | es f where "look ?p root = Some (Dir es)" "copied (Dir es) = Inr f" "put_new ?p f t1 = Inr t'"
    using how by blast
  then show ?thesis
  proof cases
    case 1
    have "packaged root [name] q x \<longleftrightarrow> q = ?p \<and> x = File d"
      using 1(1) by (auto simp: packaged_def look_append look_file)
    then show ?thesis
      using put_file_leaf [OF 1(2) assms(2), of q] same [OF assms(2), of q] assms(2,3) 1(1) by auto
  next
    case 2
    have "packaged root [name] q x \<longleftrightarrow> (\<exists>r. q = ?p @ r \<and> look r f = Some x)"
      using 2(1) copied_files(1) [OF 2(2) assms(2)] by (auto simp: packaged_def look_append)
    then show ?thesis
      using put_new_leaf [OF 2(3) assms(2), of q] same [OF assms(2), of q] by simp
  qed
qed

lemma stage_all_files:
  assumes "stage_all root names t = Inr t'" and "\<And>q e. leaf e \<Longrightarrow> look q t = Some e \<Longrightarrow> look q root = Some e" and "leaf x"
  shows "look q t' = Some x \<longleftrightarrow> look q t = Some x \<or> packaged root names q x"
  using assms(1,2)
proof (induction names arbitrary: t)
  case Nil
  then show ?case by (simp add: packaged_def)
next
  case (Cons name names)
  then obtain t1 where 1: "stage root name t = Inr t1" "stage_all root names t1 = Inr t'"
    by (auto simp: bindE_Inr_iff)
  have sub: "look q root = Some e" if "leaf e" "look q t1 = Some e" for q e
    using stage_files [OF 1(1) that(1), of q] that Cons.prems(2) by (auto simp: packaged_def)
  show ?case
    using Cons.IH [OF 1(2) sub] stage_files [OF 1(1) assms(3), of q] Cons.prems(2) by (auto simp: packaged_def)
qed

text \<open>No link or special file is ever staged.\<close>

definition plain_tree :: "entry \<Rightarrow> bool" where
  "plain_tree t \<longleftrightarrow> (\<forall>q. look q t \<noteq> Some Link \<and> look q t \<noteq> Some Special)"

lemma plain_treeD: "plain_tree t \<Longrightarrow> look q t \<noteq> Some Link" "plain_tree t \<Longrightarrow> look q t \<noteq> Some Special"
  by (simp_all add: plain_tree_def)

lemma copied_plain: "copied e = Inr f \<Longrightarrow> plain_tree f" "copied_entries es = Inr fs \<Longrightarrow> plain_tree (Dir fs)"
proof (induction e and es arbitrary: f and fs rule: copied_copied_entries.induct)
  case (6 n e es)
  show ?case
  proof (cases "ignored n")
    case True
    then show ?thesis using 6 by simp
  next
    case False
    then obtain f gs where f: "copied e = Inr f" "copied_entries es = Inr gs" "fs = (n, f) # gs"
      using "6.prems" by (auto simp: bindE_Inr_iff)
    have "look q (Dir fs) = (if q \<noteq> [] \<and> hd q = n then look (tl q) f else if q = [] then Some (Dir fs) else look q (Dir gs))" for q
      unfolding f(3) by (cases q) simp_all
    then show ?thesis
      using "6.IH"(2) [OF False f(1)] "6.IH"(3) [OF False f(1,2)] unfolding plain_tree_def by simp
  qed
next
  case 5
  then show ?case
    using look_Dir_Nil [of Link] look_Dir_Nil [of Special] by (auto simp: plain_tree_def)
qed (auto simp: bindE_Inr_iff plain_tree_def look_file)

lemma stage_plain:
  assumes "stage root name t = Inr t'" and "plain_tree t"
  shows "plain_tree t'"
proof -
  let ?p = "path_parts name"
  obtain t1 where 1: "mkdirs (butlast ?p) t = Inr t1"
    and how: "(\<exists>d. look ?p root = Some (File d) \<and> put_file ?p d t1 = Inr t')
      \<or> (\<exists>es f. look ?p root = Some (Dir es) \<and> copied (Dir es) = Inr f \<and> put_new ?p f t1 = Inr t')"
    using stage_cases [OF assms(1)] by (elim exE conjE) (rule that)
  have "look q t1 \<noteq> Some x" if "x = Link \<or> x = Special" for q x
    using mkdirs_leaf [OF 1, of x q] plain_treeD [OF assms(2), of q] that by auto
  then have t1: "plain_tree t1" by (simp add: plain_tree_def)
  have "look q t' \<noteq> Some x" if x: "x = Link \<or> x = Special" for q x
    using how
  proof (elim disjE exE conjE)
    fix d assume "put_file ?p d t1 = Inr t'"
    from put_file_leaf [OF this, of x q] show ?thesis
      using plain_treeD [OF t1, of q] x by (cases "q = ?p") auto
  next
    fix es f assume f: "copied (Dir es) = Inr f" "put_new ?p f t1 = Inr t'"
    show ?thesis
      using put_new_leaf [OF f(2), of x q] plain_treeD [OF t1, of q] plain_treeD [OF copied_plain(1) [OF f(1)]] x by auto
  qed
  then show ?thesis by (simp add: plain_tree_def)
qed

lemma stage_all_plain: "stage_all root names t = Inr t' \<Longrightarrow> plain_tree t \<Longrightarrow> plain_tree t'"
proof (induction names arbitrary: t)
  case (Cons name names)
  then obtain t1 where "stage root name t = Inr t1" "stage_all root names t1 = Inr t'"
    by (auto simp: bindE_Inr_iff)
  then show ?case
    using Cons.IH stage_plain Cons.prems(2) by blast
qed simp

section \<open>Packing and unpacking\<close>

text \<open>A tree has no more than another: the same files, fewer of them, in directories of the same names.\<close>

definition below :: "entry \<Rightarrow> entry \<Rightarrow> bool" where
  "below t u \<longleftrightarrow> (\<forall>q e. look q t = Some e \<longrightarrow> (\<exists>e'. look q u = Some e' \<and> (e' = e \<or> \<not> leaf e \<and> \<not> leaf e')))"

lemma belowD: "below t u \<Longrightarrow> leaf e \<Longrightarrow> look q t = Some e \<Longrightarrow> look q u = Some e"
  unfolding below_def by blast

lemma below_Dir: "below t (Dir fs) \<Longrightarrow> \<exists>es. t = Dir es"
  unfolding below_def by (force simp: leaf_def dest: spec [of _ "[]"])

lemma below_empty: "below (Dir []) (Dir fs)"
  unfolding below_def
proof (intro allI impI)
  fix q e assume "look q (Dir []) = Some e"
  then have "q = []" "e = Dir []" by (cases q; simp)+
  then show "\<exists>e'. look q (Dir fs) = Some e' \<and> (e' = e \<or> \<not> leaf e \<and> \<not> leaf e')" by simp
qed

lemma below_sub:
  assumes "below (Dir es) (Dir fs)" and "map_of es n = Some e"
  shows "\<exists>f. map_of fs n = Some f \<and> below e f"
proof -
  have "look [n] (Dir es) = Some e" using assms(2) by simp
  then obtain f where f: "map_of fs n = Some f"
    using assms(1) unfolding below_def by (fastforce split: option.splits)
  have "below e f"
    unfolding below_def
  proof (intro allI impI)
    fix q x assume "look q e = Some x"
    then have "look (n # q) (Dir es) = Some x" using assms(2) by simp
    then obtain x' where "look (n # q) (Dir fs) = Some x'" "x' = x \<or> \<not> leaf x \<and> \<not> leaf x'"
      using assms(1) unfolding below_def by blast
    then show "\<exists>x'. look q f = Some x' \<and> (x' = x \<or> \<not> leaf x \<and> \<not> leaf x')"
      using f by auto
  qed
  then show ?thesis using f by blast
qed

lemma below_update:
  assumes "below (Dir es) (Dir fs)" and "map_of fs n = Some f" and "below e f"
  shows "below (Dir (AList.update n e es)) (Dir fs)"
  unfolding below_def
proof (intro allI impI)
  fix q x assume q: "look q (Dir (AList.update n e es)) = Some x"
  show "\<exists>x'. look q (Dir fs) = Some x' \<and> (x' = x \<or> \<not> leaf x \<and> \<not> leaf x')"
  proof (cases q)
    case Nil
    then show ?thesis using q by auto
  next
    case (Cons m r)
    have "if m = n then look r e = Some x else look (m # r) (Dir es) = Some x"
      using q unfolding Cons look_update by presburger
    then show ?thesis
    proof (cases "m = n")
      case True
      then show ?thesis
        using assms(2,3) \<open>if m = n then _ else _\<close> unfolding Cons below_def by simp
    next
      case False
      then show ?thesis
        using assms(1) \<open>if m = n then _ else _\<close> unfolding Cons below_def by presburger
    qed
  qed
qed

lemma look_Dir_step:
  assumes "look (n # p) u = Some x"
  obtains fs f where "u = Dir fs" "map_of fs n = Some f" "look p f = Some x"
  using assms by (cases u) (auto split: option.splits)

lemma mkdirs_below:
  "below t u \<Longrightarrow> look p u = Some (Dir xs) \<Longrightarrow> \<exists>t' ys. mkdirs p t = Inr t' \<and> below t' u \<and> look p t' = Some (Dir ys)"
proof (induction p arbitrary: t u)
  case Nil
  then obtain es where "t = Dir es" using below_Dir by auto
  then show ?case using Nil by simp
next
  case (Cons n p)
  obtain fs f where u: "u = Dir fs" "map_of fs n = Some f" "look p f = Some (Dir xs)"
    using look_Dir_step [OF Cons.prems(2)] by metis
  obtain es where t: "t = Dir es"
    using below_Dir Cons.prems(1) u(1) by blast
  obtain e where e: "below e f" "mkdirs (n # p) t = bindE (mkdirs p e) (\<lambda>e'. Inr (Dir (AList.update n e' es)))"
  proof (cases "map_of es n")
    case None
    obtain gs where "f = Dir gs" using u(3) by (cases p; cases f) auto
    then show ?thesis
      using that [of "Dir []"] below_empty None t update_absent [OF None] by simp
  next
    case (Some e)
    then show ?thesis
      using that [of e] below_sub [of es fs n e] Cons.prems(1) t u by auto
  qed
  from Cons.IH [OF e(1) u(3)] obtain e' ys where "mkdirs p e = Inr e'" "below e' f" "look p e' = Some (Dir ys)" by blast
  then show ?case
    using below_update [of es fs n f e'] Cons.prems(1) e(2) t u by (simp add: update_conv)
qed

lemma put_file_below:
  "below t u \<Longrightarrow> p \<noteq> [] \<Longrightarrow> look p u = Some (File d) \<Longrightarrow> look (butlast p) t = Some (Dir xs)
     \<Longrightarrow> \<exists>t'. put_file p d t = Inr t' \<and> below t' u"
proof (induction p arbitrary: t u)
  case (Cons n p)
  obtain fs f where u: "u = Dir fs" "map_of fs n = Some f" "look p f = Some (File d)"
    using look_Dir_step [OF Cons.prems(3)] by metis
  obtain es where t: "t = Dir es"
    using below_Dir Cons.prems(1) u(1) by blast
  note up = below_update [of es fs n f]
  show ?case
  proof (cases p)
    case Nil
    have f: "f = File d" using u(3) Nil by simp
    have b: "below (File d) f"
      unfolding f below_def by simp
    have "map_of es n = None \<or> map_of es n = Some (File d)"
      using below_sub [of es fs n] Cons.prems(1) t u f unfolding below_def
      by (cases "map_of es n") (auto dest!: spec [of _ "[]"])
    then show ?thesis
      using up [OF _ u(2) b] Cons.prems(1) t u Nil by auto
  next
    case p: (Cons m p')
    obtain e where e: "map_of es n = Some e" "look (butlast p) e = Some (Dir xs)"
      using Cons.prems(4) p t by (auto split: option.splits)
    then have "below e f"
      using below_sub [of es fs n e] Cons.prems(1) t u by auto
    from Cons.IH [OF this _ u(3) e(2)] obtain e' where "put_file p d e = Inr e'" "below e' f"
      using p by auto
    then show ?thesis
      using up Cons.prems(1) t u e(1) p by auto
  qed
qed simp

lemma unpack_member_ok:
  assumes "below t u" and "look p u = Some x" and "p \<noteq> []" and "x \<noteq> Link" and "x \<noteq> Special"
  shows "\<exists>t'. unpack_member (p, x) t = Inr t' \<and> below t' u
    \<and> (\<forall>q e. leaf e \<longrightarrow> (look q t' = Some e \<longleftrightarrow> look q t = Some e \<or> q = p \<and> e = x))"
proof (cases x)
  case (File d)
  have "look (butlast p @ [last p]) u = Some x"
    using assms(2,3) by simp
  then obtain xs where "look (butlast p) u = Some (Dir xs)"
    unfolding look_append by (auto split: option.splits elim: look_Dir_step)
  from mkdirs_below [OF assms(1) this] obtain t1 ys
    where 1: "mkdirs (butlast p) t = Inr t1" "below t1 u" "look (butlast p) t1 = Some (Dir ys)" by blast
  from put_file_below [OF 1(2) assms(3) _ 1(3)] obtain t' where 2: "put_file p d t1 = Inr t'" "below t' u"
    using assms(2) File by blast
  have "look q t' = Some e \<longleftrightarrow> look q t = Some e \<or> q = p \<and> e = x" if e: "leaf e" for q e
  proof -
    have "look q t' = Some e \<longleftrightarrow> (if q = p then e = x else look q t = Some e)"
      using put_file_leaf [OF 2(1) e, of q] mkdirs_leaf [OF 1(1) e, of q] File by simp
    moreover have "look p t = Some e \<Longrightarrow> e = x"
      using belowD [OF assms(1) e] assms(2) by fastforce
    ultimately show ?thesis by auto
  qed
  then show ?thesis
    using 1(1) 2 File by (simp add: unpack_member_def)
next
  case (Dir xs)
  from mkdirs_below [OF assms(1) assms(2) [unfolded Dir]] obtain t' where t': "mkdirs p t = Inr t'" "below t' u" by blast
  then show ?thesis
    using mkdirs_leaf [OF t'(1)] Dir by (auto simp: unpack_member_def)
qed (use assms in simp_all)

lemma unpack_ok:
  assumes "below t u" and "\<forall>(p, x) \<in> set ms. p \<noteq> [] \<and> look p u = Some x \<and> x \<noteq> Link \<and> x \<noteq> Special"
  shows "\<exists>t'. unpack ms t = Inr t' \<and> (\<forall>q e. leaf e \<longrightarrow> (look q t' = Some e \<longleftrightarrow> look q t = Some e \<or> (q, e) \<in> set ms))"
  using assms
proof (induction ms arbitrary: t)
  case Nil
  then show ?case by simp
next
  case (Cons m ms)
  obtain p x where m: "m = (p, x)" by (cases m)
  then obtain t1 where 1: "unpack_member m t = Inr t1" "below t1 u"
    "\<forall>q e. leaf e \<longrightarrow> (look q t1 = Some e \<longleftrightarrow> look q t = Some e \<or> q = p \<and> e = x)"
    using unpack_member_ok [OF Cons.prems(1), of p x] Cons.prems(2) by auto
  obtain t' where "unpack ms t1 = Inr t'"
    "\<forall>q e. leaf e \<longrightarrow> (look q t' = Some e \<longleftrightarrow> look q t1 = Some e \<or> (q, e) \<in> set ms)"
    using Cons.IH [OF 1(2)] Cons.prems(2) by auto
  then show ?case
    using 1 m by auto
qed

lemma unpack_packed:
  assumes "tree_ok (Dir es)" and "plain_tree (Dir es)"
  shows "\<exists>t. unpack (packed (Dir es)) (Dir []) = Inr t \<and> (\<forall>q e. leaf e \<longrightarrow> (look q t = Some e \<longleftrightarrow> look q (Dir es) = Some e))"
proof -
  have mem: "(q, e) \<in> set (packed (Dir es)) \<longleftrightarrow> q \<noteq> [] \<and> look q (Dir es) = Some e" for q e
    using walk_look [OF assms(1)] by (simp add: packed_def)
  then have "\<forall>(p, x) \<in> set (packed (Dir es)). p \<noteq> [] \<and> look p (Dir es) = Some x \<and> x \<noteq> Link \<and> x \<noteq> Special"
    using plain_treeD [OF assms(2)] by fastforce
  from unpack_ok [OF below_empty this] obtain t where "unpack (packed (Dir es)) (Dir []) = Inr t"
    and f: "\<forall>q e. leaf e \<longrightarrow> (look q t = Some e \<longleftrightarrow> look q (Dir []) = Some e \<or> (q, e) \<in> set (packed (Dir es)))" by blast
  moreover have "look q (Dir []) \<noteq> Some e \<and> q \<noteq> []" if "leaf e" "look q (Dir es) = Some e" for q e
    using that look_Dir_Nil [of e q] by (cases q) auto
  ultimately show ?thesis
    using mem look_Dir_Nil by (intro exI [of _ t] conjI allI impI) metis+
qed

section \<open>Staged trees are well formed\<close>

lemma copied_tree:
  "copied e = Inr f \<Longrightarrow> tree_ok e \<Longrightarrow> tree_ok f"
  "copied_entries es = Inr fs \<Longrightarrow> tree_ok (Dir es) \<Longrightarrow> tree_ok (Dir fs) \<and> fst ` set fs \<subseteq> fst ` set es"
proof (induction e and es arbitrary: f and fs rule: copied_copied_entries.induct)
  case (6 n e es)
  have es: "tree_ok (Dir es)" "tree_ok e" "n \<notin> fst ` set es" "CHR ''/'' \<notin> set n"
    using "6.prems"(2) by (auto simp: dict_ok_def)
  show ?case
  proof (cases "ignored n")
    case True
    then show ?thesis
      using "6.IH"(1) [OF True _ es(1)] "6.prems"(1) by auto
  next
    case False
    then obtain f gs where f: "copied e = Inr f" "copied_entries es = Inr gs" "fs = (n, f) # gs"
      using "6.prems"(1) by (auto simp: bindE_Inr_iff)
    then show ?thesis
      using "6.IH"(2) [OF False f(1) es(2)] "6.IH"(3) [OF False f(1,2) es(1)] es(3,4) by (auto simp: dict_ok_def)
  qed
qed (auto simp: bindE_Inr_iff)

lemma put_new_tree:
  "put_new p x t = Inr t' \<Longrightarrow> tree_ok t \<Longrightarrow> tree_ok x \<Longrightarrow> \<forall>n \<in> set p. CHR ''/'' \<notin> set n \<Longrightarrow> tree_ok t' \<and> (\<exists>es. t' = Dir es)"
proof (induction p x t arbitrary: t' rule: put_new.induct)
  case (1 n x es)
  then show ?case
    using update_absent [of es n x] tree_ok_update [OF "1.prems"(2), of n x] by (auto split: if_splits)
next
  case (2 n m p x es)
  then obtain e e' where e: "map_of es n = Some e" and w: "put_new (m # p) x e = Inr e'"
    and t': "t' = Dir (AList.update n e' es)"
    by (auto simp: bindE_Inr_iff split: option.splits)
  have "tree_ok e" using "2.prems"(2) e by (auto dest: map_of_SomeD)
  then show ?case
    using "2.IH" [OF e w] "2.prems"(3,4) tree_ok_update [OF "2.prems"(2), of n e'] t' by auto
qed simp_all

lemma put_file_tree:
  "put_file p d t = Inr t' \<Longrightarrow> tree_ok t \<Longrightarrow> \<forall>n \<in> set p. CHR ''/'' \<notin> set n \<Longrightarrow> tree_ok t' \<and> (\<exists>es. t' = Dir es)"
proof (induction p d t arbitrary: t' rule: put_file.induct)
  case (1 n d es)
  then show ?case
    using tree_ok_update [OF "1.prems"(2), of n "File d"] by (auto split: option.splits entry.splits)
next
  case (2 n m p d es)
  then obtain e e' where e: "map_of es n = Some e" and w: "put_file (m # p) d e = Inr e'"
    and t': "t' = Dir (AList.update n e' es)"
    by (auto simp: bindE_Inr_iff split: option.splits)
  have "tree_ok e" using "2.prems"(2) e by (auto dest: map_of_SomeD)
  then show ?case
    using "2.IH" [OF e w] "2.prems"(3) tree_ok_update [OF "2.prems"(2), of n e'] t' by auto
qed simp_all

lemma stage_tree:
  assumes "stage root name t = Inr t'" and "tree_ok root" and "tree_ok t"
  shows "tree_ok t' \<and> (\<exists>es. t' = Dir es)"
proof -
  let ?p = "path_parts name"
  obtain t1 where 1: "mkdirs (butlast ?p) t = Inr t1"
    and how: "(\<exists>d. look ?p root = Some (File d) \<and> put_file ?p d t1 = Inr t')
      \<or> (\<exists>es f. look ?p root = Some (Dir es) \<and> copied (Dir es) = Inr f \<and> put_new ?p f t1 = Inr t')"
    using stage_cases [OF assms(1)] by (elim exE conjE) (rule that)
  have "\<forall>n \<in> set (butlast ?p). CHR ''/'' \<notin> set n"
    using path_parts_slash [of _ name] by (auto dest: in_set_butlastD)
  then have t1: "tree_ok t1"
    using mkdirs_tree [OF 1 assms(3)] by blast
  consider d where "put_file ?p d t1 = Inr t'"
    | es f where "look ?p root = Some (Dir es)" "copied (Dir es) = Inr f" "put_new ?p f t1 = Inr t'"
    using how by blast
  then show ?thesis
  proof cases
    case 1
    then show ?thesis
      using put_file_tree [OF 1 t1] path_parts_slash by blast
  next
    case 2
    then have "tree_ok f"
      using copied_tree(1) [OF 2(2)] look_parts [OF assms(2) 2(1)] by blast
    then show ?thesis
      using put_new_tree [OF 2(3) t1] path_parts_slash by blast
  qed
qed

lemma stage_all_tree:
  "stage_all root names t = Inr t' \<Longrightarrow> tree_ok root \<Longrightarrow> tree_ok t \<Longrightarrow> \<exists>es. t = Dir es \<Longrightarrow> tree_ok t' \<and> (\<exists>es. t' = Dir es)"
proof (induction names arbitrary: t)
  case (Cons name names)
  then obtain t1 where "stage root name t = Inr t1" "stage_all root names t1 = Inr t'"
    by (auto simp: bindE_Inr_iff)
  then show ?case
    using Cons.IH [of t1] stage_tree [of root name t t1] Cons.prems(2,3) by blast
qed simp

lemma staged:
  assumes "tree_ok root" and "stage_all root names (Dir []) = Inr staging"
  shows "tree_ok staging" "plain_tree staging" "\<exists>es. staging = Dir es"
    "leaf x \<Longrightarrow> look q staging = Some x \<longleftrightarrow> packaged root names q x"
proof -
  have empty: "plain_tree (Dir [])" "tree_ok (Dir [])"
    using look_Dir_Nil [of Link] look_Dir_Nil [of Special] by (auto simp: plain_tree_def)
  show "tree_ok staging" "\<exists>es. staging = Dir es"
    using stage_all_tree [OF assms(2,1) empty(2)] by blast+
  show "plain_tree staging"
    by (rule stage_all_plain [OF assms(2) empty(1)])
  show "look q staging = Some x \<longleftrightarrow> packaged root names q x" if "leaf x"
    using stage_all_files [OF assms(2) _ that, of q] look_Dir_Nil that by blast
qed

section \<open>Property\<close>

text \<open>
  C39: What the preflight builds and hashes is the package and nothing else: the archive and the
  directory the four commands start in have exactly the files the manifest lists, or that lie below
  a listed directory by names the copy does not ignore. Once the files are staged the preflight
  succeeds exactly when every command exits with 0, each in the directory its predecessor left, and
  the hash can be computed; it then prints that hash.
\<close>

theorem preflight_exact:
  assumes "tree_ok root" and "manifest_paths manifest = Inr names" and "stage_all root names (Dir []) = Inr staging"
  shows "\<exists>extracted. unpack (packed staging) (Dir []) = Inr extracted
    \<and> (\<forall>q d. look q extracted = Some (File d) \<longleftrightarrow> packaged root names q (File d))
    \<and> (\<forall>q d. (q, File d) \<in> set (packed staging) \<longleftrightarrow> packaged root names q (File d))
    \<and> (\<forall>line. preflight run fetch manifest root scratch = Inr line \<longleftrightarrow>
         fst (run_checked run (build_commands scratch) extracted) = Inr ()
         \<and> (\<exists>p. fetch (packed staging) = Inr p \<and> exit_code p = 0
              \<and> line = ''[package-preflight] clean extracted tests + standalone consumer passed; ''
                    @ strip (newlines (stdout_text p))))"
proof -
  note s = staged [OF assms(1,3)]
  obtain es where es: "staging = Dir es" using s(3) by blast
  obtain t where t: "unpack (packed staging) (Dir []) = Inr t"
    and files: "\<forall>q e. leaf e \<longrightarrow> (look q t = Some e \<longleftrightarrow> look q staging = Some e)"
    using unpack_packed s(1,2) unfolding es by blast
  have "(q, File d) \<in> set (packed staging) \<longleftrightarrow> look q staging = Some (File d)" for q d
    using walk_look [OF s(1), of q "File d"] es by (cases q) (simp_all add: packed_def)
  moreover have "preflight run fetch manifest root scratch = Inr line \<longleftrightarrow>
      fst (run_checked run (build_commands scratch) t) = Inr ()
      \<and> (\<exists>p. fetch (packed staging) = Inr p \<and> exit_code p = 0
           \<and> line = ''[package-preflight] clean extracted tests + standalone consumer passed; ''
                 @ strip (newlines (stdout_text p)))" for line
    by (auto simp: preflight_def assms(2,3) t bindE_Inr_iff)
  ultimately show ?thesis
    using t files s(4) by (intro exI [of _ t]) simp
qed

definition demo_listing :: string where
  "demo_listing = ''.{ .paths = .{ '' @ [quote] @ ''src'' @ [quote] @ '', '' @ [quote] @ ''docs/api'' @ [quote] @ '' } }''"

definition demo_repository :: entry where
  "demo_repository = Dir [(''src'', Dir [(''lib.zig'', File [1]), (''zig-out'', Dir [(''x'', File [2])])]),
     (''docs'', Dir [(''api'', File [3]), (''notes'', File [4])]), (''secret'', File [5])]"

definition demo_zig_run :: "string list \<Rightarrow> entry \<Rightarrow> int result \<times> entry" where
  "demo_zig_run c t = (Inr 0, t)"

definition demo_fetch :: "(path \<times> entry) list \<Rightarrow> completed result" where
  "demo_fetch ms = Inr \<lparr>stdout_text = ''h'', stderr_text = [], exit_code = 0\<rparr>"

theorem preflight_exact_witness:
  "\<exists>extracted. look [''src'', ''lib.zig''] extracted = Some (File [1]) \<and> look [''secret''] extracted \<noteq> Some (File [5])
    \<and> preflight demo_zig_run demo_fetch demo_listing demo_repository [''s'']
        = Inr ''[package-preflight] clean extracted tests + standalone consumer passed; h''"
proof -
  have names: "manifest_paths demo_listing = Inr [''src'', ''docs/api'']"
    by code_simp
  have parts: "path_parts ''src'' = [''src'']" "path_parts ''docs/api'' = [''docs'', ''api'']"
    by code_simp+
  have "\<exists>t. stage_all demo_repository [''src'', ''docs/api''] (Dir []) = Inr t"
    by (simp add: stage_def parts demo_repository_def ignored_def)
  then obtain staging where staging: "stage_all demo_repository [''src'', ''docs/api''] (Dir []) = Inr staging" by blast
  have ok: "tree_ok demo_repository"
    by (auto simp: demo_repository_def dict_ok_def)
  obtain t where t: "\<forall>q d. look q t = Some (File d) \<longleftrightarrow> packaged demo_repository [''src'', ''docs/api''] q (File d)"
    and run: "\<forall>line. preflight demo_zig_run demo_fetch demo_listing demo_repository [''s''] = Inr line \<longleftrightarrow>
      fst (run_checked demo_zig_run (build_commands [''s'']) t) = Inr ()
      \<and> (\<exists>p. demo_fetch (packed staging) = Inr p \<and> exit_code p = 0
           \<and> line = ''[package-preflight] clean extracted tests + standalone consumer passed; '' @ strip (newlines (stdout_text p)))"
    using preflight_exact [OF ok names staging, of demo_zig_run demo_fetch "[''s'']"] by (elim exE conjE) (rule that)
  have "run_checked demo_zig_run cs t = (Inr (), t)" for cs
    by (induction cs) (simp_all add: demo_zig_run_def)
  moreover have "strip (newlines ''h'') = ''h''"
    by code_simp
  ultimately have "preflight demo_zig_run demo_fetch demo_listing demo_repository [''s'']
      = Inr (''[package-preflight] clean extracted tests + standalone consumer passed; '' @ ''h'')"
    by (intro run [rule_format, THEN iffD2] conjI exI [of _ "\<lparr>stdout_text = ''h'', stderr_text = [], exit_code = 0\<rparr>"]) (simp_all add: demo_fetch_def)
  moreover have "packaged demo_repository [''src'', ''docs/api''] [''src'', ''lib.zig''] (File [1])"
    "\<not> packaged demo_repository [''src'', ''docs/api''] [''secret''] (File [5])"
    by (auto simp: packaged_def parts demo_repository_def ignored_def)
  ultimately show ?thesis
    using t by (intro exI [of _ t]) simp
qed

end
