(* ===== verification/Spec2Isabelle.thy ===== *)
theory Spec2Isabelle
  imports Chain_Digest Core_Oracle Core_Extract Fixture Bench_Report Tool_Main Fuzz_Artifacts Preflight
begin

text \<open>
  A verification development for the Python tools of the bucket-list repository: the executable
  reference model of the bucket list with its commitments, the scripts that check it against
  independent implementations, the benchmark comparison, the verified schema tooling, the fuzzing
  wrapper, and the gates run before a release.

  The program. \<open>tools/reference.py\<close> holds the reference model: a list of levels, each with a
  current bucket, a snapshot and a pending merge; \<open>Model.advance\<close> merges one batch of operations
  into it and \<open>Model.hashes\<close> commits to it with SHA-256; \<open>corpus\<close> runs a fixed workload through
  several depths and records every bucket and commitment. \<open>tools/v2-vectors.py\<close> computes the
  version-two block commitments and a second, hexadecimal implementation of the hash chain.
  \<open>tools/check-core-oracle.py\<close> compares the corpus with the output of a pinned C++ program.
  \<open>tools/compare-disk-bench.py\<close> refuses to compare two benchmark files unless both are complete
  histories with identical commitments, and then reports what they cost. \<open>tools/capnp_tool.py\<close> installs a pinned compiler, builds and
  caches a pinned generator, runs both on a copy of the schemas and publishes what they write.
  \<open>tools/guided-fuzz.py\<close> runs a fuzzing campaign under a watchdog, recovers the inputs it leaves and
  replays them. \<open>tools/check-api.py\<close>, \<open>tools/check-rejections.py\<close> and \<open>tools/package-preflight.py\<close> gate the
  public interface, the compile errors and the package. The scripts share no state but files: the fixture files that \<open>reference.py\<close> writes
  and the oracle reads, and the repository and the two caches that \<open>capnp_tool.py\<close> works on.

  The theories, in the order of their imports:
  Prelude: Python exceptions as values (\<open>py_error + 'a\<close>), the result monad, big-endian bytes,
  hexadecimal text, dictionaries as association lists in insertion order.
  Sha256: the hash itself, on 32-bit words, so that every digest is computed.
  Wire: \<open>u16\<close>, \<open>u32\<close>, \<open>u64\<close>, \<open>signed\<close>, \<open>schema_descriptor\<close>, \<open>encode_bucket\<close>, \<open>bucket_hash\<close> (lines 18 to 63).
  Levels: the record of one level and the locale \<open>buckets\<close>, the interface the levels have to their
  buckets: merge, lookup, and the laws that make a spill read the same.
  Workload: the operations and \<open>encode_operations\<close> (lines 74 to 128).
  Reference_Model: \<open>merge\<close> and \<open>Model\<close> with \<open>advance\<close> (lines 66 to 71 and 131 to 164); interprets the
  locale \<open>buckets\<close> on Python dictionaries.
  Oracle_Frames: \<open>rows_from_frame\<close>, the reader of an encoded bucket, and its round trip.
  Commitments and Histories: \<open>Model.hashes\<close> in closed form, and what it binds over whole histories.
  Corpus: \<open>corpus\<close>, its records, and the frames the oracle decodes from it.
  Peak_Tree, Blocks_V2, Chain_Digest: \<open>v2-vectors.py\<close>.
  Py_Text: \<open>str.split\<close>, \<open>splitlines\<close>, \<open>strip\<close>, \<open>in\<close>, \<open>int\<close>, text-mode line ends and the string literals of
  \<open>json.dumps\<close>.
  Core_Oracle: the checks of the core oracle. Fixture: \<open>zig_fixture\<close>, the printed corpus, and \<open>main\<close> of
  \<open>reference.py\<close>.
  Py_Json and Disk_Bench: parsed JSON values, and \<open>read\<close> and the checks of \<open>compare\<close> of the benchmark
  comparison. Py_Float: binary64 division as correct rounding of a rational, and \<open>statistics.median\<close>.
  Bench_Report: the report of \<open>compare\<close>.
  Py_Regex: the part of Python's \<open>re\<close> the tools use, as a backtracking matcher with a declarative
  relation beside it, and \<open>search\<close>, \<open>findall\<close> and \<open>sub\<close>. Core_Extract: \<open>extract\<close> of the core oracle.
  Tool_Files and Tool_Package: file trees, \<open>safe_path\<close>, \<open>inventory\<close>, \<open>extract_archive\<close>,
  \<open>verify_package\<close>, \<open>tool_pin\<close>.
  Tool_World: programs that change files, with every tree they go through, so that a property can
  speak of what an interrupted run leaves. On it: Tool_Publish (\<open>publish\<close>), Tool_Install (\<open>bootstrap\<close>,
  \<open>snapshot\<close>), Tool_Generator (\<open>mise_pin\<close>, \<open>dependency\<close>, \<open>generator\<close>) and Tool_Generate (\<open>generate\<close>,
  \<open>canonical\<close>); the argument \<open>module\<close> of \<open>generate\<close> is the binary \<open>generator\<close> returns. Tool_Main: \<open>main\<close>
  with its four commands over the repository and both caches, each reading its settings as the
  code does; it refuses a configuration whose \<open>outputs\<close> are not an object before the build, the
  code after it.
  Fuzz_Wrapper: the decisions of \<open>guided-fuzz.py\<close>: watchdog, parser of mapped inputs, recovery and
  verdict. Fuzz_Artifacts: the whole of \<open>main\<close> with the commands it composes and the files it leaves,
  shown to decide as Fuzz_Wrapper does.
  Check_Api, Check_Rejections and Preflight: the three gates.

  What the lemmas show. On reachable models the final assertion of \<open>advance\<close> never fails, the levels
  keep the scheduled shape, searching them is the logical map, and every commitment is total within
  64-bit counters and binds the whole state up to an exhibited collision of SHA-256 (\<open>collision\<close>);
  the two implementations of the chain agree. Encoders and readers are inverse, and no accepted
  frame is a prefix of another. The checkers are exact: what they accept is characterised, with
  nothing assumed of the programs whose output they read. The fixture is produced and typed. The
  schema tools are reproducible: a pin determines the package and the generator, publishing is
  atomic per file and settles, and no interruption leaves a cache entry or a destination that a
  later run takes for something else. The fuzzing wrapper fails closed and its
  verdict file says so. The benchmark report accounts for every measured row. The interface gate
  forgets the numbers of anonymous types and nothing else; the preflight builds and hashes exactly
  the files the manifest lists.

  Parameters. Programs that are not part of the repository are arguments of the definitions: the
  output of the C++ program (\<open>binary\<close> in \<open>oracle_main\<close>) and the text of its source, the JSON parser
  (\<open>loads\<close>), the members of an archive (\<open>untar\<close>), downloads, zig (\<open>zig_tool\<close>), the compiler, generator
  and formatter (\<open>toolchain\<close>), path lookups through links (\<open>lookups\<close>), the random part of a temporary
  name (\<open>pick_name\<close>), the polls of a child process and its clock, the campaign, the replays and the
  answers of \<open>git\<close> (\<open>machine\<close>), and the commands the gates run. Nothing is assumed of them but that
  they are functions.

  Bounds. Integers are unbounded, as in Python; \<open>struct.pack\<close> and \<open>to_bytes\<close> raise outside their
  width, and the theorems state the exact bounds. Strings are lists of characters below 256; bytes
  that are read as text are decoded to code points. No definition uses fuel: loops recurse on
  lists or have a termination proof, and the watchdog, which may wait for ever, is a
  \<open>partial_function (option)\<close> whose return is a theorem.

  Floats. A finite double other than zero is the rational it stands for; no theorem depends on how
  one is printed. Numbers in benchmark files are integers, as the benchmark writes them.

  Not modelled. The lines the tools log or print on a terminal, except where computing them can
  raise or they are the result; command-line parsing; the text of a diff; the start and stop of
  child processes; failures to create a directory or a temporary file. \<open>test_capnp_tool.py\<close> is a test
  suite. The Zig library is the product these tools check and is not translated.
\<close>

end
